(* ===== verification/Prelude.thy ===== *)
theory Prelude
  imports Main "HOL-Library.Word" "HOL-Library.Monad_Syntax" "HOL-Library.Char_ord"
    "HOL-Library.List_Lexorder" "HOL-Library.Product_Lexorder" "HOL-Library.Option_ord"
begin

unbundle bit_operations_syntax

text \<open>
  Shared vocabulary of the development: C strings and the functions of \<open>string.h\<close> and
  \<open>ctype.h\<close> that the library calls, machine flags, and generic lemmas on lists, orders
  and options.

  A C string is the list of its bytes before the terminating null byte. A pointer to a
  string that may be \<open>NULL\<close> is an \<open>option\<close>. The value \<open>None\<close> of an operation whose
  result type is an \<open>option\<close> of a state stands for undefined behaviour of the C code
  (a read through a dangling pointer, behind an array, of uninitialised memory).
\<close>

named_theorems cstr \<open>definitions of the C string library\<close>

section \<open>Bytes and C strings\<close>

abbreviation NUL :: char where "NUL \<equiv> CHR 0x00"
abbreviation SLASH :: char where "SLASH \<equiv> CHR 0x2F"
abbreviation BSL :: char where "BSL \<equiv> CHR 0x5C"

definition cstring :: "string \<Rightarrow> bool" where
  "cstring s \<longleftrightarrow> NUL \<notin> set s"

text \<open>
  Comparison of byte sequences. The C standard fixes only the sign of the result of
  \<open>memcmp\<close>, \<open>strcmp\<close> and \<open>strncmp\<close>; the model returns -1, 0 or 1. Bytes are compared as
  unsigned, and a proper prefix is smaller (its null byte is the smallest byte).
\<close>

fun bytecmp :: "string \<Rightarrow> string \<Rightarrow> int" where
  "bytecmp [] [] = 0"
| "bytecmp [] (_ # _) = -1"
| "bytecmp (_ # _) [] = 1"
| "bytecmp (x # xs) (y # ys) = (if x < y then -1 else if y < x then 1 else bytecmp xs ys)"

definition strcmp :: "string \<Rightarrow> string \<Rightarrow> int" where
  [cstr]: "strcmp s1 s2 = bytecmp s1 s2"

definition strncmp :: "string \<Rightarrow> string \<Rightarrow> nat \<Rightarrow> int" where
  [cstr]: "strncmp s1 s2 n = bytecmp (take n s1) (take n s2)"

definition memcmp :: "string \<Rightarrow> string \<Rightarrow> nat \<Rightarrow> int" where
  [cstr]: "memcmp b1 b2 n = bytecmp (take n b1) (take n b2)"

definition elektraStrLen :: "string \<Rightarrow> nat" where
  "elektraStrLen s = length s + 1"

definition toupper :: "char \<Rightarrow> char" where
  "toupper c = (if of_char c \<ge> (97::nat) \<and> of_char c \<le> (122::nat)
     then char_of (of_char c - 32 :: nat) else c)"

lemma bytecmp_eq: "bytecmp xs ys = (if xs < ys then -1 else if xs = ys then 0 else 1)"
  by (induction xs ys rule: bytecmp.induct) auto

lemma bytecmp_0_iff [simp]: "bytecmp xs ys = 0 \<longleftrightarrow> xs = ys"
  by (simp add: bytecmp_eq)

lemma bytecmp_pos_iff: "bytecmp xs ys > 0 \<longleftrightarrow> ys < xs"
  by (auto simp: bytecmp_eq)

lemma bytecmp_neg_iff: "bytecmp xs ys < 0 \<longleftrightarrow> xs < ys"
  by (auto simp: bytecmp_eq)

lemma strcmp_0_iff [simp]: "strcmp xs ys = 0 \<longleftrightarrow> xs = ys"
  by (simp add: strcmp_def)

lemma strncmp_0_iff: "strncmp xs ys n = 0 \<longleftrightarrow> take n xs = take n ys"
  by (simp add: strncmp_def)

lemma memcmp_0_iff: "memcmp xs ys n = 0 \<longleftrightarrow> take n xs = take n ys"
  by (simp add: memcmp_def)

lemma cstring_Nil [simp]: "cstring []"
  by (simp add: cstring_def)

lemma cstring_Cons [simp]: "cstring (c # s) \<longleftrightarrow> c \<noteq> NUL \<and> cstring s"
  by (auto simp: cstring_def)

lemma cstring_append [simp]: "cstring (s @ t) \<longleftrightarrow> cstring s \<and> cstring t"
  by (auto simp: cstring_def)

lemma cstring_replicate [simp]: "cstring (replicate n c) \<longleftrightarrow> n = 0 \<or> c \<noteq> NUL"
  by (cases n) (auto simp: cstring_def)

lemma cstring_take: "cstring s \<Longrightarrow> cstring (take n s)"
  by (auto simp: cstring_def dest: in_set_takeD)

lemma cstring_drop: "cstring s \<Longrightarrow> cstring (drop n s)"
  by (auto simp: cstring_def dest: in_set_dropD)

text \<open>The bytes up to the first null byte: what a C string function sees of a buffer.\<close>

definition upto_nul :: "string \<Rightarrow> string" where
  "upto_nul b = takeWhile (\<lambda>c. c \<noteq> NUL) b"

lemma upto_nul_cstring [simp]: "cstring s \<Longrightarrow> upto_nul (s @ NUL # b) = s"
  unfolding upto_nul_def by (induction s) auto

lemma cstring_upto_nul [simp]: "cstring (upto_nul b)"
  by (auto simp: upto_nul_def cstring_def dest: set_takeWhileD)

section \<open>Flags\<close>

type_synonym flags_t = "32 word"

definition test_bit :: "flags_t \<Rightarrow> flags_t \<Rightarrow> bool" where
  "test_bit var b \<longleftrightarrow> var AND b \<noteq> 0"

definition set_bit_flag :: "flags_t \<Rightarrow> flags_t \<Rightarrow> flags_t" where
  "set_bit_flag var b = var OR b"

definition clear_bit :: "flags_t \<Rightarrow> flags_t \<Rightarrow> flags_t" where
  "clear_bit var b = var AND NOT b"

lemma test_bit_or: "test_bit (v OR w) b \<longleftrightarrow> test_bit v b \<or> test_bit w b"
  unfolding test_bit_def by (simp add: bit.conj_disj_distrib2 or_eq_0_iff)

lemma test_bit_set [simp]: "test_bit (set_bit_flag v w) b \<longleftrightarrow> test_bit v b \<or> test_bit w b"
  by (simp add: set_bit_flag_def test_bit_or)

lemma test_bit_clear_same [simp]: "\<not> test_bit (clear_bit v b) b"
  by (simp add: test_bit_def clear_bit_def word_bw_assocs)

lemma test_bit_clear_other:
  assumes "w AND b = 0"
  shows "test_bit (clear_bit v w) b \<longleftrightarrow> test_bit v b"
proof -
  have "NOT w AND b = b"
  proof -
    have "NOT w AND b = (NOT w AND b) OR (w AND b)" using assms by simp
    also have "\<dots> = b" by (simp add: bit_eq_iff bit_simps) blast
    finally show ?thesis .
  qed
  then show ?thesis
    by (simp add: test_bit_def clear_bit_def word_bw_assocs)
qed

section \<open>Lists\<close>

lemma takeWhile_all_replicate: "takeWhile (\<lambda>c. c = x) (replicate n x @ s)
  = replicate n x @ takeWhile (\<lambda>c. c = x) s"
  by (induction n) auto

lemma takeWhile_replicate: "takeWhile (\<lambda>c. c = x) s = replicate (length (takeWhile (\<lambda>c. c = x) s)) x"
  by (induction s) auto

lemma dropWhile_hd_False: "\<not> P c \<Longrightarrow> dropWhile P (c # s) = c # s"
  by simp

lemma strict_sorted_distinct:
  "sorted_wrt (<) (xs :: 'a :: linorder list) \<Longrightarrow> distinct xs"
  by (induction xs) auto

lemma sorted_wrt_nth_less_iff:
  assumes "sorted_wrt (<) (xs :: 'a :: linorder list)" "i < length xs" "j < length xs"
  shows "xs ! i < xs ! j \<longleftrightarrow> i < j"
proof (cases i j rule: linorder_cases)
  case less
  then show ?thesis using assms by (simp add: sorted_wrt_nth_less)
next
  case equal
  then show ?thesis by simp
next
  case greater
  then have "xs ! j < xs ! i" using assms by (simp add: sorted_wrt_nth_less)
  with greater show ?thesis by (simp add: order.asym)
qed

lemma bind_Some_iff [simp]: "Option.bind x f = Some y \<longleftrightarrow> (\<exists>a. x = Some a \<and> f a = Some y)"
  by (cases x) auto

section \<open>Conversion to int\<close>

text \<open>A wider integer stored in an \<open>int\<close> of 32 bits.\<close>

definition toInt :: "int \<Rightarrow> int" where
  "toInt t = sint (word_of_int t :: 32 word)"

lemma toInt_small [simp]: "- (2 ^ 31) \<le> t \<Longrightarrow> t < 2 ^ 31 \<Longrightarrow> toInt t = t"
  by (simp add: toInt_def sint_sbintrunc' signed_take_bit_int_eq_self)

end
