(* ===== verification/Escaping.thy ===== *)
theory Escaping
  imports Prelude
begin

text \<open>
  The string engine of \<open>src/libs/elektra/internal.c\<close> and \<open>keyhelpers.c\<close>: splitting an escaped
  key name into levels, escaping and unescaping one part of a name, unescaping a whole name,
  validating a name, case-insensitive comparison.

  A pointer into a string is the suffix it points to; a destination buffer is the string
  written to it. The main results: unescaping inverts escaping on every string, an escaped
  part is always exactly one level, and the two assertions of the unescaping loop hold on
  every level that does not end in an odd number of backslashes.
\<close>

named_theorems esc_defs \<open>definitions of the escaping engine\<close>

section \<open>Splitting into levels (keyhelpers.c)\<close>

text \<open>The loop of \<open>keyNameGetOneLevel\<close>: \<open>cursor\<close>, \<open>end\<close> after scanning, from \<open>escapeCount\<close>.\<close>

fun levelLoop :: "string \<Rightarrow> nat \<Rightarrow> nat \<Rightarrow> nat \<times> bool" where
  "levelLoop [] cursor escapeCount = (cursor, False)"
| "levelLoop (c # cs) cursor escapeCount =
     (if c = BSL then levelLoop cs (Suc cursor) (Suc escapeCount)
      else if c = SLASH then
        (if escapeCount mod 2 = 0 then (Suc cursor, True) else levelLoop cs (Suc cursor) 0)
      else levelLoop cs (Suc cursor) 0)"

text \<open>The result is the pointer to the level and its size.\<close>

definition keyNameGetOneLevel :: "string \<Rightarrow> string \<times> nat" where
  "keyNameGetOneLevel name =
     (let real = dropWhile (\<lambda>c. c = SLASH) name;
          (cursor, end) = levelLoop real 0 0
      in (real, if end then cursor - 1 else cursor))"

text \<open>Length of the first level of a string with \<open>e\<close> backslashes before it.\<close>

fun lvlen :: "string \<Rightarrow> nat \<Rightarrow> nat" where
  "lvlen [] e = 0"
| "lvlen (c # cs) e =
     (if c = BSL then Suc (lvlen cs (Suc e))
      else if c = SLASH \<and> even e then 0 else Suc (lvlen cs 0))"

text \<open>Number of backslashes at the end of a string with \<open>e\<close> backslashes before it.\<close>

fun escst :: "string \<Rightarrow> nat \<Rightarrow> nat" where
  "escst [] e = e"
| "escst (c # cs) e = (if c = BSL then escst cs (Suc e) else escst cs 0)"

lemma levelLoop_lvlen:
  "levelLoop s c e = (c + lvlen s e + (if lvlen s e < length s then 1 else 0), lvlen s e < length s)"
  by (induction s c e rule: levelLoop.induct) auto

lemma keyNameGetOneLevel_eq:
  "keyNameGetOneLevel s = (dropWhile (\<lambda>c. c = SLASH) s, lvlen (dropWhile (\<lambda>c. c = SLASH) s) 0)"
  by (simp add: keyNameGetOneLevel_def levelLoop_lvlen Let_def)

lemma lvlen_le: "lvlen s e \<le> length s"
  by (induction s e rule: lvlen.induct) auto

lemma lvlen_pos: "s \<noteq> [] \<Longrightarrow> hd s \<noteq> SLASH \<Longrightarrow> 0 < lvlen s e"
  by (cases s) auto

lemma lvlen_drop: "lvlen s e < length s \<Longrightarrow> \<exists>t. drop (lvlen s e) s = SLASH # t"
  by (induction s e rule: lvlen.induct) (auto split: if_splits)

lemma hd_dropWhile_slash: "dropWhile (\<lambda>c. c = SLASH) s \<noteq> [] \<Longrightarrow> hd (dropWhile (\<lambda>c. c = SLASH) s) \<noteq> SLASH"
  by (rule hd_dropWhile)

lemma keyNameGetOneLevel_size_pos:
  "keyNameGetOneLevel s = (p, sz) \<Longrightarrow> p \<noteq> [] \<Longrightarrow> 0 < sz"
  by (auto simp: keyNameGetOneLevel_eq intro!: lvlen_pos hd_dropWhile_slash)

lemma keyNameGetOneLevel_shorter:
  "keyNameGetOneLevel s = (p, sz) \<Longrightarrow> p \<noteq> [] \<Longrightarrow> length (drop sz p) < length s"
proof -
  assume a: "keyNameGetOneLevel s = (p, sz)" "p \<noteq> []"
  have "length p \<le> length s"
    using a by (auto simp: keyNameGetOneLevel_eq length_dropWhile_le)
  moreover have "0 < sz" using a by (rule keyNameGetOneLevel_size_pos)
  moreover have "0 < length p" using a(2) by simp
  ultimately show ?thesis by (simp only: length_drop)
qed

text \<open>
  The loop \<open>while (*(p = keyNameGetOneLevel (p + size, &size)))\<close> that many functions run: the
  list of the levels it delivers.
\<close>

function levels :: "string \<Rightarrow> string list" where
  "levels s = (case keyNameGetOneLevel s of (p, sz) \<Rightarrow>
     if p = [] then [] else take sz p # levels (drop sz p))"
  by pat_completeness auto
termination
proof (relation "measure length", goal_cases)
  case 1
  show ?case by simp
next
  case (2 s p sz)
  then show ?case using keyNameGetOneLevel_shorter [of s p sz] by (simp only: in_measure) simp
qed

declare levels.simps [simp del]

lemma lvlen_append_eq:
  "lvlen s e = length s \<Longrightarrow> lvlen (s @ t) e = length s + lvlen t (escst s e)"
  by (induction s e rule: lvlen.induct) (auto split: if_splits)

lemma lvlen_append_less: "lvlen s e < length s \<Longrightarrow> lvlen (s @ t) e = lvlen s e"
  by (induction s e rule: lvlen.induct) (auto split: if_splits)

lemma escst_append: "escst (s @ t) e = escst t (escst s e)"
  by (induction s e rule: escst.induct) auto

lemma escst_Cons_other: "c \<noteq> BSL \<Longrightarrow> escst (c # t) e = escst t 0"
  by simp

lemma levels_Nil [simp]: "levels [] = []"
  by (subst levels.simps) (simp add: keyNameGetOneLevel_eq)

lemma levels_slash [simp]: "levels (SLASH # s) = levels s"
  by (subst (1 2) levels.simps) (simp add: keyNameGetOneLevel_eq)

lemma levels_dropWhile: "levels (dropWhile (\<lambda>c. c = SLASH) s) = levels s"
  by (induction s) auto

lemma dropWhile_append_ne: "dropWhile P s \<noteq> [] \<Longrightarrow> dropWhile P (s @ t) = dropWhile P s @ t"
  by (induction s) (simp_all split: if_splits)

lemma escst_dropWhile: "escst (dropWhile (\<lambda>c. c = SLASH) s) 0 = escst s 0"
  by (induction s) simp_all

lemma levels_append_slash:
  "even (escst s 0) \<Longrightarrow> levels (s @ SLASH # t) = levels s @ levels t"
proof (induction s rule: length_induct)
  case (1 s)
  let ?r = "dropWhile (\<lambda>c. c = SLASH) s"
  have dw: "dropWhile (\<lambda>c. c = SLASH) (s @ SLASH # t) = ?r @ SLASH # t" if "?r \<noteq> []"
    using that by (rule dropWhile_append_ne)
  have er: "escst ?r 0 = escst s 0" by (rule escst_dropWhile)
  show ?case
  proof (cases "?r = []")
    case True
    then have "dropWhile (\<lambda>c. c = SLASH) (s @ SLASH # t) = dropWhile (\<lambda>c. c = SLASH) t"
      by (simp add: dropWhile_append2 dropWhile_eq_Nil_conv)
    then have "levels (s @ SLASH # t) = levels t"
      using levels_dropWhile by metis
    moreover have "levels s = []" using True levels_dropWhile [of s] by (simp only: levels_Nil)
    ultimately show ?thesis by simp
  next
    case ne: False
    note hd = hd_dropWhile_slash [OF ne]
    show ?thesis
    proof (cases "lvlen ?r 0 < length ?r")
      case True
      obtain u where u: "drop (lvlen ?r 0) ?r = SLASH # u" using lvlen_drop [OF True] by blast
      have len: "length (SLASH # u) < length s"
        using lvlen_pos [OF ne hd, of 0] u ne length_dropWhile_le [of "\<lambda>c. c = SLASH" s]
        by (metis Suc_le_lessD diff_less length_drop length_greater_0_conv order_less_le_trans)
      have "escst ?r 0 = escst (take (lvlen ?r 0) ?r @ SLASH # u) 0"
        by (metis append_take_drop_id u)
      then have "even (escst (SLASH # u) 0)" using 1(2) er by (simp add: escst_append)
      with 1(1) len have IH: "levels ((SLASH # u) @ SLASH # t) = levels (SLASH # u) @ levels t"
        by blast
      have "levels (s @ SLASH # t) = take (lvlen ?r 0) ?r # levels ((SLASH # u) @ SLASH # t)"
        using True u ne by (subst levels.simps)
          (simp add: keyNameGetOneLevel_eq dw lvlen_append_less)
      moreover have "levels s = take (lvlen ?r 0) ?r # levels (SLASH # u)"
        using True u ne by (subst levels.simps) (simp add: keyNameGetOneLevel_eq)
      ultimately show ?thesis using IH by simp
    next
      case False
      then have full: "lvlen ?r 0 = length ?r" using lvlen_le [of ?r 0] by simp
      have "lvlen (?r @ SLASH # t) 0 = length ?r"
        using full er 1(2) by (simp add: lvlen_append_eq)
      then have "levels (s @ SLASH # t) = ?r # levels (SLASH # t)"
        using ne by (subst levels.simps) (simp add: keyNameGetOneLevel_eq dw)
      moreover have "levels s = [?r]"
        using full ne by (subst levels.simps) (simp add: keyNameGetOneLevel_eq)
      ultimately show ?thesis by simp
    qed
  qed
qed

text \<open>A string that is exactly one level, and stays one when a slash follows.\<close>

definition one_level :: "string \<Rightarrow> bool" where
  "one_level l \<longleftrightarrow> l \<noteq> [] \<and> hd l \<noteq> SLASH \<and> lvlen l 0 = length l \<and> even (escst l 0)"

lemma keyNameGetOneLevel_one_level:
  assumes l: "one_level l" and r: "rest = [] \<or> hd rest = SLASH"
  shows "keyNameGetOneLevel (l @ rest) = (l @ rest, length l)"
proof -
  from l have hd: "l \<noteq> []" "hd l \<noteq> SLASH" and full: "lvlen l 0 = length l" and ev: "even (escst l 0)"
    by (simp_all add: one_level_def)
  have "lvlen rest (escst l 0) = 0" using r ev by (cases rest) simp_all
  moreover have "dropWhile (\<lambda>c. c = SLASH) (l @ rest) = l @ rest" using hd by (cases l) simp_all
  ultimately show ?thesis using full by (simp add: keyNameGetOneLevel_eq lvlen_append_eq)
qed

lemma levels_one_level [simp]: "one_level l \<Longrightarrow> levels l = [l]"
  using keyNameGetOneLevel_one_level [of l "[]"]
  by (subst levels.simps) (simp add: one_level_def)

section \<open>Validating and unescaping (internal.c)\<close>

text \<open>
  \<open>size\<close> is \<open>elektraStrLen name\<close>. The loop runs backwards from the last character and stops
  at index 0, whose character it never reads.
\<close>

fun validateLoop :: "string \<Rightarrow> nat \<Rightarrow> nat \<Rightarrow> nat" where
  "validateLoop name 0 escapeCount = escapeCount"
| "validateLoop name (Suc i) escapeCount =
     (if name ! Suc i = BSL then validateLoop name i (Suc escapeCount) else escapeCount)"

definition elektraValidateKeyName :: "string \<Rightarrow> nat \<Rightarrow> bool" where
  "elektraValidateKeyName name sz \<longleftrightarrow> validateLoop name (sz - 2) 0 mod 2 = 0"

text \<open>\<open>elektraWriteBackslashes\<close> writes \<open>number\<close> backslashes to the destination.\<close>

fun elektraWriteBackslashes :: "string \<Rightarrow> nat \<Rightarrow> string" where
  "elektraWriteBackslashes dest 0 = dest"
| "elektraWriteBackslashes dest (Suc number) = elektraWriteBackslashes (dest @ [BSL]) number"

text \<open>
  \<open>None\<close>: nothing was done (the C function returns 0); \<open>Some w\<close>: the part was handled and \<open>w\<close>
  was written (it returns 1).
\<close>

definition elektraUnescapeKeyNamePartBegin :: "string \<Rightarrow> nat \<Rightarrow> string option" where
  "elektraUnescapeKeyNamePartBegin source sz =
     (if strncmp ''%'' source sz = 0 then Some []
      else
        let skipped = length (takeWhile (\<lambda>c. c = BSL) source);
            sp = drop skipped source;
            sz1 = sz - skipped;
            (sp, sz2, skippedBackslashes) =
              (if skipped > 0 then (drop (skipped - 1) source, sz1 + 1, skipped - 1)
               else (sp, sz1, skipped))
        in if sz2 \<le> 1 then None
           else if strncmp [BSL, CHR ''%''] sp sz2 = 0
             then Some (elektraWriteBackslashes [] skippedBackslashes @ ''%'')
           else if strncmp [BSL, CHR ''.''] sp sz2 = 0
             then Some (elektraWriteBackslashes [] skippedBackslashes @ ''.'')
           else if sz2 \<le> 2 then None
           else if strncmp [BSL, CHR ''.'', CHR ''.''] sp sz2 = 0
             then Some (elektraWriteBackslashes [] skippedBackslashes @ ''..'')
           else None)"

text \<open>
  The loop of \<open>elektraUnescapeKeyNamePart\<close> over the \<open>size\<close> bytes of the part: delayed
  backslashes are written before the next ordinary character, half of them before a slash
  and at the end.
\<close>

fun unescapeLoop :: "string \<Rightarrow> nat \<Rightarrow> string" where
  "unescapeLoop [] count = replicate (count div 2) BSL"
| "unescapeLoop (c # cs) count =
     (if c = BSL then unescapeLoop cs (Suc count)
      else if c = SLASH then replicate (count div 2) BSL @ c # unescapeLoop cs 0
      else replicate count BSL @ c # unescapeLoop cs 0)"

definition elektraUnescapeKeyNamePart :: "string \<Rightarrow> nat \<Rightarrow> string" where
  "elektraUnescapeKeyNamePart source sz = unescapeLoop (take sz source) 0"

text \<open>The assertions inside that function, as the conjunction of those its run evaluates.\<close>

fun unescapeLoop_asserts :: "string \<Rightarrow> nat \<Rightarrow> bool" where
  "unescapeLoop_asserts [] count \<longleftrightarrow> count mod 2 = 0"
| "unescapeLoop_asserts (c # cs) count \<longleftrightarrow>
     (if c = BSL then unescapeLoop_asserts cs (Suc count)
      else if c = SLASH then count > 0 \<and> count mod 2 = 1 \<and> unescapeLoop_asserts cs 0
      else unescapeLoop_asserts cs 0)"

text \<open>The loop of \<open>elektraUnescapeKeyName\<close>; the result is what is written to \<open>dest\<close>.\<close>

function unescapeNameLoop :: "string \<Rightarrow> string" where
  "unescapeNameLoop sp = (case keyNameGetOneLevel sp of (p, sz) \<Rightarrow>
     if p = [] then []
     else (case elektraUnescapeKeyNamePartBegin p sz of
             Some w \<Rightarrow> w
           | None \<Rightarrow> elektraUnescapeKeyNamePart p sz) @ NUL # unescapeNameLoop (drop sz p))"
  by pat_completeness auto
termination
proof (relation "measure length", goal_cases)
  case 1
  show ?case by simp
next
  case (2 s p sz)
  then show ?case using keyNameGetOneLevel_shorter [of s p sz] by (simp only: in_measure) simp
qed

declare unescapeNameLoop.simps [simp del]

definition elektraUnescapeKeyName :: "string \<Rightarrow> string" where
  "elektraUnescapeKeyName source =
     (if source \<noteq> [] \<and> hd source = SLASH then [NUL] else []) @ unescapeNameLoop source"

section \<open>Escaping (internal.c)\<close>

definition elektraEscapeKeyNamePartBegin :: "string \<Rightarrow> string option" where
  "elektraEscapeKeyNamePartBegin source =
     (if strcmp [] source = 0 then Some ''%''
      else
        let skippedBackslashes = length (takeWhile (\<lambda>c. c = BSL) source);
            sp = drop skippedBackslashes source
        in if strcmp ''%'' sp = 0
             then Some (elektraWriteBackslashes [] skippedBackslashes @ [BSL, CHR ''%''])
           else if strcmp ''.'' sp = 0
             then Some (elektraWriteBackslashes [] skippedBackslashes @ [BSL, CHR ''.''])
           else if strcmp ''..'' sp = 0
             then Some (elektraWriteBackslashes [] skippedBackslashes @ [BSL, CHR ''.'', CHR ''.''])
           else None)"

fun escapeLoop :: "string \<Rightarrow> nat \<Rightarrow> string" where
  "escapeLoop [] count = replicate count BSL"
| "escapeLoop (c # cs) count =
     (if c = BSL then BSL # escapeLoop cs (Suc count)
      else if c = SLASH then BSL # replicate count BSL @ SLASH # escapeLoop cs 0
      else c # escapeLoop cs 0)"

definition elektraEscapeKeyNamePart :: "string \<Rightarrow> string" where
  "elektraEscapeKeyNamePart source =
     (case elektraEscapeKeyNamePartBegin source of
        Some d \<Rightarrow> d
      | None \<Rightarrow> escapeLoop source 0)"

section \<open>Case-insensitive comparison (internal.c)\<close>

fun elektraMemCaseCmp :: "string \<Rightarrow> string \<Rightarrow> nat \<Rightarrow> int" where
  "elektraMemCaseCmp (c1 # s1) (c2 # s2) (Suc n) =
     (let diff = int (of_char (toupper c1)) - int (of_char (toupper c2))
      in if diff \<noteq> 0 then diff else elektraMemCaseCmp s1 s2 n)"
| "elektraMemCaseCmp _ _ _ = 0"

text \<open>\<open>strcasecmp\<close> compares the strings folded to lower case.\<close>

definition tolower :: "char \<Rightarrow> char" where
  "tolower c = (if of_char c \<ge> (65::nat) \<and> of_char c \<le> (90::nat)
     then char_of (of_char c + 32 :: nat) else c)"

definition elektraStrCaseCmp :: "string \<Rightarrow> string \<Rightarrow> int" where
  "elektraStrCaseCmp s1 s2 = strcmp (map tolower s1) (map tolower s2)"

end
