(* ===== verification/EscapingFacts.thy ===== *)
theory EscapingFacts
  imports Escaping
begin

text \<open>
  Facts about the escaping engine: normal forms of its operations on one level, the
  round trip, and what the validation of a name guarantees.
\<close>

section \<open>One level in normal form\<close>

lemma elektraWriteBackslashes_eq [simp]: "elektraWriteBackslashes d n = d @ replicate n BSL"
  by (induction d n rule: elektraWriteBackslashes.induct) (simp_all add: replicate_app_Cons_same)

definition unescBegin :: "string \<Rightarrow> string option" where
  "unescBegin l =
     (if l = ''%'' then Some []
      else let k = length (takeWhile (\<lambda>c. c = BSL) l); r = drop k l
        in if k > 0 \<and> (r = ''%'' \<or> r = ''.'' \<or> r = ''..'') then Some (replicate (k - 1) BSL @ r)
           else None)"

definition unescPart :: "string \<Rightarrow> string" where
  "unescPart l = (case unescBegin l of Some w \<Rightarrow> w | None \<Rightarrow> unescapeLoop l 0)"

lemma bsl_split:
  obtains k r where "l = replicate k BSL @ r" "r = [] \<or> hd r \<noteq> BSL"
    "length (takeWhile (\<lambda>c. c = BSL) l) = k" "drop k l = r"
proof
  let ?k = "length (takeWhile (\<lambda>c. c = BSL) l)" and ?r = "dropWhile (\<lambda>c. c = BSL) l"
  show "l = replicate ?k BSL @ ?r"
    using takeWhile_replicate [of BSL l] takeWhile_dropWhile_id [of "\<lambda>c. c = BSL" l] by metis
  show "?r = [] \<or> hd ?r \<noteq> BSL" using hd_dropWhile [of "\<lambda>c. c = BSL" l] by blast
  show "drop ?k l = ?r" by (simp add: dropWhile_eq_drop)
qed simp

lemma takeWhile_bsl_replicate:
  "r = [] \<or> hd r \<noteq> BSL \<Longrightarrow> takeWhile (\<lambda>c. c = BSL) (replicate k BSL @ r) = replicate k BSL"
  by (cases r) (simp_all add: takeWhile_all_replicate)

lemma unescBegin_replicate:
  "r = [] \<or> hd r \<noteq> BSL \<Longrightarrow> unescBegin (replicate k BSL @ r) =
     (if replicate k BSL @ r = ''%'' then Some []
      else if k > 0 \<and> (r = ''%'' \<or> r = ''.'' \<or> r = ''..'') then Some (replicate (k - 1) BSL @ r)
      else None)"
  by (simp add: unescBegin_def takeWhile_bsl_replicate Let_def)

lemma replicate_bsl_neq: "c \<noteq> BSL \<Longrightarrow> replicate n BSL \<noteq> [c]"
  by (cases n) auto

lemma replicate_append_single: "replicate k BSL @ x # u = [c] \<longleftrightarrow> k = 0 \<and> x = c \<and> u = []"
  by (cases k) auto

lemma strncmp_one: "l \<noteq> [] \<Longrightarrow> strncmp [x] (l @ rest) (length l) = 0 \<longleftrightarrow> l = [x]"
  by (cases l) (auto simp: strncmp_0_iff)

lemma strncmp_bsl:
  "strncmp (BSL # x) (BSL # r @ rest) (Suc (length r)) = 0 \<longleftrightarrow> take (length r) x = r"
  by (auto simp: strncmp_0_iff)

lemma strncmp_hd: "l \<noteq> [] \<Longrightarrow> hd l \<noteq> c \<Longrightarrow> strncmp (c # x) (l @ rest) (length l) \<noteq> 0"
  by (cases l) (auto simp: strncmp_0_iff)

lemma take_eq_two: "length r > 1 \<Longrightarrow> take (length r) [x, y] = r \<longleftrightarrow> r = [x, y]"
  by (cases r; cases "tl r") auto

lemma take_eq_one: "r \<noteq> [] \<Longrightarrow> take (length r) [x] = r \<longleftrightarrow> r = [x]"
  by (cases r) auto

text \<open>The code looks only at the level, whatever follows it.\<close>

lemma elektraUnescapeKeyNamePartBegin_eq:
  assumes ne: "l \<noteq> []" and rest: "rest = [] \<or> hd rest = SLASH"
  shows "elektraUnescapeKeyNamePartBegin (l @ rest) (length l) = unescBegin l"
proof -
  obtain k r where l: "l = replicate k BSL @ r" and r: "r = [] \<or> hd r \<noteq> BSL"
    by (rule bsl_split [of l])
  have r': "r @ rest = [] \<or> hd (r @ rest) \<noteq> BSL" using r rest by (cases r) auto
  have tw: "length (takeWhile (\<lambda>c. c = BSL) (l @ rest)) = k"
    using takeWhile_bsl_replicate [OF r', of k] by (simp add: l)
  show ?thesis
  proof (cases k)
    case 0
    with ne r have hd: "l \<noteq> []" "hd l \<noteq> BSL" by (auto simp: l)
    then show ?thesis
      using tw 0 r unescBegin_replicate [of r 0]
      by (simp add: elektraUnescapeKeyNamePartBegin_def strncmp_one strncmp_hd l Let_def)
  next
    case (Suc j)
    have len: "length l = Suc (j + length r)" using l Suc by simp
    have "l = replicate j BSL @ BSL # r" by (simp add: l Suc replicate_app_Cons_same)
    then have dr: "drop j l = BSL # r" by simp
    have lne: "l \<noteq> ''%''" using Suc by (simp add: l)
    have ne0: "strncmp ''%'' (l @ rest) (Suc (j + length r)) \<noteq> 0"
      using strncmp_one [OF ne] lne by (simp add: len)
    have ub: "unescBegin l = (if r = ''%'' \<or> r = ''.'' \<or> r = ''..'' then Some (replicate j BSL @ r) else None)"
      using unescBegin_replicate [OF r, of k] lne by (simp add: l Suc)
    have "elektraUnescapeKeyNamePartBegin (l @ rest) (length l) =
       (if r = [] then None
        else if take (length r) ''%'' = r then Some (replicate j BSL @ ''%'')
        else if take (length r) ''.'' = r then Some (replicate j BSL @ ''.'')
        else if length r \<le> 1 then None
        else if take (length r) ''..'' = r then Some (replicate j BSL @ ''..'') else None)"
      unfolding elektraUnescapeKeyNamePartBegin_def tw Suc
      by (simp add: ne0 len dr strncmp_bsl Let_def)
    also have "\<dots> = (if r = [] then None
        else if r = ''%'' then Some (replicate j BSL @ ''%'')
        else if r = ''.'' then Some (replicate j BSL @ ''.'')
        else if length r \<le> 1 then None
        else if r = ''..'' then Some (replicate j BSL @ ''..'') else None)"
      by (cases "r = []") (simp_all add: take_eq_one take_eq_two)
    finally have "elektraUnescapeKeyNamePartBegin (l @ rest) (length l) = \<dots>" .
    then show ?thesis unfolding ub by auto
  qed
qed

text \<open>Unescaping a name is unescaping its levels, each closed by a null byte.\<close>

lemma unescapeNameLoop_levels:
  "unescapeNameLoop s = concat (map (\<lambda>l. unescPart l @ [NUL]) (levels s))"
proof (induction s rule: levels.induct)
  case (1 s)
  obtain p sz where o: "keyNameGetOneLevel s = (p, sz)" by fastforce
  show ?case
  proof (cases "p = []")
    case True
    then show ?thesis by (subst unescapeNameLoop.simps, subst levels.simps) (simp add: o)
  next
    case False
    have pos: "0 < sz" using o False by (rule keyNameGetOneLevel_size_pos)
    have szp: "sz = lvlen p 0" using o by (auto simp: keyNameGetOneLevel_eq)
    have le: "sz \<le> length p" by (simp add: szp lvlen_le)
    have rest: "drop sz p = [] \<or> hd (drop sz p) = SLASH"
      using lvlen_drop [of p 0] le by (cases "sz < length p") (auto simp: szp)
    have "elektraUnescapeKeyNamePartBegin (take sz p @ drop sz p) (length (take sz p)) = unescBegin (take sz p)"
      using False pos rest by (intro elektraUnescapeKeyNamePartBegin_eq) auto
    then have b: "elektraUnescapeKeyNamePartBegin p sz = unescBegin (take sz p)"
      using le by simp
    have IH: "unescapeNameLoop (drop sz p) = concat (map (\<lambda>l. unescPart l @ [NUL]) (levels (drop sz p)))"
      using "1.IH" [OF o [symmetric] False] .
    show ?thesis
      using False by (subst unescapeNameLoop.simps, subst levels.simps)
        (simp add: o b IH unescPart_def elektraUnescapeKeyNamePart_def split: option.split)
  qed
qed

section \<open>Round trip of one part\<close>

lemma unescapeLoop_replicate: "unescapeLoop (replicate n BSL @ s) c = unescapeLoop s (c + n)"
  by (induction n arbitrary: c) auto

lemma unescape_escape_loop: "unescapeLoop (escapeLoop s c) c = replicate c BSL @ s"
proof (induction s c rule: escapeLoop.induct)
  case (1 c)
  then show ?case using unescapeLoop_replicate [of c "[]" c] by simp
next
  case (2 x s c)
  show ?case
  proof (cases "x = BSL \<or> x \<noteq> SLASH")
    case True
    then show ?thesis using 2 by (auto simp: replicate_app_Cons_same)
  next
    case False
    then have "unescapeLoop (escapeLoop (x # s) c) c = unescapeLoop (SLASH # escapeLoop s 0) (Suc c + c)"
      using unescapeLoop_replicate [of c "SLASH # escapeLoop s 0" "Suc c"] by simp
    then show ?thesis using 2 False by simp
  qed
qed

lemma escapeLoop_replicate: "escapeLoop (replicate n BSL @ s) c = replicate n BSL @ escapeLoop s (c + n)"
  by (induction n arbitrary: c) (auto simp: replicate_app_Cons_same)

lemma lvlen_replicate: "lvlen (replicate n BSL @ s) e = n + lvlen s (e + n)"
  by (induction n arbitrary: e) auto

lemma escst_replicate: "escst (replicate n BSL @ s) e = escst s (e + n)"
  by (induction n arbitrary: e) auto

lemma escapeLoop_level:
  "lvlen (escapeLoop s c) c = length (escapeLoop s c) \<and> even (escst (escapeLoop s c) c)"
proof (induction s c rule: escapeLoop.induct)
  case (1 c)
  then show ?case using lvlen_replicate [of c "[]" c] escst_replicate [of c "[]" c] by simp
next
  case (2 x s c)
  then show ?case by (auto simp: lvlen_replicate escst_replicate)
qed

lemma escapeLoop_hd: "s \<noteq> [] \<Longrightarrow> escapeLoop s c \<noteq> [] \<and> hd (escapeLoop s c) \<noteq> SLASH"
  by (cases s) simp_all

lemma elektraEscapeKeyNamePart_cases:
  obtains (empty) "s = []" "elektraEscapeKeyNamePart s = ''%''"
  | (special) k r where "s = replicate k BSL @ r" "r = ''%'' \<or> r = ''.'' \<or> r = ''..''"
      "elektraEscapeKeyNamePart s = replicate (Suc k) BSL @ r"
  | (plain) k r where "s = replicate k BSL @ r" "r = [] \<or> hd r \<noteq> BSL" "s \<noteq> []"
      "r \<noteq> ''%''" "r \<noteq> ''.''" "r \<noteq> ''..''" "elektraEscapeKeyNamePart s = escapeLoop s 0"
proof -
  obtain k r where s: "s = replicate k BSL @ r" and r: "r = [] \<or> hd r \<noteq> BSL"
    by (rule bsl_split [of s])
  have tw: "takeWhile (\<lambda>c. c = BSL) s = replicate k BSL" using takeWhile_bsl_replicate [OF r] by (simp add: s)
  consider "s = []" | "s \<noteq> []" "r = ''%'' \<or> r = ''.'' \<or> r = ''..''"
    | "s \<noteq> []" "\<not> (r = ''%'' \<or> r = ''.'' \<or> r = ''..'')" by blast
  then show thesis
  proof cases
    case 1
    then show thesis by (intro empty) (simp_all add: elektraEscapeKeyNamePart_def elektraEscapeKeyNamePartBegin_def)
  next
    case 2
    then have "elektraEscapeKeyNamePart s = replicate (Suc k) BSL @ r"
      using tw s by (auto simp: elektraEscapeKeyNamePart_def elektraEscapeKeyNamePartBegin_def Let_def
          replicate_app_Cons_same)
    then show thesis using special [OF s] 2 by blast
  next
    case 3
    then have "elektraEscapeKeyNamePart s = escapeLoop s 0"
      using tw s by (auto simp: elektraEscapeKeyNamePart_def elektraEscapeKeyNamePartBegin_def Let_def)
    then show thesis using plain [OF s r] 3 by blast
  qed
qed

lemma one_level_escape: "one_level (elektraEscapeKeyNamePart s)"
proof (cases s rule: elektraEscapeKeyNamePart_cases)
  case empty
  then show ?thesis by (simp add: one_level_def)
next
  case (special k r)
  then show ?thesis
    using lvlen_replicate [of "Suc k" r 0] escst_replicate [of "Suc k" r 0]
    by (auto simp: one_level_def)
next
  case (plain k r)
  then have "escapeLoop s 0 \<noteq> [] \<and> hd (escapeLoop s 0) \<noteq> SLASH"
    using escapeLoop_hd [of s 0] by blast
  then show ?thesis using escapeLoop_level [of s 0] plain by (simp add: one_level_def)
qed

lemma unescPart_escape [simp]: "unescPart (elektraEscapeKeyNamePart s) = s"
proof (cases s rule: elektraEscapeKeyNamePart_cases)
  case empty
  then show ?thesis by (simp add: unescPart_def unescBegin_def)
next
  case (special k r)
  then have "unescBegin (replicate (Suc k) BSL @ r) = Some (replicate k BSL @ r)"
    using unescBegin_replicate [of r "Suc k"] by auto
  then show ?thesis using special by (simp add: unescPart_def)
next
  case (plain k r)
  have "unescBegin (escapeLoop s 0) = None"
  proof (cases "r = []")
    case True
    then have "escapeLoop s 0 = replicate (k + k) BSL"
      using plain escapeLoop_replicate [of k "[]" 0] by (simp add: replicate_add)
    then show ?thesis using unescBegin_replicate [of "[]" "k + k"] replicate_bsl_neq by simp
  next
    case False
    then obtain x t where xt: "r = x # t" "x \<noteq> BSL" using plain by (cases r) auto
    have e: "escapeLoop s 0 = replicate k BSL @ escapeLoop r k"
      using plain escapeLoop_replicate [of k r 0] by simp
    show ?thesis
    proof (cases "x = SLASH")
      case True
      then have "escapeLoop s 0 = replicate (k + 1 + k) BSL @ SLASH # escapeLoop t 0"
        using e xt by (simp add: replicate_add replicate_app_Cons_same)
      then show ?thesis using unescBegin_replicate [of "SLASH # escapeLoop t 0" "k + 1 + k"] by simp
    next
      case False
      have el: "escapeLoop t 0 = [] \<longleftrightarrow> t = []" by (cases t) auto
      have e1: "escapeLoop t 0 = ''.'' \<longleftrightarrow> t = ''.''"
        by (cases t; cases "tl t") auto
      have "escapeLoop s 0 = replicate k BSL @ x # escapeLoop t 0" using e xt False by simp
      then show ?thesis
        using unescBegin_replicate [of "x # escapeLoop t 0" k] plain xt el e1
        by (auto simp: replicate_append_single)
    qed
  qed
  then show ?thesis using plain unescape_escape_loop [of s 0] by (simp add: unescPart_def)
qed

end
