(* ===== verification/KeyData.thy ===== *)
theory KeyData
  imports EscapingFacts
begin

text \<open>
  The data model of \<open>src/include/kdbprivate.h\<close>: \<open>struct _Key\<close>, \<open>struct _KeySet\<close>, their
  flags, the namespaces of key names, and the memory that holds keys.

  Keys are shared: keysets hold pointers to them, and so does the metadata of other keys. They live
  in a memory \<open>mem\<close> that maps addresses to keys; a freed key is \<open>None\<close>. A keyset has one
  owner (a caller, or the one key whose metadata it is), so keysets are values that the
  operations return updated. Allocation never fails in the model, so the out-of-memory
  branches of the code are not taken.

  \<open>key->key\<close> points to one buffer with the escaped name, its null byte, and the unescaped
  name of \<open>keyUSize\<close> bytes; the record holds the two parts in \<open>key\<close> and \<open>uname\<close>.
  The slots of a keyset's array that were never written are \<open>Junk\<close>.
\<close>

section \<open>Types and constants\<close>

type_synonym addr = nat

datatype slot = Junk | Null | Ptr addr

record KeySet =
  array :: "slot list option"
  ks_size :: nat
  alloc :: nat
  cursor :: "addr option"
  current :: nat
  ks_flags :: flags_t

record Key =
  data :: "string option"
  dataSize :: nat
  key :: "string option"
  uname :: string
  keySize :: nat
  keyUSize :: nat
  flags :: flags_t
  ksReference :: nat
  meta :: "KeySet option"

record mem =
  keys :: "addr \<Rightarrow> Key option"
  fresh :: addr

abbreviation KEY_FLAG_SYNC :: flags_t where "KEY_FLAG_SYNC \<equiv> 1"
abbreviation KEY_FLAG_RO_NAME :: flags_t where "KEY_FLAG_RO_NAME \<equiv> 2"
abbreviation KEY_FLAG_RO_VALUE :: flags_t where "KEY_FLAG_RO_VALUE \<equiv> 4"
abbreviation KEY_FLAG_RO_META :: flags_t where "KEY_FLAG_RO_META \<equiv> 8"

abbreviation KS_FLAG_SYNC :: flags_t where "KS_FLAG_SYNC \<equiv> 1"

abbreviation KEY_CASCADING_NAME :: flags_t where "KEY_CASCADING_NAME \<equiv> 0x100000"
abbreviation KEY_META_NAME :: flags_t where "KEY_META_NAME \<equiv> 0x200000"
abbreviation KEY_EMPTY_NAME :: flags_t where "KEY_EMPTY_NAME \<equiv> 0x400000"

abbreviation KEY_LOCK_NAME :: flags_t where "KEY_LOCK_NAME \<equiv> 0x20000"
abbreviation KEY_LOCK_VALUE :: flags_t where "KEY_LOCK_VALUE \<equiv> 0x40000"
abbreviation KEY_LOCK_META :: flags_t where "KEY_LOCK_META \<equiv> 0x80000"

abbreviation KDB_O_DEL :: flags_t where "KDB_O_DEL \<equiv> 0x1"
abbreviation KDB_O_POP :: flags_t where "KDB_O_POP \<equiv> 0x2"
abbreviation KDB_O_NOCASE :: flags_t where "KDB_O_NOCASE \<equiv> 0x1000"
abbreviation KDB_O_WITHOWNER :: flags_t where "KDB_O_WITHOWNER \<equiv> 0x2000"
abbreviation KDB_O_NOALL :: flags_t where "KDB_O_NOALL \<equiv> 0x4000"
abbreviation KDB_O_SPEC :: flags_t where "KDB_O_SPEC \<equiv> 0x8000"
abbreviation KDB_O_CREATE :: flags_t where "KDB_O_CREATE \<equiv> 0x10000"
abbreviation KDB_O_NOCASCADING :: flags_t where "KDB_O_NOCASCADING \<equiv> 0x20000"
abbreviation KDB_O_NOSPEC :: flags_t where "KDB_O_NOSPEC \<equiv> 0x40000"
abbreviation KDB_O_NODEFAULT :: flags_t where "KDB_O_NODEFAULT \<equiv> 0x80000"
abbreviation KDB_O_CALLBACK :: flags_t where "KDB_O_CALLBACK \<equiv> 0x100000"

definition KEYSET_SIZE :: nat where
  "KEYSET_SIZE = 16"

definition SSIZE_MAX :: nat where
  "SSIZE_MAX = 2 ^ 63 - 1"

section \<open>Namespaces (keyname.c, keyhelpers.c)\<close>

datatype elektraNamespace =
  KEY_NS_NONE | KEY_NS_EMPTY | KEY_NS_META | KEY_NS_CASCADING | KEY_NS_SPEC | KEY_NS_PROC
| KEY_NS_DIR | KEY_NS_USER | KEY_NS_SYSTEM

text \<open>The namespaces from \<open>KEY_NS_FIRST\<close> to \<open>KEY_NS_LAST\<close>, in the order of the loops.\<close>

definition namespaces :: "elektraNamespace list" where
  "namespaces = [KEY_NS_SPEC, KEY_NS_PROC, KEY_NS_DIR, KEY_NS_USER, KEY_NS_SYSTEM]"

definition keyNameIsSpec :: "string \<Rightarrow> bool" where
  "keyNameIsSpec name \<longleftrightarrow> strcmp ''spec'' name = 0 \<or> strncmp ''spec/'' name 5 = 0"

definition keyNameIsProc :: "string \<Rightarrow> bool" where
  "keyNameIsProc name \<longleftrightarrow> strcmp ''proc'' name = 0 \<or> strncmp ''proc/'' name 5 = 0"

definition keyNameIsDir :: "string \<Rightarrow> bool" where
  "keyNameIsDir name \<longleftrightarrow> strcmp ''dir'' name = 0 \<or> strncmp ''dir/'' name 4 = 0"

definition keyNameIsUser :: "string \<Rightarrow> bool" where
  "keyNameIsUser name \<longleftrightarrow>
     strcmp ''user'' name = 0 \<or> strncmp ''user/'' name 5 = 0 \<or> strncmp ''user:'' name 5 = 0"

definition keyNameIsSystem :: "string \<Rightarrow> bool" where
  "keyNameIsSystem name \<longleftrightarrow> strcmp ''system'' name = 0 \<or> strncmp ''system/'' name 7 = 0"

definition keyGetNameNamespace :: "string option \<Rightarrow> elektraNamespace" where
  "keyGetNameNamespace name =
     (case name of
        None \<Rightarrow> KEY_NS_EMPTY
      | Some n \<Rightarrow>
          if strcmp n [] = 0 then KEY_NS_EMPTY
          else if hd n = SLASH then KEY_NS_CASCADING
          else if keyNameIsSpec n then KEY_NS_SPEC
          else if keyNameIsProc n then KEY_NS_PROC
          else if keyNameIsDir n then KEY_NS_DIR
          else if keyNameIsUser n then KEY_NS_USER
          else if keyNameIsSystem n then KEY_NS_SYSTEM
          else KEY_NS_META)"

section \<open>Fresh keys and keysets\<close>

text \<open>\<open>keyInit\<close>: all bytes of the struct are set to zero.\<close>

definition keyInit :: Key where
  "keyInit = \<lparr>data = None, dataSize = 0, key = None, uname = [], keySize = 0, keyUSize = 0,
     flags = 0, ksReference = 0, meta = None\<rparr>"

text \<open>\<open>elektraKeyMalloc\<close>: a fresh address holds an initialised key.\<close>

definition elektraKeyMalloc :: "mem \<Rightarrow> addr \<times> mem" where
  "elektraKeyMalloc m =
     (fresh m, m\<lparr>keys := (keys m)(fresh m \<mapsto> keyInit), fresh := Suc (fresh m)\<rparr>)"

definition storeKey :: "mem \<Rightarrow> addr \<Rightarrow> Key \<Rightarrow> mem" where
  "storeKey m a k = m\<lparr>keys := (keys m)(a \<mapsto> k)\<rparr>"

definition freeKey :: "mem \<Rightarrow> addr \<Rightarrow> mem" where
  "freeKey m a = m\<lparr>keys := (keys m)(a := None)\<rparr>"

lemma keys_storeKey [simp]: "keys (storeKey m a k) = (keys m)(a \<mapsto> k)"
  by (simp add: storeKey_def)

lemma fresh_storeKey [simp]: "fresh (storeKey m a k) = fresh m"
  by (simp add: storeKey_def)

lemma keys_freeKey [simp]: "keys (freeKey m a) = (keys m)(a := None)"
  by (simp add: freeKey_def)

lemma fresh_freeKey [simp]: "fresh (freeKey m a) = fresh m"
  by (simp add: freeKey_def)

lemma storeKey_storeKey [simp]: "storeKey (storeKey m a k) a k' = storeKey m a k'"
  by (simp add: storeKey_def)

lemma storeKey_id [simp]: "keys m a = Some k \<Longrightarrow> storeKey m a k = m"
  by (simp add: storeKey_def map_upd_triv)

text \<open>The memory before any allocation.\<close>

definition mem0 :: mem where
  "mem0 = \<lparr>keys = Map.empty, fresh = 0\<rparr>"

section \<open>Reference counting (key.c)\<close>

definition keyIncRef :: "Key option \<Rightarrow> int \<times> Key option" where
  "keyIncRef k = (case k of None \<Rightarrow> (-1, None)
     | Some k \<Rightarrow>
         if ksReference k < SSIZE_MAX
         then (int (ksReference k + 1), Some (k\<lparr>ksReference := ksReference k + 1\<rparr>))
         else (int SSIZE_MAX, Some k))"

definition keyDecRef :: "Key option \<Rightarrow> int \<times> Key option" where
  "keyDecRef k = (case k of None \<Rightarrow> (-1, None)
     | Some k \<Rightarrow>
         if ksReference k > 0
         then (int (ksReference k - 1), Some (k\<lparr>ksReference := ksReference k - 1\<rparr>))
         else (0, Some k))"

definition keyGetRef :: "Key option \<Rightarrow> int" where
  "keyGetRef k = (case k of None \<Rightarrow> -1 | Some k \<Rightarrow> int (ksReference k))"

section \<open>Synchronisation flags and locks (keytest.c, proposal.c)\<close>

definition keyClearSync :: "Key option \<Rightarrow> int \<times> Key option" where
  "keyClearSync k = (case k of None \<Rightarrow> (-1, None)
     | Some k \<Rightarrow> let semiflag = NOT KEY_FLAG_SYNC; f = flags k AND semiflag
                in (sint f, Some (k\<lparr>flags := f\<rparr>)))"

definition keyNeedSync :: "Key option \<Rightarrow> int" where
  "keyNeedSync k = (case k of None \<Rightarrow> -1
     | Some k \<Rightarrow> if flags k AND KEY_FLAG_SYNC = KEY_FLAG_SYNC then 1 else 0)"

text \<open>One lock of \<open>elektraKeyLock\<close>: the flag to set, unless it is set, and the bit reported.\<close>

definition lockOne :: "flags_t \<Rightarrow> flags_t \<Rightarrow> flags_t \<Rightarrow> Key \<times> flags_t \<Rightarrow> Key \<times> flags_t" where
  "lockOne what lock roflag s = (case s of (k, ret) \<Rightarrow>
     if test_bit what lock \<and> \<not> test_bit (flags k) roflag
     then (k\<lparr>flags := set_bit_flag (flags k) roflag\<rparr>, set_bit_flag ret lock)
     else (k, ret))"

definition elektraKeyLock :: "Key option \<Rightarrow> flags_t \<Rightarrow> int \<times> Key option" where
  "elektraKeyLock k what = (case k of None \<Rightarrow> (-1, None)
     | Some k \<Rightarrow>
        (case lockOne what KEY_LOCK_META KEY_FLAG_RO_META
               (lockOne what KEY_LOCK_VALUE KEY_FLAG_RO_VALUE
                 (lockOne what KEY_LOCK_NAME KEY_FLAG_RO_NAME (k, 0)))
         of (k', ret) \<Rightarrow> (sint ret, Some k')))"

lemma lockOne_fields:
  assumes "lockOne what lock ro (k, r) = (k', r')"
  shows "key k' = key k" "uname k' = uname k" "keySize k' = keySize k" "keyUSize k' = keyUSize k"
    "ksReference k' = ksReference k" "meta k' = meta k" "data k' = data k" "dataSize k' = dataSize k"
  using assms by (auto simp: lockOne_def split: if_splits)

end
