(* ===== verification/KeyName.thy ===== *)
theory KeyName
  imports KeyData
begin

text \<open>
  \<open>src/libs/elektra/keyname.c\<close>: reading the name of a key, setting it, adding to it and
  changing its base name. A \<open>Key *\<close> argument is a \<open>Key option\<close> (\<open>None\<close> for \<open>NULL\<close>); the
  operations return the C result and the changed key.

  The loops \<open>while (*(p = keyNameGetOneLevel (p + size, &size)))\<close> run over \<open>levels name\<close>.
\<close>

section \<open>Reading the name\<close>

definition keyName :: "Key option \<Rightarrow> string option" where
  "keyName k = (case k of None \<Rightarrow> None
     | Some k \<Rightarrow> (case key k of None \<Rightarrow> Some [] | Some n \<Rightarrow> Some n))"

definition keyGetNameSize :: "Key option \<Rightarrow> int" where
  "keyGetNameSize k = (case k of None \<Rightarrow> -1
     | Some k \<Rightarrow> (case key k of None \<Rightarrow> 1 | Some _ \<Rightarrow> int (keySize k)))"

definition keyUnescapedName :: "Key option \<Rightarrow> string option" where
  "keyUnescapedName k = (case k of None \<Rightarrow> None
     | Some k \<Rightarrow> (case key k of None \<Rightarrow> Some [NUL] | Some _ \<Rightarrow> Some (uname k)))"

definition keyGetUnescapedNameSize :: "Key option \<Rightarrow> int" where
  "keyGetUnescapedNameSize k = (case k of None \<Rightarrow> -1
     | Some k \<Rightarrow> (case key k of None \<Rightarrow> 0 | Some _ \<Rightarrow> int (keyUSize k)))"

text \<open>
  The caller's buffer is \<open>returnedName\<close> (\<open>NULL\<close> or not); the second result is what was
  written to it, as a C string.
\<close>

definition keyGetName :: "Key option \<Rightarrow> bool \<Rightarrow> nat \<Rightarrow> int \<times> string option" where
  "keyGetName k returnedName maxSize = (case k of None \<Rightarrow> (-1, None)
     | Some k \<Rightarrow>
         if \<not> returnedName then (-1, None)
         else if maxSize = 0 then (-1, None)
         else if maxSize > SSIZE_MAX then (-1, None)
         else (case key k of
             None \<Rightarrow> (1, Some [])
           | Some n \<Rightarrow> if keySize k > maxSize then (-1, None)
                       else (int (keySize k), Some (take maxSize n))))"

section \<open>Finalising and removing a name\<close>

definition elektraFinalizeName :: "Key \<Rightarrow> int \<times> Key" where
  "elektraFinalizeName k =
     (let n = (case key k of None \<Rightarrow> [] | Some b \<Rightarrow> take (keySize k - 1) b);
          u = elektraUnescapeKeyName n
      in (int (keySize k),
          k\<lparr>key := Some n, uname := u, keyUSize := length u, flags := flags k OR KEY_FLAG_SYNC\<rparr>))"

definition elektraFinalizeEmptyName :: "Key \<Rightarrow> int \<times> Key" where
  "elektraFinalizeEmptyName k =
     (1, k\<lparr>key := Some [], uname := [NUL], keySize := 1, keyUSize := 1,
           flags := flags k OR KEY_FLAG_SYNC\<rparr>)"

definition elektraRemoveKeyName :: "Key \<Rightarrow> Key" where
  "elektraRemoveKeyName k = k\<lparr>key := None, uname := [], keySize := 0, keyUSize := 0\<rparr>"

text \<open>
  \<open>elektraHandleUserName\<close>: the second result is the owner it stores with
  \<open>keySetOwner\<close>, if the name has one.
\<close>

definition elektraHandleUserName :: "Key \<Rightarrow> string \<Rightarrow> Key \<times> string option" where
  "elektraHandleUserName k newName =
     (let userLength = 5;
          k1 = k\<lparr>keyUSize := userLength, keySize := userLength\<rparr>;
          delim = (newName @ [NUL]) ! (userLength - 1)
      in if delim = SLASH \<or> delim = NUL then (k1, None)
         else let sz = snd (keyNameGetOneLevel newName);
                  ownerLength = sz - userLength
              in (k1\<lparr>keyUSize := sz + 1\<rparr>, Some (take ownerLength (drop userLength newName))))"

definition elektraOnlySlashes :: "string \<Rightarrow> bool" where
  "elektraOnlySlashes name \<longleftrightarrow> (\<forall>i \<in> {0..<length name}. name ! i = SLASH)"

section \<open>Adding to the name\<close>

text \<open>
  \<open>elektraRemoveOneLevel\<close> on the bytes of the name written so far (\<open>keySize\<close> of them), and
  the flag \<open>avoidSlash\<close>.
\<close>

definition elektraRemoveOneLevel :: "string \<Rightarrow> bool \<Rightarrow> string \<times> bool" where
  "elektraRemoveOneLevel n avoidSlash =
     (let ls = levels n;
          sizeOfLastLevel = (if ls = [] then 0 else length (last ls))
      in if length ls > 1 then (take (length n - (sizeOfLastLevel + 1)) n, avoidSlash)
         else if n \<noteq> [] \<and> hd n = SLASH then (take 1 n, True)
         else (n, avoidSlash))"

text \<open>One iteration of the loop of \<open>keyAddName\<close> for the level \<open>p\<close>.\<close>

definition addLevel :: "string \<times> bool \<Rightarrow> string \<Rightarrow> string \<times> bool" where
  "addLevel s p = (case s of (n, avoidSlash) \<Rightarrow>
     if length p = 1 \<and> strncmp p ''.'' 1 = 0 then (n, avoidSlash)
     else if length p = 2 \<and> strncmp p ''..'' 2 = 0 then elektraRemoveOneLevel n avoidSlash
     else if \<not> avoidSlash then (n @ [SLASH] @ p, avoidSlash)
     else (n @ p, False))"

definition keyAddName :: "Key option \<Rightarrow> string option \<Rightarrow> int \<times> Key option" where
  "keyAddName k newName = (case k of None \<Rightarrow> (-1, None)
     | Some k \<Rightarrow>
        if test_bit (flags k) KEY_FLAG_RO_NAME then (-1, Some k)
        else (case key k of None \<Rightarrow> (-1, Some k)
        | Some kn \<Rightarrow>
          if strcmp kn [] = 0 then (-1, Some k)
          else (case newName of None \<Rightarrow> (0, Some k)
          | Some new \<Rightarrow>
            let nameSize = elektraStrLen new in
            if nameSize < 2 then (0, Some k)
            else if \<not> elektraValidateKeyName new nameSize then (-1, Some k)
            else let origSize = keySize k;
                     avoidSlash = (hd kn = SLASH \<and> keySize k = 2);
                     (n, _) = foldl addLevel (take (keySize k - 1) kn, avoidSlash) (levels new);
                     (_, k') = elektraFinalizeName (k\<lparr>key := Some n, keySize := length n + 1\<rparr>)
                 in (if origSize = keySize k' then 0 else int (keySize k'), Some k'))))"

section \<open>Setting the name\<close>

text \<open>
  \<open>elektraKeySetName\<close> without its calls of \<open>keySetOwner\<close>: the last result is the owner that
  the name carries. (The full operation is \<open>elektraKeySetName\<close> of \<open>KeyMeta\<close>, which clears and
  sets the metadata \<open>owner\<close> as well.) The flag says whether the C function went past its two
  guards.
\<close>

definition setNameRoot :: "Key \<Rightarrow> string \<Rightarrow> flags_t \<Rightarrow> (Key \<times> string option) option" where
  "setNameRoot k n options =
     (case keyGetNameNamespace (Some n) of
        KEY_NS_CASCADING \<Rightarrow> Some (k\<lparr>keyUSize := 1, keySize := 2\<rparr>, None)
      | KEY_NS_SPEC \<Rightarrow> Some (k\<lparr>keyUSize := 5, keySize := 5\<rparr>, None)
      | KEY_NS_PROC \<Rightarrow> Some (k\<lparr>keyUSize := 5, keySize := 5\<rparr>, None)
      | KEY_NS_DIR \<Rightarrow> Some (k\<lparr>keyUSize := 4, keySize := 4\<rparr>, None)
      | KEY_NS_USER \<Rightarrow> Some (elektraHandleUserName k n)
      | KEY_NS_SYSTEM \<Rightarrow> Some (k\<lparr>keyUSize := 7, keySize := 7\<rparr>, None)
      | KEY_NS_META \<Rightarrow>
          if options AND KEY_META_NAME = 0 then None
          else let sz = snd (keyNameGetOneLevel n) + 1
               in Some (k\<lparr>keySize := sz, keyUSize := sz\<rparr>, None)
      | _ \<Rightarrow> None)"

definition setNameCore :: "Key \<Rightarrow> string option \<Rightarrow> flags_t \<Rightarrow> int \<times> Key \<times> string option" where
  "setNameCore k newName options =
     (let k0 = elektraRemoveKeyName k in
      case newName of
        None \<Rightarrow> (0, snd (elektraFinalizeEmptyName k0), None)
      | Some n \<Rightarrow>
        if keyGetNameNamespace newName = KEY_NS_EMPTY then (0, snd (elektraFinalizeEmptyName k0), None)
        else (case setNameRoot k0 n options of
            None \<Rightarrow> (-1, k0, None)
          | Some (k1, owner) \<Rightarrow>
            let len = elektraStrLen n;
                k2 = k1\<lparr>key := Some (take (keySize k1) n)\<rparr>
            in if len = keyUSize k2 \<or> len = keySize k2
               then (let (_, k3) = elektraFinalizeName k2 in (int (keyUSize k3), k3, owner))
               else if elektraOnlySlashes (drop (keyUSize k2 - 1) n)
               then (let (_, k3) = elektraFinalizeName k2 in (int (keySize k3), k3, owner))
               else
                 (let k3 = k2\<lparr>key := Some (take (keySize k2 - 1) n)\<rparr>;
                      (ret, k4) = keyAddName (Some k3) (Some (drop (keyUSize k2) n))
                  in case k4 of
                       None \<Rightarrow> (ret, k3, owner)
                     | Some k5 \<Rightarrow>
                         if ret = -1 then (-1, elektraRemoveKeyName k5, owner)
                         else (int (keySize k5), k5, owner))))"

section \<open>The base name\<close>

text \<open>The bytes \<open>key->key\<close> points to.\<close>

definition keyBuf :: "Key \<Rightarrow> string" where
  "keyBuf k = (case key k of None \<Rightarrow> [] | Some n \<Rightarrow> n @ NUL # uname k)"

text \<open>\<open>while (*(--p)) base = p;\<close> with \<open>p\<close> an index into the buffer.\<close>

fun baseNameLoop :: "string \<Rightarrow> nat \<Rightarrow> nat \<Rightarrow> nat" where
  "baseNameLoop buf 0 base = base"
| "baseNameLoop buf (Suc p) base = (if buf ! p \<noteq> NUL then baseNameLoop buf p p else base)"

definition keyBaseName :: "Key option \<Rightarrow> string option" where
  "keyBaseName k = (case k of None \<Rightarrow> None
     | Some k \<Rightarrow> (case key k of None \<Rightarrow> Some []
       | Some n \<Rightarrow>
          let p = keySize k + keyUSize k - 1;
              base = baseNameLoop (keyBuf k) p p
          in if base \<noteq> keyUSize k then Some (upto_nul (drop base (keyBuf k))) else Some []))"

definition keyGetBaseNameSize :: "Key option \<Rightarrow> int" where
  "keyGetBaseNameSize k = (case keyBaseName k of None \<Rightarrow> -1 | Some b \<Rightarrow> int (elektraStrLen b))"

definition keyGetBaseName :: "Key option \<Rightarrow> bool \<Rightarrow> nat \<Rightarrow> int \<times> string option" where
  "keyGetBaseName k returned maxSize = (case k of None \<Rightarrow> (-1, None)
     | Some kk \<Rightarrow>
         if \<not> returned then (-1, None)
         else if maxSize = 0 then (-1, None)
         else if maxSize > SSIZE_MAX then (-1, None)
         else (case key kk of
             None \<Rightarrow> (1, Some [])
           | Some _ \<Rightarrow>
              let baseSize = keyGetBaseNameSize k in
              if int maxSize < baseSize then (-1, None)
              else (case keyBaseName k of None \<Rightarrow> (-1, None)
                    | Some b \<Rightarrow> (baseSize, Some (take (nat baseSize) b)))))"

definition keyAddBaseName :: "Key option \<Rightarrow> string option \<Rightarrow> int \<times> Key option" where
  "keyAddBaseName k baseName = (case k of None \<Rightarrow> (-1, None)
     | Some k \<Rightarrow> (case baseName of None \<Rightarrow> (int (keySize k), Some k)
       | Some b \<Rightarrow>
          if test_bit (flags k) KEY_FLAG_RO_NAME then (-1, Some k)
          else (case key k of None \<Rightarrow> (-1, Some k)
            | Some n \<Rightarrow>
              let escaped = elektraEscapeKeyNamePart b;
                  len = length escaped;
                  k1 = (if strcmp n ''/'' = 0 then k\<lparr>keySize := keySize k + len\<rparr>
                        else k\<lparr>keySize := keySize k + len + 1\<rparr>);
                  n1 = (if strcmp n ''/'' \<noteq> 0 then take (keySize k1 - len - 2) n @ [SLASH]
                        else take (keySize k1 - len - 1) n);
                  (_, k2) = elektraFinalizeName (k1\<lparr>key := Some (n1 @ escaped)\<rparr>)
              in (int (keySize k2), Some k2))))"

definition keySetBaseName :: "Key option \<Rightarrow> string option \<Rightarrow> int \<times> Key option" where
  "keySetBaseName k baseName = (case k of None \<Rightarrow> (-1, None)
     | Some k \<Rightarrow>
        if test_bit (flags k) KEY_FLAG_RO_NAME then (-1, Some k)
        else (case key k of None \<Rightarrow> (-1, Some k)
          | Some n \<Rightarrow>
            let ls = levels n in
            if ls = [] \<or> (length ls = 1 \<and> hd n \<noteq> SLASH) then (-1, Some k)
            else
              let searchBaseSize = length (last ls) + 1;
                  k1 = k\<lparr>keySize := keySize k - searchBaseSize\<rparr>
              in (case baseName of
                  None \<Rightarrow> (let (_, k2) = elektraFinalizeName k1 in (int (keySize k2), Some k2))
                | Some b \<Rightarrow>
                    let escaped = elektraEscapeKeyNamePart b;
                        sizeEscaped = elektraStrLen escaped;
                        n1 = take (keySize k1 - 1) n @ [SLASH] @ escaped;
                        (_, k2) = elektraFinalizeName
                          (k1\<lparr>key := Some n1, keySize := keySize k1 + sizeEscaped\<rparr>)
                    in (int (keySize k2), Some k2))))"

definition keyGetNamespace :: "Key option \<Rightarrow> elektraNamespace" where
  "keyGetNamespace k = (case k of None \<Rightarrow> KEY_NS_NONE | Some k \<Rightarrow> keyGetNameNamespace (key k))"

end
