(* ===== verification/KeyNameFacts.thy ===== *)
theory KeyNameFacts
  imports KeyName
begin

text \<open>
  Canonical key names. A name is a root level (a namespace, or the first level of a metaname;
  none for a cascading name) followed by escaped levels, each after one slash. The operations
  of \<open>KeyName\<close> keep names canonical; on canonical names escaped and unescaped names determine
  each other.
\<close>

section \<open>Canonical names\<close>

definition good_level :: "string \<Rightarrow> bool" where
  "good_level l \<longleftrightarrow> one_level l \<and> l \<noteq> ''.'' \<and> l \<noteq> ''..'' \<and> cstring l"

definition join :: "string list \<Rightarrow> string" where
  "join ls = concat (map (\<lambda>l. SLASH # l) ls)"

definition mkname :: "string option \<Rightarrow> string list \<Rightarrow> string" where
  "mkname root ls = (case root of
     None \<Rightarrow> if ls = [] then [SLASH] else join ls
   | Some r \<Rightarrow> r @ join ls)"

definition root_levels :: "string option \<Rightarrow> string list" where
  "root_levels root = (case root of None \<Rightarrow> [] | Some r \<Rightarrow> [r])"

text \<open>The bytes of the unescaped name.\<close>

definition mkuname :: "string option \<Rightarrow> string list \<Rightarrow> string" where
  "mkuname root ls =
     (if root = None then [NUL] else []) @ concat (map (\<lambda>l. unescPart l @ [NUL]) (root_levels root @ ls))"

definition good_levels :: "string option \<Rightarrow> string list \<Rightarrow> bool" where
  "good_levels root ls \<longleftrightarrow> list_all good_level (root_levels root @ ls)"

text \<open>The name of \<open>k\<close> is the canonical name of these levels, and all its sizes agree.\<close>

definition named :: "Key \<Rightarrow> string option \<Rightarrow> string list \<Rightarrow> bool" where
  "named k root ls \<longleftrightarrow>
     good_levels root ls \<and> key k = Some (mkname root ls) \<and> keySize k = length (mkname root ls) + 1
     \<and> uname k = mkuname root ls \<and> keyUSize k = length (mkuname root ls)"

lemma root_levels_simps [simp]: "root_levels None = []" "root_levels (Some r) = [r]"
  by (simp_all add: root_levels_def)

lemma good_level_one [simp]: "good_level l \<Longrightarrow> one_level l"
  by (simp add: good_level_def)

lemma good_level_cstring: "good_level l \<Longrightarrow> cstring l"
  by (simp add: good_level_def)

lemma good_levels_simps [simp]:
  "good_levels None ls \<longleftrightarrow> list_all good_level ls"
  "good_levels (Some r) ls \<longleftrightarrow> good_level r \<and> list_all good_level ls"
  by (simp_all add: good_levels_def)

lemma join_simps [simp]:
  "join [] = []" "join (l # ls) = SLASH # l @ join ls" "join (ls @ ls') = join ls @ join ls'"
  by (simp_all add: join_def)

lemma join_eq_Nil [simp]: "join ls = [] \<longleftrightarrow> ls = []"
  by (cases ls) simp_all

lemma mkname_not_Nil: "good_levels root ls \<Longrightarrow> mkname root ls \<noteq> []"
  by (auto simp: mkname_def good_level_def one_level_def split: option.split)

lemma hd_mkname: "good_levels root ls \<Longrightarrow> hd (mkname root ls) = SLASH \<longleftrightarrow> root = None"
proof (cases root)
  case None
  then show ?thesis by (cases ls) (simp_all add: mkname_def)
next
  case (Some r)
  assume "good_levels root ls"
  with Some have "r \<noteq> []" "hd r \<noteq> SLASH" by (auto simp: good_level_def one_level_def)
  with Some show ?thesis by (simp add: mkname_def)
qed

lemma levels_app_join:
  assumes "s = [] \<or> one_level s" "list_all one_level ls"
  shows "levels (s @ join ls) = (if s = [] then [] else [s]) @ ls \<and> even (escst (s @ join ls) 0)"
  using assms
proof (induction ls rule: rev_induct)
  case Nil
  then show ?case by (auto simp: one_level_def intro: levels_one_level)
next
  case (snoc l ls)
  then have IH: "levels (s @ join ls) = (if s = [] then [] else [s]) @ ls" "even (escst (s @ join ls) 0)"
    and l: "one_level l" by auto
  have "levels ((s @ join ls) @ SLASH # l) = levels (s @ join ls) @ levels l"
    using IH(2) by (rule levels_append_slash)
  moreover have "even (escst ((s @ join ls) @ SLASH # l) 0)"
    using l by (simp add: escst_append one_level_def)
  ultimately show ?case using IH l by simp
qed

lemma levels_mkname:
  assumes "good_levels root ls"
  shows "levels (mkname root ls) = root_levels root @ ls" "even (escst (mkname root ls) 0)"
proof -
  have one: "list_all one_level ls" and r: "root = Some r \<Longrightarrow> one_level r" for r
    using assms by (cases root; auto simp: list_all_iff)+
  show "levels (mkname root ls) = root_levels root @ ls"
    using levels_app_join [of "[]" ls] levels_app_join [of "the root" ls] one r
    by (cases root) (auto simp: mkname_def one_level_def)
  show "even (escst (mkname root ls) 0)"
    using levels_app_join [of "[]" ls] levels_app_join [of "the root" ls] one r
    by (cases root) (auto simp: mkname_def)
qed

lemma unescape_mkname:
  assumes "good_levels root ls"
  shows "elektraUnescapeKeyName (mkname root ls) = mkuname root ls"
  using levels_mkname(1) [OF assms] hd_mkname [OF assms] mkname_not_Nil [OF assms]
  by (simp add: elektraUnescapeKeyName_def unescapeNameLoop_levels mkuname_def)

lemma namedI:
  assumes "good_levels root ls" "elektraFinalizeName k = (r, k')"
    "key k = Some b" "take (keySize k - 1) b = mkname root ls" "keySize k = length (mkname root ls) + 1"
  shows "named k' root ls" "r = int (length (mkname root ls) + 1)"
  using assms by (auto simp: elektraFinalizeName_def named_def Let_def unescape_mkname)

lemma elektraFinalizeName_frame:
  assumes "elektraFinalizeName k = (r, k')"
  shows "keySize k' = keySize k" "meta k' = meta k" "data k' = data k" "dataSize k' = dataSize k"
    "ksReference k' = ksReference k" "flags k' = flags k OR KEY_FLAG_SYNC"
  using assms by (auto simp: elektraFinalizeName_def Let_def)

section \<open>Escaped parts are good levels\<close>

lemma cstring_escapeLoop [simp]: "cstring (escapeLoop s c) \<longleftrightarrow> cstring s"
  by (induction s c rule: escapeLoop.induct) auto

lemma cstring_escape: "cstring s \<Longrightarrow> cstring (elektraEscapeKeyNamePart s)"
  by (cases s rule: elektraEscapeKeyNamePart_cases) auto

lemma escape_not_dots: "elektraEscapeKeyNamePart s \<noteq> ''.'' \<and> elektraEscapeKeyNamePart s \<noteq> ''..''"
proof (cases s rule: elektraEscapeKeyNamePart_cases)
  case (plain k r)
  have a: "escapeLoop t 0 = ''.'' \<longleftrightarrow> t = ''.''" for t by (cases t; cases "tl t") auto
  have "escapeLoop s 0 = ''..'' \<longleftrightarrow> s = ''..''"
    by (cases s) (auto simp: a)
  moreover have "s \<noteq> ''.'' \<and> s \<noteq> ''..''"
    using plain by (cases k) auto
  ultimately show ?thesis using plain a by simp
qed auto

lemma good_level_escape: "cstring s \<Longrightarrow> good_level (elektraEscapeKeyNamePart s)"
  by (simp add: good_level_def one_level_escape cstring_escape escape_not_dots)

lemma escape_unescape_loop:
  "lvlen l c = length l \<Longrightarrow> even (escst l c) \<Longrightarrow> escapeLoop (unescapeLoop l c) 0 = replicate c BSL @ l"
proof (induction l c rule: unescapeLoop.induct)
  case (1 c)
  then have "replicate c BSL = replicate (c div 2) BSL @ replicate (c div 2) BSL"
    by (simp add: replicate_add [symmetric] mult_2 [symmetric])
  then show ?case using escapeLoop_replicate [of "c div 2" "[]" 0] by simp
next
  case (2 x l c)
  consider "x = BSL" | "x = SLASH" | "x \<noteq> BSL" "x \<noteq> SLASH" by blast
  then show ?case
  proof cases
    case 1
    then show ?thesis using 2 by (simp add: replicate_app_Cons_same)
  next
    case 2
    with "2.prems" have odd: "odd c" and l: "lvlen l 0 = length l" "even (escst l 0)"
      by (auto split: if_splits)
    have "c = c div 2 + Suc (c div 2)" using odd by presburger
    then have c: "replicate c BSL = replicate (c div 2) BSL @ BSL # replicate (c div 2) BSL"
      by (metis replicate_Suc replicate_add)
    have "unescapeLoop (x # l) c = replicate (c div 2) BSL @ SLASH # unescapeLoop l 0"
      using 2 by simp
    then have "escapeLoop (unescapeLoop (x # l) c) 0
        = replicate (c div 2) BSL @ BSL # replicate (c div 2) BSL @ SLASH # escapeLoop (unescapeLoop l 0) 0"
      using escapeLoop_replicate [of "c div 2" "SLASH # unescapeLoop l 0" 0] by simp
    moreover have "escapeLoop (unescapeLoop l 0) 0 = l" using "2.IH"(2) 2 l by simp
    ultimately show ?thesis using 2 c by simp
  next
    case 3
    with "2.prems" have "escapeLoop (unescapeLoop l 0) 0 = l" using "2.IH"(3) by simp
    then show ?thesis using 3 escapeLoop_replicate [of c "x # unescapeLoop l 0" 0] by simp
  qed
qed

lemma escape_unescPart [simp]:
  assumes "good_level l"
  shows "elektraEscapeKeyNamePart (unescPart l) = l"
proof -
  from assms have one: "l \<noteq> []" "lvlen l 0 = length l" "even (escst l 0)"
    and nd: "l \<noteq> ''.''" "l \<noteq> ''..''" by (auto simp: good_level_def one_level_def)
  obtain j r where l: "l = replicate j BSL @ r" and r: "r = [] \<or> hd r \<noteq> BSL"
    by (rule bsl_split [of l])
  note ub = unescBegin_replicate [OF r, of j]
  consider "l = ''%''" | "l \<noteq> ''%''" "j > 0" "r = ''%'' \<or> r = ''.'' \<or> r = ''..''"
    | "l \<noteq> ''%''" "\<not> (j > 0 \<and> (r = ''%'' \<or> r = ''.'' \<or> r = ''..''))" by blast
  then show ?thesis
  proof cases
    case 1
    then show ?thesis by (simp add: unescPart_def unescBegin_def elektraEscapeKeyNamePart_def
          elektraEscapeKeyNamePartBegin_def)
  next
    case 2
    then have u: "unescPart l = replicate (j - 1) BSL @ r" using ub l by (simp add: unescPart_def)
    have "takeWhile (\<lambda>c. c = BSL) (replicate (j - 1) BSL @ r) = replicate (j - 1) BSL"
      using r by (rule takeWhile_bsl_replicate)
    then have "elektraEscapeKeyNamePart (unescPart l) = replicate (j - 1) BSL @ BSL # r"
      using 2 unfolding u
      by (auto simp: elektraEscapeKeyNamePart_def elektraEscapeKeyNamePartBegin_def)
    then show ?thesis using l 2 by (cases j) (auto simp: replicate_app_Cons_same)
  next
    case 3
    then have "unescBegin l = None" using ub l by auto
    then have u: "unescPart l = unescapeLoop l 0" by (simp add: unescPart_def)
    have e: "escapeLoop (unescPart l) 0 = l" using escape_unescape_loop [of l 0] one u by simp
    show ?thesis
    proof (cases "unescPart l" rule: elektraEscapeKeyNamePart_cases)
      case empty
      then show ?thesis using e one by simp
    next
      case (special k q)
      then have q: "q = [] \<or> hd q \<noteq> BSL" and "escapeLoop q k = q" by auto
      then have lq: "l = replicate k BSL @ q" using e special escapeLoop_replicate [of k q 0] by simp
      then have "j = k \<and> r = q"
        using takeWhile_bsl_replicate [OF r, of j] takeWhile_bsl_replicate [OF q, of k] l
        by (metis append_eq_append_conv length_replicate)
      then show ?thesis using 3 special nd lq by auto
    next
      case plain
      then show ?thesis using e by simp
    qed
  qed
qed

lemma unescPart_inj: "good_level l \<Longrightarrow> good_level l' \<Longrightarrow> unescPart l = unescPart l' \<Longrightarrow> l = l'"
  using escape_unescPart by metis

end
