(* ===== verification/KeyNameOps.thy ===== *)
theory KeyNameOps
  imports KeyNameFacts
begin

text \<open>
  What the name operations do on keys with canonical names: each moves from one list of
  levels to another. Every lemma gives the levels of the result.
\<close>

section \<open>Sizes and null bytes\<close>

lemma length_unescapeLoop: "length (unescapeLoop l c) \<le> length l + c"
  by (induction l c rule: unescapeLoop.induct) (auto intro: order_trans div_le_dividend)

lemma length_unescPart: "length (unescPart l) \<le> length l"
proof (cases "unescBegin l")
  case None
  then show ?thesis using length_unescapeLoop [of l 0] by (simp add: unescPart_def)
next
  case (Some w)
  obtain j r where l: "l = replicate j BSL @ r" and r: "r = [] \<or> hd r \<noteq> BSL"
    by (rule bsl_split [of l])
  show ?thesis using Some unescBegin_replicate [OF r, of j] l
    by (auto simp: unescPart_def split: if_splits)
qed

lemma cstring_unescapeLoop: "cstring l \<Longrightarrow> cstring (unescapeLoop l c)"
  by (induction l c rule: unescapeLoop.induct) auto

lemma cstring_unescPart: "cstring l \<Longrightarrow> cstring (unescPart l)"
proof (cases "unescBegin l")
  case None
  then show "cstring l \<Longrightarrow> ?thesis" by (simp add: unescPart_def cstring_unescapeLoop)
next
  case (Some w)
  obtain j r where l: "l = replicate j BSL @ r" and r: "r = [] \<or> hd r \<noteq> BSL"
    by (rule bsl_split [of l])
  show "cstring l \<Longrightarrow> ?thesis" using Some unescBegin_replicate [OF r, of j] l
    by (auto simp: unescPart_def split: if_splits)
qed

lemma mkname_snoc:
  "mkname root (ls @ [l]) = (if root = None \<and> ls = [] then SLASH # l else mkname root ls @ SLASH # l)"
  by (cases root) (auto simp: mkname_def)

lemma mkname_root_iff: "good_levels root ls \<Longrightarrow> mkname root ls = [SLASH] \<longleftrightarrow> root = None \<and> ls = []"
proof (cases root)
  case None
  then show "good_levels root ls \<Longrightarrow> ?thesis"
    by (cases ls) (auto simp: mkname_def good_level_def one_level_def)
next
  case (Some r)
  then show "good_levels root ls \<Longrightarrow> ?thesis"
    using hd_mkname [of root ls] by auto
qed

lemma mkuname_snoc: "mkuname root (ls @ [l]) = mkuname root ls @ unescPart l @ [NUL]"
  by (simp add: mkuname_def)

lemma good_levels_snoc: "good_levels root (ls @ [l]) \<longleftrightarrow> good_levels root ls \<and> good_level l"
  by (auto simp: good_levels_def)

lemma good_levels_butlast: "good_levels root ls \<Longrightarrow> good_levels root (butlast ls)"
  by (auto simp: good_levels_def list_all_iff dest: in_set_butlastD)

section \<open>keyAddBaseName\<close>

lemma keyAddBaseName_named:
  assumes k: "named k root ls" and ro: "\<not> test_bit (flags k) KEY_FLAG_RO_NAME" and b: "cstring b"
  obtains k' where "keyAddBaseName (Some k) (Some b) = (int (keySize k'), Some k')"
    "named k' root (ls @ [elektraEscapeKeyNamePart b])"
    "data k' = data k" "meta k' = meta k" "ksReference k' = ksReference k"
proof -
  let ?n = "mkname root ls" and ?e = "elektraEscapeKeyNamePart b"
  from k have n: "key k = Some ?n" "keySize k = length ?n + 1" "good_levels root ls"
    by (simp_all add: named_def)
  have g': "good_levels root (ls @ [?e])" using n b by (simp add: good_levels_snoc good_level_escape)
  define k1 where "k1 = (if strcmp ?n ''/'' = 0 then k\<lparr>keySize := keySize k + length ?e\<rparr>
      else k\<lparr>keySize := keySize k + length ?e + 1\<rparr>)"
  define n1 where "n1 = (if strcmp ?n ''/'' \<noteq> 0 then take (keySize k1 - length ?e - 2) ?n @ [SLASH]
      else take (keySize k1 - length ?e - 1) ?n)"
  obtain r k2 where fin: "elektraFinalizeName (k1\<lparr>key := Some (n1 @ ?e)\<rparr>) = (r, k2)" by fastforce
  have "mkname root (ls @ [?e]) = n1 @ ?e \<and> keySize k1 = length (n1 @ ?e) + 1"
    using n mkname_root_iff [OF n(3)] by (auto simp: mkname_snoc k1_def n1_def)
  then have "named k2 root (ls @ [?e])"
    by (intro namedI(1) [OF g' fin, of "n1 @ ?e"]) simp_all
  moreover have "keyAddBaseName (Some k) (Some b) = (int (keySize k2), Some k2)"
    using ro n(1) fin unfolding keyAddBaseName_def k1_def n1_def Let_def by (simp split: prod.split)
  moreover have "data k2 = data k" "meta k2 = meta k" "ksReference k2 = ksReference k"
    using elektraFinalizeName_frame [OF fin] by (simp_all add: k1_def)
  ultimately show thesis using that by blast
qed

section \<open>keyBaseName\<close>

lemma baseNameLoop_back:
  "cstring w \<Longrightarrow> baseNameLoop (a @ NUL # w @ z) (length a + 1 + length w) (length a + 1 + length w)
     = length a + 1"
proof (induction w arbitrary: z rule: rev_induct)
  case Nil
  have "(a @ NUL # z) ! length a = NUL" by simp
  then show ?case by simp
next
  case (snoc c w)
  have "(a @ NUL # (w @ [c]) @ z) ! (length a + 1 + length w) = c"
    by (simp add: nth_append)
  then show ?case using snoc.IH [of "c # z"] snoc.prems by simp
qed

lemma concat_ends_nul: "concat (map (\<lambda>l. f l @ [NUL]) ls) = [] \<or> last (concat (map (\<lambda>l. f l @ [NUL]) ls)) = NUL"
  by (cases ls rule: rev_cases) auto

lemma keyBaseName_named:
  assumes k: "named k root (ls @ [l])"
  shows "keyBaseName (Some k) = Some (unescPart l)"
proof -
  let ?n = "mkname root (ls @ [l])" and ?w = "unescPart l"
  from k have n: "key k = Some ?n" "keySize k = length ?n + 1" "uname k = mkuname root ls @ ?w @ [NUL]"
      "keyUSize k = length (uname k)" and g: "good_levels root (ls @ [l])"
    by (simp_all add: named_def mkuname_snoc)
  have cw: "cstring ?w" using g by (auto simp: good_levels_snoc good_level_def intro: cstring_unescPart)
  have "mkuname root ls = [] \<or> last (mkuname root ls) = NUL"
    using concat_ends_nul [of unescPart "root_levels root @ ls"] by (auto simp: mkuname_def)
  then obtain a where a: "?n @ NUL # mkuname root ls = a @ [NUL]"
    by (cases "mkuname root ls" rule: rev_cases) auto
  then have "length (?n @ NUL # mkuname root ls) = length (a @ [NUL])" by (rule arg_cong)
  then have la: "length a = length ?n + length (mkuname root ls)" by (simp only: length_append) simp
  have buf: "keyBuf k = a @ NUL # ?w @ [NUL]" using n a by (simp add: keyBuf_def)
  have p: "keySize k + keyUSize k - 1 = length a + 1 + length ?w" using n la by simp
  have base: "baseNameLoop (keyBuf k) (length a + 1 + length ?w) (length a + 1 + length ?w) = length a + 1"
    unfolding buf using cw by (rule baseNameLoop_back)
  have "length ?w < length ?n" using length_unescPart [of l]
    by (simp add: mkname_snoc)
  then have "length a + 1 \<noteq> keyUSize k" using n la by simp
  moreover have "upto_nul (drop (length a + 1) (keyBuf k)) = ?w"
    using cw by (simp add: buf)
  ultimately show ?thesis using n(1) unfolding keyBaseName_def Let_def
    by (simp only: option.case p base if_True simp_thms)
qed

section \<open>keySetBaseName\<close>

lemma take_mkname_snoc:
  "ls \<noteq> [] \<or> root \<noteq> None \<Longrightarrow> take (length (mkname root (ls @ [l])) - Suc (length l)) (mkname root (ls @ [l])) = mkname root ls"
  by (cases root) (auto simp: mkname_def)

lemma keySetBaseName_named:
  assumes k: "named k root (ls @ [l])" and ro: "\<not> test_bit (flags k) KEY_FLAG_RO_NAME" and b: "cstring b"
  obtains k' where "keySetBaseName (Some k) (Some b) = (int (keySize k'), Some k')"
    "named k' root (ls @ [elektraEscapeKeyNamePart b])"
proof -
  let ?n = "mkname root (ls @ [l])" and ?e = "elektraEscapeKeyNamePart b"
  from k have n: "key k = Some ?n" "keySize k = length ?n + 1" and g: "good_levels root (ls @ [l])"
    by (simp_all add: named_def)
  have g': "good_levels root (ls @ [?e])" using g b by (simp add: good_levels_snoc good_level_escape)
  have lv: "levels ?n = root_levels root @ ls @ [l]" using levels_mkname(1) [OF g] by simp
  have go: "\<not> (levels ?n = [] \<or> (length (levels ?n) = 1 \<and> hd ?n \<noteq> SLASH))"
    using lv hd_mkname [OF g] by (cases root) auto
  define k1 where "k1 = k\<lparr>keySize := keySize k - (length l + 1)\<rparr>"
  define n1 where "n1 = take (keySize k1 - 1) ?n @ [SLASH] @ ?e"
  obtain r k2 where fin:
    "elektraFinalizeName (k1\<lparr>key := Some n1, keySize := keySize k1 + elektraStrLen ?e\<rparr>) = (r, k2)" by fastforce
  have "n1 = mkname root (ls @ [?e]) \<and> keySize k1 + elektraStrLen ?e = length n1 + 1"
  proof (cases "root = None \<and> ls = []")
    case True
    then show ?thesis using n by (simp add: k1_def n1_def mkname_def elektraStrLen_def)
  next
    case False
    then have "take (length ?n - Suc (length l)) ?n = mkname root ls"
      by (intro take_mkname_snoc) auto
    moreover have "length ?n = length (mkname root ls) + Suc (length l)"
      using False by (auto simp: mkname_snoc)
    ultimately show ?thesis
      using n False g mkname_root_iff [of root ls]
      by (auto simp: k1_def n1_def elektraStrLen_def mkname_snoc good_levels_snoc)
  qed
  then have "named k2 root (ls @ [?e])"
    by (intro namedI(1) [OF g' fin, of n1]) simp_all
  moreover have "keySetBaseName (Some k) (Some b) = (int (keySize k2), Some k2)"
    using ro n(1) go lv fin unfolding keySetBaseName_def k1_def n1_def Let_def
    by (simp split: prod.split)
  ultimately show thesis using that by blast
qed

section \<open>Validation\<close>

lemma validateLoop_escst:
  "i < length s \<Longrightarrow> validateLoop s i e =
     (if \<exists>j. 0 < j \<and> j \<le> i \<and> s ! j \<noteq> BSL then escst (take (Suc i) s) 0 + e else i + e)"
proof (induction i arbitrary: e)
  case 0
  then show ?case by simp
next
  case (Suc i)
  then have t: "take (Suc (Suc i)) s = take (Suc i) s @ [s ! Suc i]" by (simp add: take_Suc_conv_app_nth)
  show ?case
  proof (cases "s ! Suc i = BSL")
    case True
    then have "(\<exists>j. 0 < j \<and> j \<le> Suc i \<and> s ! j \<noteq> BSL) \<longleftrightarrow> (\<exists>j. 0 < j \<and> j \<le> i \<and> s ! j \<noteq> BSL)"
      by (metis le_Suc_eq)
    moreover have "escst (take (Suc (Suc i)) s) 0 = Suc (escst (take (Suc i) s) 0)"
    proof -
      have "escst [BSL] e = Suc e" for e by simp
      then show ?thesis using t True by (simp add: escst_append)
    qed
    ultimately show ?thesis using Suc.IH [of "Suc e"] Suc.prems True by simp blast
  next
    case False
    moreover have "escst (take (Suc (Suc i)) s) 0 = 0" using t False by (simp add: escst_append)
    ultimately show ?thesis by auto
  qed
qed

text \<open>
  The code counts the backslashes at the end of the name but never looks at its first
  character: a name of backslashes only is accepted when their number is odd.
\<close>

lemma elektraValidateKeyName_eq:
  assumes "s \<noteq> []"
  shows "elektraValidateKeyName s (elektraStrLen s) \<longleftrightarrow>
    (if tl s = replicate (length s - 1) BSL then odd (length s) else even (escst s 0))"
proof -
  have ex: "(\<exists>j. 0 < j \<and> j \<le> length s - 1 \<and> s ! j \<noteq> BSL) \<longleftrightarrow> tl s \<noteq> replicate (length s - 1) BSL"
  proof -
    have "tl s = replicate (length s - 1) BSL \<longleftrightarrow> (\<forall>i < length s - 1. s ! Suc i = BSL)"
      by (simp add: list_eq_iff_nth_eq nth_tl)
    also have "\<dots> \<longleftrightarrow> (\<forall>j. 0 < j \<and> j \<le> length s - 1 \<longrightarrow> s ! j = BSL)"
      by (metis Suc_le_eq Suc_pred gr0_conv_Suc zero_less_Suc)
    finally show ?thesis by blast
  qed
  have "elektraValidateKeyName s (elektraStrLen s) \<longleftrightarrow> validateLoop s (length s - 1) 0 mod 2 = 0"
    by (simp add: elektraValidateKeyName_def elektraStrLen_def)
  also have "validateLoop s (length s - 1) 0
     = (if tl s \<noteq> replicate (length s - 1) BSL then escst s 0 else length s - 1)"
    using validateLoop_escst [of "length s - 1" s 0] assms unfolding ex by simp
  finally show ?thesis using assms by (cases s) (auto simp: mod2_eq_if)
qed

section \<open>keyAddName\<close>

text \<open>Resolving the levels of an added name against those a key has.\<close>

definition resolve1 :: "string list \<Rightarrow> string \<Rightarrow> string list" where
  "resolve1 ls p = (if p = ''.'' then ls else if p = ''..'' then butlast ls else ls @ [p])"

definition resolve :: "string list \<Rightarrow> string list \<Rightarrow> string list" where
  "resolve ls new = foldl resolve1 ls new"

definition add_rel :: "string option \<Rightarrow> string list \<Rightarrow> string \<times> bool \<Rightarrow> bool" where
  "add_rel root ls s \<longleftrightarrow> good_levels root ls \<and> s = (mkname root ls, root = None \<and> ls = [])"

lemma take_join_butlast: "ls \<noteq> [] \<Longrightarrow> take (length (join ls) - Suc (length (last ls))) (join ls) = join (butlast ls)"
  by (cases ls rule: rev_cases) auto

lemma join_not_single: "ls \<noteq> [] \<Longrightarrow> length (join ls) \<ge> Suc (length (last ls))"
  by (cases ls rule: rev_cases) auto

lemma elektraRemoveOneLevel_rel:
  assumes "good_levels root ls"
  shows "add_rel root (butlast ls) (elektraRemoveOneLevel (mkname root ls) (root = None \<and> ls = []))"
proof -
  note lv = levels_mkname(1) [OF assms] and g = good_levels_butlast [OF assms]
  show ?thesis
  proof (cases root)
    case (Some r)
    then have "hd (r @ join ls) \<noteq> SLASH" using hd_mkname [OF assms] by (simp add: mkname_def)
    then show ?thesis using Some lv g take_join_butlast [of ls] join_not_single [of ls]
      by (cases "ls = []") (auto simp: elektraRemoveOneLevel_def add_rel_def mkname_def Let_def)
  next
    case None
    have "length ls > 1 \<Longrightarrow> butlast ls \<noteq> []" by (cases ls rule: rev_cases) auto
    moreover have "\<not> length ls > 1 \<Longrightarrow> butlast ls = []" by (cases ls) auto
    moreover have "ls \<noteq> [] \<Longrightarrow> take 1 (join ls) = [SLASH]" by (cases ls) auto
    moreover have "ls \<noteq> [] \<Longrightarrow> hd (join ls) = SLASH" by (cases ls) auto
    ultimately show ?thesis using None lv g take_join_butlast [of ls]
      by (cases "ls = []"; cases "length ls > 1")
        (auto simp: elektraRemoveOneLevel_def add_rel_def mkname_def Let_def)
  qed
qed

lemma addLevel_rel:
  assumes s: "add_rel root ls s" and p: "one_level p" "cstring p"
  shows "add_rel root (resolve1 ls p) (addLevel s p)"
proof -
  from s have g: "good_levels root ls" and s': "s = (mkname root ls, root = None \<and> ls = [])"
    by (simp_all add: add_rel_def)
  have c1: "length p = 1 \<and> strncmp p ''.'' 1 = 0 \<longleftrightarrow> p = ''.''"
    by (cases p) (auto simp: strncmp_0_iff)
  have c2: "length p = 2 \<and> strncmp p ''..'' 2 = 0 \<longleftrightarrow> p = ''..''"
    by (auto simp: strncmp_0_iff)
  consider "p = ''.''" | "p = ''..''" | "p \<noteq> ''.''" "p \<noteq> ''..''" by blast
  then show ?thesis
  proof cases
    case 1
    then show ?thesis using s by (simp add: addLevel_def s' strncmp_0_iff resolve1_def)
  next
    case 2
    then show ?thesis using elektraRemoveOneLevel_rel [OF g]
      by (simp add: addLevel_def s' strncmp_0_iff resolve1_def)
  next
    case 3
    then have "good_levels root (ls @ [p])" using g p by (simp add: good_levels_snoc good_level_def)
    then show ?thesis using 3 unfolding addLevel_def s' prod.case c1 c2
      by (auto simp: add_rel_def resolve1_def mkname_snoc) (auto simp: mkname_def)
  qed
qed

lemma addLevels_rel:
  "add_rel root ls s \<Longrightarrow> list_all (\<lambda>p. one_level p \<and> cstring p) ps \<Longrightarrow>
   add_rel root (resolve ls ps) (foldl addLevel s ps)"
proof (induction ps arbitrary: ls s)
  case Nil
  then show ?case by (simp add: resolve_def)
next
  case (Cons p ps)
  then have "add_rel root (resolve1 ls p) (addLevel s p)" by (intro addLevel_rel) auto
  with Cons show ?case by (simp add: resolve_def)
qed

text \<open>The levels of a name whose backslashes at the end are paired.\<close>

lemma levels_one_level_list:
  "even (escst s 0) \<Longrightarrow> cstring s \<Longrightarrow> list_all (\<lambda>p. one_level p \<and> cstring p) (levels s)"
proof (induction s rule: levels.induct)
  case (1 s)
  let ?p = "dropWhile (\<lambda>c. c = SLASH) s"
  let ?n = "lvlen ?p 0"
  show ?case
  proof (cases "?p = []")
    case True
    then show ?thesis by (subst levels.simps) (simp add: keyNameGetOneLevel_eq)
  next
    case ne: False
    note hd = hd_dropWhile_slash [OF ne]
    have pos: "0 < ?n" using ne hd by (rule lvlen_pos)
    have es: "even (escst ?p 0)" using "1.prems" by (simp add: escst_dropWhile)
    have cp: "cstring ?p" using "1.prems" by (auto simp: cstring_def dest: set_dropWhileD)
    have sp: "?p = take ?n ?p @ drop ?n ?p" by simp
    have full: "lvlen (take ?n ?p) 0 = ?n \<and> (drop ?n ?p \<noteq> [] \<longrightarrow> even (escst (take ?n ?p) 0))"
    proof -
      have "lvlen t e < length t \<Longrightarrow> lvlen (take (lvlen t e) t) e = lvlen t e \<and> even (escst (take (lvlen t e) t) e)" for t e
        by (induction t e rule: lvlen.induct) (auto split: if_splits)
      then show ?thesis using lvlen_le [of ?p 0] by (cases "?n < length ?p") auto
    qed
    have es2: "even (escst (drop ?n ?p) 0)"
    proof (cases "drop ?n ?p")
      case (Cons c t)
      then have "?n < length ?p" by (metis drop_eq_Nil list.distinct(1) not_le)
      then obtain t' where "drop ?n ?p = SLASH # t'" using lvlen_drop by blast
      moreover have "escst ?p 0 = escst (take ?n ?p @ drop ?n ?p) 0" by simp
      ultimately show ?thesis using es by (simp only: escst_append) simp
    qed simp
    have ev: "even (escst (take ?n ?p) 0)"
      using full es sp by (cases "drop ?n ?p = []") auto
    have "one_level (take ?n ?p)"
      using full ev pos ne hd lvlen_le [of ?p 0] by (auto simp: one_level_def hd_take)
    moreover have "list_all (\<lambda>p. one_level p \<and> cstring p) (levels (drop ?n ?p))"
      using "1.IH" [of ?p ?n] ne es2 cp cstring_drop [of ?p ?n] by (simp add: keyNameGetOneLevel_eq)
    ultimately show ?thesis
      using ne cp by (subst levels.simps) (simp add: keyNameGetOneLevel_eq cstring_take)
  qed
qed

lemma elektraFinalizeName_key:
  "elektraFinalizeName k = (r, k') \<Longrightarrow> keySize k' = keySize k"
  by (rule elektraFinalizeName_frame)

text \<open>
  \<open>keyAddName\<close> on a canonical name and a well-formed addition: the levels are resolved one by
  one, \<open>.\<close> is skipped, \<open>..\<close> removes a level, and the root is never removed.
\<close>

lemma keyAddName_levels:
  assumes g: "good_levels root ls" and n: "key k = Some (mkname root ls)" "keySize k = length (mkname root ls) + 1"
    and ro: "\<not> test_bit (flags k) KEY_FLAG_RO_NAME"
    and new: "new \<noteq> []" "cstring new" "even (escst new 0)" "\<not> (\<exists>n. new = replicate n BSL)"
  obtains k' where "keyAddName (Some k) (Some new)
      = (if keySize k' = keySize k then 0 else int (keySize k'), Some k')"
    "named k' root (resolve ls (levels new))"
    "data k' = data k" "meta k' = meta k" "ksReference k' = ksReference k"
proof -
  let ?n = "mkname root ls"
  have valid: "elektraValidateKeyName new (elektraStrLen new)"
  proof -
    have "tl new = replicate (length new - 1) BSL \<Longrightarrow> hd new \<noteq> BSL"
      using new(1,4) by (metis list.collapse replicate_Suc)
    moreover have "escst (replicate n BSL) 0 = n" for n
      using escst_replicate [of n "[]" 0] by simp
    ultimately have "tl new = replicate (length new - 1) BSL \<Longrightarrow> odd (length new)"
      using new(1,3) by (cases new) (auto, metis)
    then show ?thesis using elektraValidateKeyName_eq [OF new(1)] new(3) by auto
  qed
  have "keySize k = 2 \<and> hd ?n = SLASH \<longleftrightarrow> root = None \<and> ls = []"
    using n hd_mkname [OF g] mkname_root_iff [OF g] by (cases ?n) auto
  then have "add_rel root ls (take (keySize k - 1) ?n, hd ?n = SLASH \<and> keySize k = 2)"
    using g n by (auto simp: add_rel_def)
  from addLevels_rel [OF this levels_one_level_list [OF new(3,2)]]
  obtain av where fold: "foldl addLevel (take (keySize k - 1) ?n, hd ?n = SLASH \<and> keySize k = 2) (levels new)
      = (mkname root (resolve ls (levels new)), av)"
    and g': "good_levels root (resolve ls (levels new))" by (auto simp: add_rel_def)
  let ?n' = "mkname root (resolve ls (levels new))"
  obtain r k' where fin: "elektraFinalizeName (k\<lparr>key := Some ?n', keySize := length ?n' + 1\<rparr>) = (r, k')"
    by fastforce
  have nm: "named k' root (resolve ls (levels new))"
    by (rule namedI(1) [OF g' fin, of ?n']) simp_all
  moreover have "keyAddName (Some k) (Some new) = (if keySize k' = keySize k then 0 else int (keySize k'), Some k')"
    using ro valid new(1) n(1) mkname_not_Nil [OF g] fold fin
    unfolding keyAddName_def Let_def by (auto simp: elektraStrLen_def)
  ultimately show thesis using that elektraFinalizeName_frame [OF fin] by simp
qed


section \<open>Setting a name\<close>

text \<open>The roots that \<open>keySetName\<close> accepts without options, and no owner in the name.\<close>

definition plain_roots :: "string option list" where
  "plain_roots = [None, Some ''spec'', Some ''proc'', Some ''dir'', Some ''user'', Some ''system'']"

definition root_name :: "string option \<Rightarrow> string" where
  "root_name root = (case root of None \<Rightarrow> [] | Some r \<Rightarrow> r)"

lemma good_plain_roots: "root \<in> set plain_roots \<Longrightarrow> good_levels root []"
  by (auto simp: plain_roots_def good_level_def one_level_def)

lemmas ns_defs = keyGetNameNamespace_def keyNameIsSpec_def keyNameIsProc_def keyNameIsDir_def
  keyNameIsUser_def keyNameIsSystem_def

lemma setNameRoot_plain:
  assumes "root \<in> set plain_roots" "rest = [] \<or> hd rest = SLASH" "root = None \<Longrightarrow> rest \<noteq> []"
  shows "keyGetNameNamespace (Some (root_name root @ rest)) \<noteq> KEY_NS_EMPTY"
    "setNameRoot k (root_name root @ rest) options
      = Some (k\<lparr>keySize := (if root = None then 2 else length (root_name root) + 1),
              keyUSize := length (root_name root) + 1\<rparr>, None)"
proof -
  consider "root = None" | "root = Some ''spec''" | "root = Some ''proc''" | "root = Some ''dir''"
    | "root = Some ''user''" | "root = Some ''system''" using assms(1) by (auto simp: plain_roots_def)
  then have "keyGetNameNamespace (Some (root_name root @ rest)) \<noteq> KEY_NS_EMPTY \<and>
    setNameRoot k (root_name root @ rest) options
      = Some (k\<lparr>keySize := (if root = None then 2 else length (root_name root) + 1),
              keyUSize := length (root_name root) + 1\<rparr>, None)"
    using assms(2,3)
    by cases (cases rest; simp add: ns_defs strncmp_0_iff root_name_def setNameRoot_def
        elektraHandleUserName_def Let_def)+
  then show "keyGetNameNamespace (Some (root_name root @ rest)) \<noteq> KEY_NS_EMPTY"
    "setNameRoot k (root_name root @ rest) options
      = Some (k\<lparr>keySize := (if root = None then 2 else length (root_name root) + 1),
              keyUSize := length (root_name root) + 1\<rparr>, None)" by blast+
qed

lemma named_root:
  assumes "root \<in> set plain_roots" "key k = Some (mkname root [])" "keySize k = length (mkname root []) + 1"
  shows "named (k\<lparr>uname := mkuname root [], keyUSize := length (mkuname root [])\<rparr>) root []"
  using assms good_plain_roots [OF assms(1)] by (simp add: named_def)

lemma elektraOnlySlashes_iff: "elektraOnlySlashes s \<longleftrightarrow> (\<exists>n. s = replicate n SLASH)"
proof
  assume "elektraOnlySlashes s"
  then have "\<forall>c \<in> set s. c = SLASH" by (auto simp: elektraOnlySlashes_def in_set_conv_nth)
  then have "s = replicate (length s) SLASH" by (simp add: replicate_length_same)
  then show "\<exists>n. s = replicate n SLASH" ..
qed (auto simp: elektraOnlySlashes_def)

lemma levels_slashes [simp]: "levels (replicate n SLASH) = []"
  by (induction n) auto

text \<open>
  Setting a name of one of these roots, a slash and anything that does not end in an odd number
  of backslashes: the canonical name of the resolved levels.
\<close>

lemma setNameCore_named:
  assumes root: "root \<in> set plain_roots" and ro: "\<not> test_bit (flags k) KEY_FLAG_RO_NAME"
    and rest: "cstring rest" "even (escst rest 0)" "rest \<noteq> [] \<Longrightarrow> \<not> (\<exists>n. rest = replicate n BSL)"
  obtains r k' where "setNameCore k (Some (root_name root @ SLASH # rest)) options = (r, k', None)" "0 < r"
    "named k' root (resolve [] (levels rest))"
    "data k' = data k" "meta k' = meta k" "ksReference k' = ksReference k"
proof -
  let ?n = "root_name root @ SLASH # rest" and ?k0 = "elektraRemoveKeyName k"
  let ?ks = "if root = None then 2 else length (root_name root) + 1" and ?us = "length (root_name root) + 1"
  define k2 where "k2 = ?k0\<lparr>keySize := ?ks, keyUSize := ?us, key := Some (take ?ks ?n)\<rparr>"
  have sr: "keyGetNameNamespace (Some ?n) \<noteq> KEY_NS_EMPTY"
    "setNameRoot ?k0 ?n options = Some (?k0\<lparr>keySize := ?ks, keyUSize := ?us\<rparr>, None)"
    using setNameRoot_plain [OF root, of "SLASH # rest"] by simp_all
  have mk: "take (keySize k2 - 1) ?n = mkname root []" "keySize k2 = length (mkname root []) + 1"
    by (cases root; simp add: k2_def root_name_def mkname_def)+
  obtain r2 k3 where f2: "elektraFinalizeName k2 = (r2, k3)" by fastforce
  have r2: "r2 > 0" using f2 mk(2) by (auto simp: elektraFinalizeName_def Let_def)
  have us: "keyUSize k3 > 0"
    using f2 mk good_plain_roots [OF root]
    by (cases root) (auto simp: elektraFinalizeName_def Let_def k2_def elektraUnescapeKeyName_def
      mkname_def root_name_def unescapeNameLoop_levels)
  show thesis
  proof (cases "elektraOnlySlashes (drop (?us - 1) ?n)")
    case True
    then have "levels rest = []" by (auto simp: elektraOnlySlashes_iff Cons_replicate_eq)
    moreover have "named k3 root []"
      using mk by (intro namedI(1) [OF good_plain_roots [OF root] f2, of "take ?ks ?n"])
        (auto simp: k2_def min_def)
    ultimately show thesis
      using True sr f2 r2 us that elektraFinalizeName_frame [OF f2]
      by (cases "elektraStrLen ?n = ?us \<or> elektraStrLen ?n = ?ks")
        (auto simp: setNameCore_def Let_def k2_def [symmetric] resolve_def k2_def elektraRemoveKeyName_def)
  next
    case False
    then have rne: "rest \<noteq> []" by (cases rest) (auto simp: elektraOnlySlashes_def)
    define k4 where "k4 = k2\<lparr>key := Some (take (keySize k2 - 1) ?n)\<rparr>"
    have k4: "key k4 = Some (mkname root [])" "keySize k4 = length (mkname root []) + 1"
        "\<not> test_bit (flags k4) KEY_FLAG_RO_NAME"
      using mk ro by (simp_all add: k4_def k2_def elektraRemoveKeyName_def)
    obtain k' where k': "keyAddName (Some k4) (Some rest)
          = (if keySize k' = keySize k4 then 0 else int (keySize k'), Some k')"
        "named k' root (resolve [] (levels rest))"
        "data k' = data k4" "meta k' = meta k4" "ksReference k' = ksReference k4"
      using keyAddName_levels [OF good_plain_roots [OF root] k4 rne rest(1,2) rest(3) [OF rne]] by blast
    have "keySize k' > 0" using k'(2) by (simp add: named_def)
    moreover have "setNameCore k (Some ?n) options = (int (keySize k'), k', None)"
      using False sr rne k'(1) \<open>keySize k' > 0\<close>
      by (cases root; cases "keySize k' = keySize k4";
          simp add: setNameCore_def Let_def k2_def k4_def elektraStrLen_def)
    ultimately show thesis using that k' by (simp add: k4_def k2_def elektraRemoveKeyName_def)
  qed
qed

end
