(* ===== verification/KeyTest.thy ===== *)
theory KeyTest
  imports KeyNameOps "HOL-Library.Sublist"
begin

text \<open>
  \<open>src/libs/elektra/keytest.c\<close>, the tests that look only at names: the namespace predicates,
  \<open>keyIsBelow\<close>, \<open>keyIsBelowOrSame\<close>, \<open>keyIsDirectBelow\<close>, \<open>keyIsInactive\<close>. (The tests that read
  metadata are in \<open>KeyCmp\<close>.) On canonical names \<open>keyIsBelow\<close> decides the proper prefix
  relation of the lists of levels, and \<open>keyIsDirectBelow\<close> one more level.

  A result \<open>None\<close> is a read outside the buffer of a name.
\<close>

section \<open>Namespace tests\<close>

definition nsTest :: "(string \<Rightarrow> bool) \<Rightarrow> Key option \<Rightarrow> int" where
  "nsTest f k = (case k of None \<Rightarrow> -1
     | Some k \<Rightarrow> (case key k of None \<Rightarrow> 0 | Some n \<Rightarrow> if f n then 1 else 0))"

definition keyIsSpec :: "Key option \<Rightarrow> int" where "keyIsSpec = nsTest keyNameIsSpec"
definition keyIsProc :: "Key option \<Rightarrow> int" where "keyIsProc = nsTest keyNameIsProc"
definition keyIsDir :: "Key option \<Rightarrow> int" where "keyIsDir = nsTest keyNameIsDir"
definition keyIsSystem :: "Key option \<Rightarrow> int" where "keyIsSystem = nsTest keyNameIsSystem"
definition keyIsUser :: "Key option \<Rightarrow> int" where "keyIsUser = nsTest keyNameIsUser"

section \<open>Reading names as buffers\<close>

text \<open>
  \<open>keyUnescapedName\<close> points behind the escaped name into the same buffer; a key without a
  name has a one-byte buffer of its own. A pointer is a buffer and an offset.
\<close>

definition ubuf :: "Key \<Rightarrow> string \<times> int" where
  "ubuf k = (case key k of None \<Rightarrow> ([NUL], 0) | Some _ \<Rightarrow> (keyBuf k, int (keySize k)))"

definition rd :: "string \<Rightarrow> int \<Rightarrow> char option" where
  "rd buf i = (if 0 \<le> i \<and> i < int (length buf) then Some (buf ! nat i) else None)"

text \<open>\<open>strrchr (p, 0)\<close>: the null byte that ends the string at \<open>p\<close>.\<close>

definition strend :: "string \<Rightarrow> int \<Rightarrow> int option" where
  "strend buf p = (if 0 \<le> p \<and> p < int (length buf) \<and> NUL \<in> set (drop (nat p) buf)
     then Some (p + int (length (upto_nul (drop (nat p) buf)))) else None)"

definition hd0 :: "string \<Rightarrow> char" where
  "hd0 s = (if s = [] then NUL else hd s)"

section \<open>keyIsBelow\<close>

text \<open>\<open>ucheckname[ukeysize - 1] == 0 && uchecksize > ukeysize\<close>, then \<open>return 1\<close>.\<close>

definition belowEnd :: "string \<Rightarrow> int \<Rightarrow> int \<Rightarrow> int \<Rightarrow> int option" where
  "belowEnd buf ucheck ukeysize uchecksize = do {
     c \<leftarrow> rd buf (ucheck + ukeysize - 1);
     Some (if c = NUL \<and> uchecksize > ukeysize then 1 else 0)
   }"

definition keyIsBelow :: "Key option \<Rightarrow> Key option \<Rightarrow> int option" where
  "keyIsBelow ko co = (case (ko, co) of
     (Some k, Some c) \<Rightarrow>
       let keyname = (case key k of None \<Rightarrow> [] | Some n \<Rightarrow> n);
           checkname = (case key c of None \<Rightarrow> [] | Some n \<Rightarrow> n);
           (kbuf, ukeyname) = ubuf k;
           (cbuf, ucheckname) = ubuf c;
           keysize = keyGetNameSize ko;
           checksize = keyGetNameSize co;
           ukeysize = keyGetUnescapedNameSize ko;
           uchecksize = keyGetUnescapedNameSize co
       in if strcmp checkname ''/'' = 0 then Some 0
          else if strcmp keyname ''/'' = 0 then
            (if hd0 checkname = SLASH then Some 1
             else if SLASH \<in> set checkname then Some 1
             else Some 0)
          else if hd0 checkname = SLASH then
            (if hd0 keyname = SLASH then
               (if strncmp keyname checkname (nat (keysize - 1)) = 0
                then belowEnd cbuf ucheckname ukeysize uchecksize else Some 0)
             else
               (let (ptr, sz) = keyNameGetOneLevel keyname in
                if int sz = keysize then Some 1
                else let keyname = drop sz keyname; keysize = int (elektraStrLen keyname) in do {
                  ptr \<leftarrow> strend kbuf ukeyname;
                  if strncmp keyname checkname (nat (keysize - 1)) = 0
                  then belowEnd cbuf ucheckname (ukeysize - (ptr - ukeyname)) uchecksize
                  else Some 0 }))
          else if hd0 keyname = SLASH then
            (let (ptr, sz) = keyNameGetOneLevel checkname in
             if int sz = checksize then Some 0
             else let checkname = drop sz checkname in do {
               ptr \<leftarrow> strend cbuf ucheckname;
               if strncmp keyname checkname (nat (keysize - 1)) = 0
               then belowEnd cbuf ptr ukeysize (uchecksize - (ptr - ucheckname))
               else Some 0 })
          else if strncmp keyname checkname (nat (keysize - 1)) = 0
            then belowEnd cbuf ucheckname ukeysize uchecksize
          else Some 0
   | _ \<Rightarrow> Some (-1))"

definition keyIsBelowOrSame :: "Key option \<Rightarrow> Key option \<Rightarrow> int option" where
  "keyIsBelowOrSame ko co = (case (ko, co) of
     (Some k, Some c) \<Rightarrow> do {
       b \<leftarrow> keyIsBelow ko co;
       Some (if b \<noteq> 0 then 1
             else if strcmp (the (keyName ko)) (the (keyName co)) = 0 then 1 else 0)
     }
   | _ \<Rightarrow> Some (-1))"

definition keyIsDirectBelow :: "Key option \<Rightarrow> Key option \<Rightarrow> int option" where
  "keyIsDirectBelow ko co = (case (ko, co) of
     (Some k, Some c) \<Rightarrow> do {
       b \<leftarrow> keyIsBelow ko co;
       if b = 0 then Some 0
       else
         let (cbuf, checkname) = ubuf c;
             keysize = keyGetUnescapedNameSize ko;
             checksize = keyGetUnescapedNameSize co
         in do {
           startPtr \<leftarrow>
             (if hd0 (the (keyName ko)) \<noteq> SLASH then strend cbuf (checkname + keysize)
              else if hd0 (the (keyName co)) \<noteq> SLASH then do {
                p \<leftarrow> strend cbuf checkname;
                strend cbuf (p + keysize) }
              else strend cbuf (checkname + keysize));
           Some (if startPtr = checkname + checksize - 1 then 1 else 0)
         }
     }
   | _ \<Rightarrow> Some (-1))"

section \<open>keyIsInactive\<close>

definition keyIsInactive :: "Key option \<Rightarrow> int" where
  "keyIsInactive k = (case keyName k of
     None \<Rightarrow> -1
   | Some p \<Rightarrow>
       if p = [] then -1
       else if list_ex (\<lambda>l. hd l = CHR ''.'') (levels p) then 1
       else 0)"


section \<open>The unescaped size of a level grows with the level\<close>

lemma unescapeLoop_ge: "length (unescapeLoop d e) \<ge> e div 2"
  by (induction d e rule: unescapeLoop.induct) (auto intro: order_trans [OF div_le_mono])

lemma unescapeLoop_grows:
  "lvlen d e = length d \<Longrightarrow> even (escst d e) \<Longrightarrow> d \<noteq> [] \<or> odd e \<Longrightarrow> length (unescapeLoop d e) > e div 2"
proof (induction d e rule: unescapeLoop.induct)
  case (2 x d e)
  consider "x = BSL" "d \<noteq> [] \<or> odd (Suc e)" | "x = BSL" "d = []" "odd e" | "x = SLASH"
    | "x \<noteq> BSL" "x \<noteq> SLASH" by auto
  then show ?case
  proof cases
    case 1
    then have "length (unescapeLoop d (Suc e)) > Suc e div 2" using 2 by simp
    moreover have "Suc e div 2 \<ge> e div 2" by simp
    ultimately show ?thesis using 1 by (metis le_less_trans unescapeLoop.simps(2))
  next
    case 2
    then show ?thesis by simp
  next
    case 3
    then show ?thesis by simp
  next
    case 4
    then show ?thesis by (simp add: le_imp_less_Suc trans_le_add1)
  qed
qed simp

lemma unescapeLoop_append:
  "lvlen k e = length k \<Longrightarrow> \<exists>w. unescapeLoop k e = w @ replicate (escst k e div 2) BSL \<and>
     (\<forall>d. unescapeLoop (k @ d) e = w @ unescapeLoop d (escst k e))"
proof (induction k e rule: unescapeLoop.induct)
  case (2 x k e)
  consider "x = BSL" | "x = SLASH" "odd e" | "x \<noteq> BSL" "x \<noteq> SLASH"
    using "2.prems" by fastforce
  then show ?case
  proof cases
    case 1
    then show ?thesis using 2 by auto
  next
    case s: 2
    then obtain w where "unescapeLoop k 0 = w @ replicate (escst k 0 div 2) BSL \<and>
       (\<forall>d. unescapeLoop (k @ d) 0 = w @ unescapeLoop d (escst k 0))" using 2 by force
    then show ?thesis using s by (intro exI [of _ "replicate (e div 2) BSL @ x # w"]) simp
  next
    case s: 3
    then obtain w where "unescapeLoop k 0 = w @ replicate (escst k 0 div 2) BSL \<and>
       (\<forall>d. unescapeLoop (k @ d) 0 = w @ unescapeLoop d (escst k 0))" using 2 by force
    then show ?thesis using s by (intro exI [of _ "replicate e BSL @ x # w"]) simp
  qed
qed simp

lemma unescPart_forms:
  obtains "l = ''%''" "unescPart l = []"
  | j r where "l = BSL # replicate j BSL @ r" "r = ''%'' \<or> r = ''.'' \<or> r = ''..''"
      "unescPart l = replicate j BSL @ r"
  | "unescBegin l = None" "unescPart l = unescapeLoop l 0"
proof (cases "unescBegin l")
  case None
  then show thesis using that(3) by (simp add: unescPart_def)
next
  case (Some w)
  obtain j r where l: "l = replicate j BSL @ r" "r = [] \<or> hd r \<noteq> BSL" by (rule bsl_split [of l])
  then show thesis
    using Some unescBegin_replicate [OF l(2), of j] that(1) that(2) [of "j - 1" r]
    by (cases j) (auto simp: unescPart_def replicate_app_Cons_same split: if_splits)
qed

lemma unescapeLoop_special:
  "r = ''%'' \<or> r = ''.'' \<or> r = ''..'' \<Longrightarrow> length (unescapeLoop (BSL # replicate j BSL @ r) 0) = Suc j + length r"
  by (auto simp: unescapeLoop_replicate)

lemma unescPart_grows:
  assumes k: "good_level k" and kd: "good_level (k @ d)" and d: "d \<noteq> []"
  shows "length (unescPart k) < length (unescPart (k @ d))"
proof -
  from k have k1: "k \<noteq> []" "lvlen k 0 = length k" "even (escst k 0)" "k \<noteq> ''.''" "k \<noteq> ''..''"
    by (auto simp: good_level_def one_level_def)
  from kd have kd1: "lvlen (k @ d) 0 = length (k @ d)" "even (escst (k @ d) 0)"
    by (auto simp: good_level_def one_level_def)
  then have dl: "lvlen d (escst k 0) = length d" "even (escst d (escst k 0))"
    using lvlen_append_eq [OF k1(2), of d] by (simp_all add: escst_append)
  obtain w where w: "unescapeLoop k 0 = w @ replicate (escst k 0 div 2) BSL"
      "unescapeLoop (k @ d) 0 = w @ unescapeLoop d (escst k 0)"
    using unescapeLoop_append [OF k1(2)] by blast
  have loop: "length (unescapeLoop k 0) < length (unescapeLoop (k @ d) 0)"
    using unescapeLoop_grows [OF dl] d w by simp
  show ?thesis
  proof (cases "k @ d" rule: unescPart_forms)
    case 1
    then show ?thesis using k1(1) d by (cases k) auto
  next
    case kd2: (2 j r)
    have len: "length (unescPart (k @ d)) = length k + length d - 1"
      using arg_cong [OF kd2(1), of length] unfolding kd2(3) by simp
    show ?thesis
    proof (cases k rule: unescPart_forms)
      case 1
      then show ?thesis using kd2(1) by simp
    next
      case (2 i q)
      then show ?thesis using len d by (cases d) auto
    next
      case 3
      have le: "length (unescPart k) \<le> length k" by (rule length_unescPart)
      show ?thesis
      proof (cases "length d \<ge> 2")
        case True
        then show ?thesis using le len by simp
      next
        case False
        then obtain c where "d = [c]" using d by (cases d; cases "tl d") auto
        then have "k = butlast (BSL # replicate j BSL @ r)" using kd2(1) by (metis butlast_snoc)
        then have "k = replicate (Suc j) BSL \<or> k = BSL # replicate j BSL @ ''.''"
          using kd2(2) by (auto simp: butlast_append)
        moreover have "k \<noteq> BSL # replicate j BSL @ ''.''"
          using 3(1) unescBegin_replicate [of "''.''" "Suc j"] by auto
        ultimately have "k = replicate (Suc j) BSL" by blast
        then have "length (unescPart k) < length k"
          using 3(2) unescapeLoop_replicate [of "Suc j" "[]" 0] by simp
        then show ?thesis using len d by (cases d) auto
      qed
    qed
  next
    case kd3: 3
    show ?thesis
    proof (cases k rule: unescPart_forms)
      case 1
      then show ?thesis using kd3(2) by simp
    next
      case (2 i q)
      then show ?thesis using loop kd3(2) unescapeLoop_special [OF 2(2), of i] by simp
    next
      case 3
      then show ?thesis using loop kd3(2) by simp
    qed
  qed
qed



section \<open>keyIsBelow decides the proper prefix relation\<close>

text \<open>The bytes of an unescaped cascading name.\<close>

definition ub :: "string list \<Rightarrow> string" where
  "ub ls = NUL # concat (map (\<lambda>l. unescPart l @ [NUL]) ls)"

lemma ub_simps [simp]: "ub [] = [NUL]" "ub (l # ls) = NUL # unescPart l @ ub ls"
  by (simp_all add: ub_def)

lemma ub_not_Nil [simp]: "ub ls \<noteq> []"
  by (simp add: ub_def)

lemma mkuname_ub: "mkuname None ls = ub ls" "mkuname (Some r) ls = unescPart r @ ub ls"
  by (simp_all add: mkuname_def ub_def)

lemma nth_middle_shift: "i > 0 \<Longrightarrow> (NUL # u @ v) ! (length u + i) = v ! (i - 1)"
  by (cases i) (simp_all add: nth_append)

lemma level_prefix_split:
  assumes g: "good_level l" "good_level m" and pre: "take (length (l @ join ks)) (m @ join cs) = l @ join ks"
  obtains "l = m" "take (length (join ks)) (join cs) = join ks" | d where "ks = []" "m = l @ d" "d \<noteq> []"
proof -
  obtain z where z: "m @ join cs = l @ join ks @ z"
    using append_take_drop_id [of "length (l @ join ks)" "m @ join cs"] pre by (metis append_assoc)
  have jc: "join cs = [] \<or> hd (join cs) = SLASH" and jk: "join ks = [] \<or> hd (join ks) = SLASH"
    by (cases cs; simp) (cases ks; simp)
  have lenm: "snd (keyNameGetOneLevel (m @ join cs)) = length m"
    using keyNameGetOneLevel_one_level [OF good_level_one [OF g(2)] jc] by simp
  show thesis
  proof (cases "length l = length m")
    case True
    then show thesis using z that(1) by auto
  next
    case ne: False
    have "ks = []"
    proof (rule ccontr)
      assume "ks \<noteq> []"
      then have "hd (join ks @ z) = SLASH" using jk by (cases ks) auto
      then have "snd (keyNameGetOneLevel (l @ join ks @ z)) = length l"
        using keyNameGetOneLevel_one_level [OF good_level_one [OF g(1)], of "join ks @ z"] by simp
      then show False using z lenm ne by simp
    qed
    moreover have "length l < length m"
    proof (rule ccontr)
      assume "\<not> length l < length m"
      then have "length m < length l" using ne by simp
      then obtain y where y: "l = m @ y" "y \<noteq> []" using z \<open>ks = []\<close>
        by (auto simp: append_eq_append_conv2)
      then have "hd y = SLASH" using z \<open>ks = []\<close> jc by (cases y) auto
      then have "lvlen l 0 = length m"
        using keyNameGetOneLevel_one_level [OF good_level_one [OF g(2)], of y] y g(1)
        by (auto simp: keyNameGetOneLevel_eq good_level_def one_level_def dropWhile_hd_False neq_Nil_conv)
      then show False using g(1) \<open>length m < length l\<close> by (simp add: good_level_def one_level_def)
    qed
    ultimately show thesis using z that(2) by (auto simp: append_eq_append_conv2)
  qed
qed

lemma below_core:
  assumes "list_all good_level ks" "list_all good_level cs"
    "take (length (join ks)) (join cs) = join ks"
  shows "length (ub ks) \<le> length (ub cs) \<and>
    (ub cs ! (length (ub ks) - 1) = NUL \<and> length (ub ks) < length (ub cs) \<longleftrightarrow> strict_prefix ks cs)"
  using assms
proof (induction ks arbitrary: cs)
  case Nil
  then show ?case by (cases cs) auto
next
  case (Cons l ks)
  note pr = Cons.prems
  show ?case
  proof -
    from pr(3) obtain m cs' where cs: "cs = m # cs'" by (cases cs) auto
    with pr have g: "good_level l" "good_level m" and t: "take (length (l @ join ks)) (m @ join cs') = l @ join ks"
      by auto
    show ?thesis
    proof (rule level_prefix_split [OF g t])
      assume "l = m" and j: "take (length (join ks)) (join cs') = join ks"
      have "length (ub ks) \<le> length (ub cs') \<and> (ub cs' ! (length (ub ks) - 1) = NUL \<and> length (ub ks) < length (ub cs') \<longleftrightarrow> strict_prefix ks cs')"
        using pr cs j by (intro Cons.IH) auto
      then show ?thesis using cs \<open>l = m\<close> nth_middle_shift [of "length (ub ks)" "unescPart m" "ub cs'"]
        by simp
    next
      fix d assume d: "ks = []" "m = l @ d" "d \<noteq> []"
      have lt: "length (unescPart l) < length (unescPart m)"
        using unescPart_grows [OF g(1)] g(2) d by simp
      have "cstring (unescPart m)" using g(2) by (intro cstring_unescPart) (simp add: good_level_def)
      then have "unescPart m ! length (unescPart l) \<noteq> NUL" using lt by (auto simp: cstring_def dest: nth_mem)
      then have "ub cs ! (length (ub (l # ks)) - 1) \<noteq> NUL" using lt cs d(1) by (simp add: nth_append)
      then show ?thesis using d cs lt by auto
    qed
  qed
qed

lemma strict_prefix_join: "strict_prefix ks cs \<Longrightarrow> take (length (join ks)) (join cs) = join ks"
  by (auto simp: strict_prefix_def prefix_def)



lemma belowEnd_at:
  assumes "off = int (length pre)" "0 < n" "n \<le> length u"
  shows "belowEnd (pre @ u) off (int n) sz = Some (if u ! (n - 1) = NUL \<and> sz > int n then 1 else 0)"
proof -
  obtain m where n: "n = Suc m" using assms(2) by (cases n) auto
  then have "off + int n - 1 = int (length pre + m)" using assms(1) by simp
  then have "rd (pre @ u) (off + int n - 1) = Some (u ! m)"
    using assms(3) n by (simp only: rd_def nat_int) simp
  then show ?thesis using n by (simp add: belowEnd_def)
qed

lemma strend_at:
  "off = int (length pre) \<Longrightarrow> cstring u \<Longrightarrow> strend (pre @ u @ NUL # v) off = Some (off + int (length u))"
  by (simp add: strend_def)

text \<open>\<open>keyIsBelow\<close> on keys that have names, with the reads of the keys done.\<close>

lemma keyIsBelow_unfold:
  assumes "key k = Some kn" "key c = Some cn" "keyGetNameSize (Some k) = int (length kn + 1)"
    "keyGetNameSize (Some c) = int (length cn + 1)" "keyGetUnescapedNameSize (Some k) = int ku"
    "keyGetUnescapedNameSize (Some c) = int cu" "ubuf k = (kn @ NUL # kun, int (length kn + 1))"
    "ubuf c = (cn @ NUL # cun, int (length cn + 1))"
  shows "keyIsBelow (Some k) (Some c) =
    (let cbuf = cn @ NUL # cun; coff = 1 + int (length cn);
         belowTest = \<lambda>kn cn off ku cu.
           (if strncmp kn cn (length kn) = 0 then belowEnd cbuf off ku cu else Some 0)
     in if cn = [SLASH] then Some 0
        else if kn = [SLASH] then Some (if hd0 cn = SLASH \<or> SLASH \<in> set cn then 1 else 0)
        else if (hd0 cn = SLASH) = (hd0 kn = SLASH) then belowTest kn cn coff (int ku) (int cu)
        else if hd0 cn = SLASH then
          (let sz = snd (keyNameGetOneLevel kn) in
           if sz = length kn + 1 then Some 1
           else do { ptr \<leftarrow> strend (kn @ NUL # kun) (1 + int (length kn));
                     belowTest (drop sz kn) cn coff (int ku - (ptr - (1 + int (length kn)))) (int cu) })
        else
          (let sz = snd (keyNameGetOneLevel cn) in
           if sz = length cn + 1 then Some 0
           else do { ptr \<leftarrow> strend cbuf coff;
                     belowTest kn (drop sz cn) ptr (int ku) (int cu - (ptr - coff)) }))"
  using assms by (auto simp: keyIsBelow_def Let_def elektraStrLen_def split: prod.split)

text \<open>The fields of a canonical name that the tests read.\<close>

lemma named_fields:
  assumes "named k root ls"
  shows "key k = Some (mkname root ls)" "ubuf k = (mkname root ls @ NUL # mkuname root ls, int (length (mkname root ls) + 1))"
    "keyGetNameSize (Some k) = int (length (mkname root ls) + 1)"
    "keyGetUnescapedNameSize (Some k) = int (length (mkuname root ls))"
    "keyName (Some k) = Some (mkname root ls)" "good_levels root ls"
  using assms
  by (simp_all add: named_def ubuf_def keyBuf_def keyGetNameSize_def keyGetUnescapedNameSize_def keyName_def)

lemma hd0_mkname: "good_levels root ls \<Longrightarrow> hd0 (mkname root ls) = SLASH \<longleftrightarrow> root = None"
  using hd_mkname [of root ls] mkname_not_Nil [of root ls] by (simp add: hd0_def)

lemma level_of_root:
  assumes "good_levels (Some r) ls"
  shows "snd (keyNameGetOneLevel (mkname (Some r) ls)) = length r"
    "drop (length r) (mkname (Some r) ls) = join ls" "length r \<noteq> length (mkname (Some r) ls) + 1"
  using assms keyNameGetOneLevel_one_level [of r "join ls"] by (cases ls; auto simp: mkname_def)+

lemma belowEnd_core:
  assumes g: "list_all good_level ks" "list_all good_level cs" and off: "off = int (length pre)"
  shows "(if strncmp (join ks) (join cs) (length (join ks)) = 0
          then belowEnd (pre @ ub cs) off (int (length (ub ks))) (int (length (ub cs))) else Some 0)
        = Some (if strict_prefix ks cs then 1 else 0)"
proof (cases "take (length (join ks)) (join cs) = join ks")
  case True
  then show ?thesis using below_core [OF g True] belowEnd_at [OF off, of "length (ub ks)" "ub cs"]
    by (simp add: strncmp_0_iff)
next
  case False
  then show ?thesis using strict_prefix_join by (auto simp: strncmp_0_iff)
qed

definition root_uname :: "string option \<Rightarrow> string" where
  "root_uname root = (case root of None \<Rightarrow> [] | Some r \<Rightarrow> unescPart r)"

lemma keyIsBelow_named:
  assumes k: "named k kr ks" and c: "named c cr cs" and s: "\<And>r. kr = None \<Longrightarrow> ks = [] \<Longrightarrow> cr = Some r \<Longrightarrow> SLASH \<notin> set r"
  shows "keyIsBelow (Some k) (Some c) =
    Some (if (kr = None \<or> cr = None \<or> kr = cr) \<and> strict_prefix ks cs then 1 else 0)"
proof -
  note fk = named_fields [OF k] and fc = named_fields [OF c]
  note un = keyIsBelow_unfold [OF fk(1) fc(1) fk(3) fc(3) fk(4) fc(4) fk(2) fc(2)]
    hd0_mkname [OF fk(6)] hd0_mkname [OF fc(6)] mkname_root_iff [OF fk(6)] mkname_root_iff [OF fc(6)]
  have gl: "list_all good_level ks" "list_all good_level cs"
    using fk(6) fc(6) by (cases kr; cases cr; simp)+
  define test where "test = (\<lambda>pre. if strncmp (join ks) (join cs) (length (join ks)) = 0
    then belowEnd (pre @ ub cs) (int (length pre)) (int (length (ub ks))) (int (length (ub cs))) else Some 0)"
  have core: "test pre = Some (if strict_prefix ks cs then 1 else 0)" for pre
    unfolding test_def by (rule belowEnd_core [OF gl refl])
  have nk: "mkname kr ks = root_name kr @ join ks" "mkuname kr ks = root_uname kr @ ub ks"
    if "kr \<noteq> None \<or> ks \<noteq> []"
    using that by (auto simp: mkname_def root_name_def root_uname_def mkuname_ub split: option.split)
  have nc: "mkname cr cs = root_name cr @ join cs" "mkuname cr cs = root_uname cr @ ub cs"
    if "cr \<noteq> None \<or> cs \<noteq> []"
    using that by (auto simp: mkname_def root_name_def root_uname_def mkuname_ub split: option.split)
  consider "cr = None \<and> cs = []" | "kr = None \<and> ks = []" "\<not> (cr = None \<and> cs = [])"
    | (cc) "kr = None" "cr = None" "ks \<noteq> []" "cs \<noteq> []"
    | (rc) r where "kr = Some r" "cr = None" "cs \<noteq> []" | (cr) t where "kr = None" "ks \<noteq> []" "cr = Some t"
    | (rr) r t where "kr = Some r" "cr = Some t" by (cases kr; cases cr) auto
  then show ?thesis
  proof cases
    case 1
    then have "mkname cr cs = [SLASH]" by (simp add: mkname_def)
    then show ?thesis using 1 by (simp add: un(1))
  next
    case 2
    moreover have "mkname kr ks = [SLASH]" "mkname cr cs \<noteq> [SLASH]" using 2 un by (simp_all add: mkname_def)
    moreover have "cs \<noteq> [] \<Longrightarrow> SLASH \<in> set (mkname cr cs)" by (cases cs; cases cr) (auto simp: mkname_def)
    moreover have "cs = [] \<Longrightarrow> SLASH \<notin> set (mkname cr cs)" using s 2 by (cases cr) (auto simp: mkname_def)
    ultimately show ?thesis using un(3) by (cases "cs = []"; cases cr) (auto simp: un(1) strict_prefix_def)
  next
    case cc
    then have "keyIsBelow (Some k) (Some c) = test (join cs @ [NUL])"
      using un nk nc by (simp add: Let_def test_def root_name_def root_uname_def)
    then show ?thesis using cc core by simp
  next
    case rc
    then have "cstring (unescPart r)" using fk(6) by (auto intro: cstring_unescPart simp: good_level_def)
    then have "strend (mkname kr ks @ NUL # mkuname kr ks) (1 + int (length (mkname kr ks)))
        = Some (1 + int (length (mkname kr ks)) + int (length (unescPart r)))"
      using rc strend_at [of _ "mkname kr ks @ [NUL]" "unescPart r" "concat (map (\<lambda>l. unescPart l @ [NUL]) ks)"]
      by (simp add: mkuname_ub ub_def)
    then have "keyIsBelow (Some k) (Some c) = test (join cs @ [NUL])"
      using rc un nk nc level_of_root [of r ks] fk(6)
      by (simp add: Let_def test_def root_name_def root_uname_def)
    then show ?thesis using rc core by simp
  next
    case cr
    then have "cstring (unescPart t)" using fc(6) by (auto intro: cstring_unescPart simp: good_level_def)
    then have "strend (mkname cr cs @ NUL # mkuname cr cs) (1 + int (length (mkname cr cs)))
        = Some (1 + int (length (mkname cr cs)) + int (length (unescPart t)))"
      using cr strend_at [of _ "mkname cr cs @ [NUL]" "unescPart t" "concat (map (\<lambda>l. unescPart l @ [NUL]) cs)"]
      by (simp add: mkuname_ub ub_def)
    then have "keyIsBelow (Some k) (Some c) = test (mkname cr cs @ NUL # unescPart t)"
      using cr un nk nc level_of_root [of t cs] fc(6)
      by (simp add: Let_def test_def root_name_def root_uname_def add.assoc)
    then show ?thesis using cr core by simp
  next
    case rr
    then have g': "list_all good_level (r # ks)" "list_all good_level (t # cs)" using fk(6) fc(6) by simp_all
    define u where "u = mkuname cr cs"
    have e: "SLASH # mkname kr ks = join (r # ks)" "SLASH # mkname cr cs = join (t # cs)"
      "length (ub (r # ks)) = Suc (length (mkuname kr ks))" "ub (t # cs) = NUL # u"
      using rr by (simp_all add: mkname_def mkuname_ub u_def)
    have s: "strncmp (mkname kr ks) (mkname cr cs) (length (mkname kr ks)) = 0 \<longleftrightarrow>
      take (length (join (r # ks))) (join (t # cs)) = join (r # ks)"
      unfolding strncmp_0_iff by (simp only: e(1,2) [symmetric]) auto
    have "keyIsBelow (Some k) (Some c) = Some (if strict_prefix (r # ks) (t # cs) then 1 else 0)"
    proof (cases "take (length (join (r # ks))) (join (t # cs)) = join (r # ks)")
      case True
      have n0: "0 < length (mkuname kr ks)" using rr by (simp add: mkuname_ub)
      have "keyIsBelow (Some k) (Some c)
        = belowEnd ((mkname cr cs @ [NUL]) @ u) (1 + int (length (mkname cr cs))) (int (length (mkuname kr ks))) (int (length u))"
        using rr un True s by (simp add: u_def Let_def)
      also have "\<dots> = Some (if u ! (length (mkuname kr ks) - 1) = NUL \<and> int (length u) > int (length (mkuname kr ks)) then 1 else 0)"
        using n0 below_core [OF g' True] e by (intro belowEnd_at) auto
      finally show ?thesis using below_core [OF g' True] n0 unfolding e(3,4) by (simp add: nth_Cons')
    next
      case False
      then have "keyIsBelow (Some k) (Some c) = Some 0" using rr un s by (simp add: Let_def)
      then show ?thesis using False strict_prefix_join by auto
    qed
    then show ?thesis using rr by auto
  qed
qed


section \<open>keyIsDirectBelow: exactly one more level\<close>

lemma strict_prefix_split: "strict_prefix ks cs \<Longrightarrow> \<exists>x ys. cs = ks @ x # ys"
  by (auto simp: strict_prefix_def prefix_def) (metis append_Nil2 list.exhaust)

lemma ub_append: "ub (ks @ x # ys) = ub ks @ unescPart x @ NUL # concat (map (\<lambda>l. unescPart l @ [NUL]) ys)"
  by (simp add: ub_def)

text \<open>
  The code skips the unescaped name of \<open>key\<close> in that of \<open>check\<close> and looks whether one more
  string ends it. For a \<open>key\<close> with a namespace and a cascading \<open>check\<close> it skips too much; that
  case is excluded here.
\<close>

lemma keyIsDirectBelow_named:
  assumes k: "named k kr ks" and c: "named c cr cs" and s: "\<And>r. kr = None \<Longrightarrow> ks = [] \<Longrightarrow> cr = Some r \<Longrightarrow> SLASH \<notin> set r"
    and r: "kr = None \<or> cr \<noteq> None"
  shows "keyIsDirectBelow (Some k) (Some c) =
    Some (if (kr = None \<or> kr = cr) \<and> (\<exists>x. cs = ks @ [x]) then 1 else 0)"
proof -
  have below: "keyIsBelow (Some k) (Some c) =
      Some (if (kr = None \<or> cr = None \<or> kr = cr) \<and> strict_prefix ks cs then 1 else 0)"
    by (rule keyIsBelow_named [OF k c]) (rule s)
  show ?thesis
proof (cases "(kr = None \<or> cr = None \<or> kr = cr) \<and> strict_prefix ks cs")
  case False
  have "keyIsBelow (Some k) (Some c) = Some 0" using below by (simp only: False if_False)
  moreover have "\<not> ((kr = None \<or> kr = cr) \<and> (\<exists>x. cs = ks @ [x]))" using False by (auto simp: strict_prefix_def)
  ultimately show ?thesis by (simp add: keyIsDirectBelow_def)
next
  case True
  then have sp: "strict_prefix ks cs" by blast
  then obtain x ys where cs: "cs = ks @ x # ys" using strict_prefix_split by blast
  note fk = named_fields [OF k] and fc = named_fields [OF c]
  have h: "hd0 (mkname kr ks) = SLASH \<longleftrightarrow> kr = None" "hd0 (mkname cr cs) = SLASH \<longleftrightarrow> cr = None"
    using hd0_mkname fk(6) fc(6) by auto
  have rel: "kr = None \<or> kr = cr" using True r by auto
  have cx: "cstring (unescPart x)" using fc(6) cs
    by (cases cr) (auto intro: cstring_unescPart simp: good_level_def)
  define rest where "rest = concat (map (\<lambda>l. unescPart l @ [NUL]) ys)"
  define pre where "pre = mkname cr cs @ NUL # root_uname cr @ ub ks"
  have buf: "mkname cr cs @ NUL # mkuname cr cs = pre @ unescPart x @ NUL # rest"
    by (cases cr) (simp_all add: pre_def cs mkuname_ub ub_append rest_def root_uname_def)
  have len: "length (mkuname cr cs) = length (root_uname cr @ ub ks) + length (unescPart x) + 1 + length rest"
    by (cases cr) (simp_all add: cs mkuname_ub ub_append rest_def root_uname_def)
  have se: "strend (mkname cr cs @ NUL # mkuname cr cs) (int (length pre)) = Some (int (length pre + length (unescPart x)))"
    unfolding buf using strend_at [OF refl cx, of pre rest] by simp
  have root: "strend (mkname cr cs @ NUL # mkuname cr cs) (1 + int (length (mkname cr cs)))
      = Some (1 + int (length (mkname cr cs)) + int (length (root_uname cr)))" if "cr \<noteq> None"
  proof -
    from that obtain t where t: "cr = Some t" by auto
    then have "cstring (unescPart t)" using fc(6) by (auto intro: cstring_unescPart simp: good_level_def)
    then show ?thesis
      using t strend_at [of _ "mkname cr cs @ [NUL]" "unescPart t" "concat (map (\<lambda>l. unescPart l @ [NUL]) cs)"]
      by (simp add: mkuname_ub ub_def root_uname_def)
  qed
  have rest0: "rest = [] \<longleftrightarrow> ys = []" by (simp add: rest_def)
  have "keyIsDirectBelow (Some k) (Some c) = Some (if rest = [] then 1 else 0)"
  proof (cases "kr = None \<and> cr \<noteq> None")
    case True
    have "1 + int (length (mkname cr cs)) + int (length (root_uname cr)) + int (length (mkuname kr ks)) = int (length pre)"
      using True by (simp add: pre_def mkuname_ub)
    then show ?thesis using below True sp fk fc h root se len
      by (simp add: keyIsDirectBelow_def pre_def mkuname_ub add.assoc)
  next
    case False
    then have "kr = cr" using rel by auto
    moreover have "1 + int (length (mkname cr cs)) + int (length (mkuname cr ks)) = int (length pre)"
      by (cases cr) (simp_all add: pre_def mkuname_ub root_uname_def)
    ultimately show ?thesis using below sp fk fc h se len
      by (cases cr; cases "rest = []"; simp add: keyIsDirectBelow_def pre_def add.assoc)
  qed
  then show ?thesis using rel rest0 cs by auto
qed
qed


end
