(* ===== verification/KeySetBase.thy ===== *)
theory KeySetBase
  imports KeyData
begin

text \<open>
  The operations of \<open>src/libs/elektra/keyset.c\<close>, \<open>internal.c\<close> and \<open>proposal.c\<close> that touch only the
  keyset itself: allocation and resizing of its array, the internal cursor, cutting and popping slots.

  A \<open>KeySet *\<close> argument of an operation that the C code tests for \<open>NULL\<close> first is a
  \<open>KeySet option\<close>; the inner operations take a \<open>KeySet\<close>. An outer \<open>None\<close> result is a read
  or write outside the array, or a read of a slot that was never written.
\<close>

named_theorems ks_defs \<open>operations that touch only the keyset record\<close>

section \<open>The array\<close>

definition slots :: "KeySet \<Rightarrow> slot list" where
  "slots ks = (case array ks of None \<Rightarrow> [] | Some ar \<Rightarrow> ar)"

definition rdArr :: "KeySet \<Rightarrow> nat \<Rightarrow> addr option option" where
  "rdArr ks i = (if i < length (slots ks)
     then (case slots ks ! i of Junk \<Rightarrow> None | Null \<Rightarrow> Some None | Ptr a \<Rightarrow> Some (Some a))
     else None)"

definition wrArr :: "KeySet \<Rightarrow> nat \<Rightarrow> slot \<Rightarrow> KeySet option" where
  "wrArr ks i s = (if i < length (slots ks) then Some (ks\<lparr>array := Some ((slots ks)[i := s])\<rparr>) else None)"

text \<open>\<open>memmove\<close> of \<open>n\<close> slots inside the array (\<open>elektraMemmove\<close> of \<open>internal.c\<close>).\<close>

definition elektraMemmove :: "slot list \<Rightarrow> nat \<Rightarrow> nat \<Rightarrow> nat \<Rightarrow> slot list option" where
  "elektraMemmove ar to from n =
     (if to + n \<le> length ar \<and> from + n \<le> length ar
      then Some (take to ar @ take n (drop from ar) @ drop (to + n) ar) else None)"

text \<open>\<open>memcpy\<close> of \<open>n\<close> slots into the start of another array (\<open>elektraMemcpy\<close>).\<close>

definition elektraMemcpy :: "slot list \<Rightarrow> slot list \<Rightarrow> nat \<Rightarrow> slot list option" where
  "elektraMemcpy ar1 ar2 n =
     (if n \<le> length ar1 \<and> n \<le> length ar2 then Some (take n ar2 @ drop n ar1) else None)"

section \<open>Creating and resizing\<close>

definition ksRewind :: "KeySet \<Rightarrow> KeySet" where
  [ks_defs]: "ksRewind ks = ks\<lparr>cursor := None, current := 0\<rparr>"

definition ksInit :: KeySet where
  "ksInit = \<lparr>array = None, ks_size = 0, alloc = 0, cursor = None, current = 0, ks_flags = 0\<rparr>"

text \<open>\<open>ksVNew\<close> up to the loop over its arguments; \<open>a\<close> is the argument \<open>alloc\<close>.\<close>

definition ksVNewEmpty :: "nat \<Rightarrow> KeySet" where
  "ksVNewEmpty a =
     (let a1 = a + 1; n = (if a1 < KEYSET_SIZE then KEYSET_SIZE else a1)
      in ksInit\<lparr>alloc := n, array := Some ((replicate n Junk)[0 := Null])\<rparr>)"

definition ksResize :: "KeySet option \<Rightarrow> nat \<Rightarrow> int \<times> KeySet option" where
  "ksResize k a = (case k of None \<Rightarrow> (-1, None)
     | Some ks \<Rightarrow>
        let a1 = a + 1 in
        if a1 = alloc ks then (1, Some ks)
        else if a1 < ks_size ks then (0, Some ks)
        else if a1 < KEYSET_SIZE \<and> alloc ks = KEYSET_SIZE then (0, Some ks)
        else
          let a2 = (if a1 < KEYSET_SIZE then KEYSET_SIZE else a1);
              ks1 = (if array ks = None
                     then ks\<lparr>alloc := a2, ks_size := 0, array := Some (replicate a2 Junk)\<rparr> else ks);
              ks2 = ks1\<lparr>alloc := a2\<rparr>;
              ar = slots ks2
          in (1, Some (ks2\<lparr>array := Some (take a2 ar @ replicate (a2 - length ar) Junk)\<rparr>)))"

definition ksGetAlloc :: "KeySet \<Rightarrow> int" where
  "ksGetAlloc ks = int (alloc ks) - 1"

definition ksGetSize :: "KeySet option \<Rightarrow> int" where
  "ksGetSize k = (case k of None \<Rightarrow> -1 | Some ks \<Rightarrow> int (ks_size ks))"

definition ksNeedSync :: "KeySet option \<Rightarrow> int" where
  "ksNeedSync k = (case k of None \<Rightarrow> -1
     | Some ks \<Rightarrow> if ks_flags ks AND KS_FLAG_SYNC = KS_FLAG_SYNC then 1 else 0)"

section \<open>The internal cursor\<close>

definition ksNext :: "KeySet \<Rightarrow> (addr option \<times> KeySet) option" where
  "ksNext ks =
     (if ks_size ks = 0 then Some (None, ks)
      else if current ks \<ge> ks_size ks then Some (None, ks)
      else let c = (if cursor ks \<noteq> None then current ks + 1 else current ks)
           in do { p \<leftarrow> rdArr ks c; Some (p, ks\<lparr>current := c, cursor := p\<rparr>) })"

definition ksCurrent :: "KeySet option \<Rightarrow> addr option" where
  "ksCurrent k = (case k of None \<Rightarrow> None | Some ks \<Rightarrow> cursor ks)"

definition ksHead :: "KeySet option \<Rightarrow> addr option option" where
  "ksHead k = (case k of None \<Rightarrow> Some None
     | Some ks \<Rightarrow> if ks_size ks > 0 then rdArr ks 0 else Some None)"

definition ksTail :: "KeySet option \<Rightarrow> addr option option" where
  "ksTail k = (case k of None \<Rightarrow> Some None
     | Some ks \<Rightarrow> if ks_size ks > 0 then rdArr ks (ks_size ks - 1) else Some None)"

definition ksGetCursor :: "KeySet option \<Rightarrow> int" where
  "ksGetCursor k = (case k of None \<Rightarrow> -1
     | Some ks \<Rightarrow> if cursor ks = None then -1 else int (current ks))"

definition ksAtCursor :: "KeySet option \<Rightarrow> int \<Rightarrow> addr option option" where
  "ksAtCursor k pos = (case k of None \<Rightarrow> Some None
     | Some ks \<Rightarrow> if pos < 0 then Some None
                 else if ks_size ks < nat pos then Some None
                 else rdArr ks (nat pos))"

definition ksSetCursor :: "KeySet \<Rightarrow> int \<Rightarrow> KeySet option" where
  "ksSetCursor ks c =
     (if c = -1 then Some (ksRewind ks)
      else if c < 0 then None
      else do { p \<leftarrow> rdArr ks (nat c); Some (ks\<lparr>current := nat c, cursor := p\<rparr>) })"

definition elektraKsPrev :: "KeySet \<Rightarrow> (addr option \<times> KeySet) option" where
  "elektraKsPrev ks =
     (if ks_size ks = 0 then Some (None, ks)
      else if current ks \<le> 0 then Some (None, ksRewind ks)
      else do { p \<leftarrow> rdArr ks (current ks - 1);
                Some (p, ks\<lparr>current := current ks - 1, cursor := p\<rparr>) })"

text \<open>
  \<open>elektraKsToMemArray\<close> on a buffer of the keyset's size: the keys the loop writes to it; \<open>n\<close>
  bounds the turns of the loop.
\<close>

fun memArrayLoop :: "nat \<Rightarrow> KeySet \<Rightarrow> addr list \<Rightarrow> (addr list \<times> KeySet) option" where
  "memArrayLoop 0 ks acc = None"
| "memArrayLoop (Suc n) ks acc =
     do { (k, ks') \<leftarrow> ksNext ks;
          case k of None \<Rightarrow> Some (acc, ks') | Some a \<Rightarrow> memArrayLoop n ks' (acc @ [a]) }"

definition elektraKsToMemArray :: "KeySet \<Rightarrow> (int \<times> addr list \<times> KeySet) option" where
  "elektraKsToMemArray ks =
     do { (buffer, ks1) \<leftarrow> memArrayLoop (ks_size ks + 1) (ksRewind ks) [];
          ks2 \<leftarrow> ksSetCursor ks1 (ksGetCursor (Some ks));
          Some (int (length buffer), buffer, ks2) }"

section \<open>Cutting slots out\<close>

definition ksCopyInternal :: "KeySet \<Rightarrow> nat \<Rightarrow> nat \<Rightarrow> KeySet option" where
  "ksCopyInternal ks to from =
     (if ks_size ks < from \<or> ks_size ks < to then None
      else
        let len = ks_size ks - from;
            newsize = ks_size ks + to - from
        in do { ar \<leftarrow> (if len \<noteq> 0 then elektraMemmove (slots ks) to from len else Some (slots ks));
                wrArr (ks\<lparr>array := Some ar, ks_size := newsize\<rparr>) newsize Null })"


section \<open>The keys of a keyset\<close>

text \<open>
  \<open>repr ks xs\<close>: the slots up to \<open>size\<close> hold the keys \<open>xs\<close>, a \<open>NULL\<close> follows, and \<open>alloc\<close> is the
  length of the array. Every public operation keeps some \<open>repr\<close>.
\<close>

definition repr :: "KeySet \<Rightarrow> addr list \<Rightarrow> bool" where
  "repr ks xs \<longleftrightarrow> (\<exists>rest. array ks = Some (map Ptr xs @ Null # rest))
     \<and> ks_size ks = length xs \<and> alloc ks = length (slots ks)"

text \<open>The cursor is unset, or at the key it says.\<close>

definition cursor_ok :: "KeySet \<Rightarrow> addr list \<Rightarrow> bool" where
  "cursor_ok ks xs \<longleftrightarrow> (case cursor ks of None \<Rightarrow> current ks = 0
     | Some a \<Rightarrow> current ks < length xs \<and> xs ! current ks = a)"

definition cursor_in :: "KeySet \<Rightarrow> addr list \<Rightarrow> bool" where
  "cursor_in ks xs \<longleftrightarrow> (cursor ks \<noteq> None \<longrightarrow> current ks < length xs)"

lemma reprI:
  "array ks = Some (map Ptr xs @ Null # rest) \<Longrightarrow> ks_size ks = length xs \<Longrightarrow>
   alloc ks = length xs + 1 + length rest \<Longrightarrow> repr ks xs"
  by (auto simp: repr_def slots_def)

lemma reprE:
  assumes "repr ks xs"
  obtains rest where "array ks = Some (map Ptr xs @ Null # rest)" "slots ks = map Ptr xs @ Null # rest"
    "ks_size ks = length xs" "alloc ks = length xs + 1 + length rest"
  using assms by (auto simp: repr_def slots_def)

lemma repr_size: "repr ks xs \<Longrightarrow> ks_size ks = length xs"
  by (simp add: repr_def)

lemma repr_alloc: "repr ks xs \<Longrightarrow> length xs < alloc ks"
  by (auto elim!: reprE)

lemma repr_unique: "repr ks xs \<Longrightarrow> repr ks ys \<Longrightarrow> xs = ys"
proof -
  assume a: "repr ks xs" "repr ks ys"
  then have "length xs = length ys" by (simp add: repr_def)
  moreover have "map Ptr xs = take (length xs) (slots ks)" "map Ptr ys = take (length ys) (slots ks)"
    using a by (auto elim!: reprE)
  ultimately have "map Ptr xs = map Ptr ys" by simp
  then show ?thesis by (rule map_injective) (simp add: inj_on_def)
qed

lemma rdArr_repr: "repr ks xs \<Longrightarrow> i < length xs \<Longrightarrow> rdArr ks i = Some (Some (xs ! i))"
  by (auto elim!: reprE simp: rdArr_def nth_append)

lemma rdArr_end: "repr ks xs \<Longrightarrow> rdArr ks (length xs) = Some None"
  by (auto elim!: reprE simp: rdArr_def nth_append)

lemma repr_cursor [simp]:
  "repr (ks\<lparr>cursor := c\<rparr>) xs = repr ks xs" "repr (ks\<lparr>current := n\<rparr>) xs = repr ks xs"
  "repr (ks\<lparr>ks_flags := f\<rparr>) xs = repr ks xs"
  by (simp_all add: repr_def slots_def)

lemma repr_ksRewind [simp]: "repr (ksRewind ks) xs = repr ks xs"
  by (simp add: ksRewind_def)

lemma cursor_ok_ksRewind [simp]: "cursor_ok (ksRewind ks) xs"
  by (simp add: ksRewind_def cursor_ok_def)

lemma ksVNewEmpty_repr: "repr (ksVNewEmpty a) []" "cursor_ok (ksVNewEmpty a) xs"
proof -
  have "(replicate (Suc n) Junk)[0 := Null] = map Ptr [] @ Null # replicate n Junk" for n by simp
  moreover obtain n where "(if a + 1 < KEYSET_SIZE then KEYSET_SIZE else a + 1) = Suc n"
    by (cases "a + 1 < KEYSET_SIZE") (auto simp: KEYSET_SIZE_def)
  ultimately show "repr (ksVNewEmpty a) []"
    unfolding ksVNewEmpty_def Let_def
    by (intro reprI [of _ _ "replicate n Junk"]) (simp_all only: , simp_all add: ksInit_def)
  show "cursor_ok (ksVNewEmpty a) xs" by (simp add: ksVNewEmpty_def Let_def ksInit_def cursor_ok_def)
qed

text \<open>\<open>ksResize\<close> keeps the keys when the new array has room for them and the \<open>NULL\<close>.\<close>

lemma ksResize_repr:
  assumes "repr ks xs" "length xs \<le> a"
  obtains r ks' where "ksResize (Some ks) a = (r, Some ks')" "repr ks' xs" "cursor ks' = cursor ks"
    "current ks' = current ks" "ks_flags ks' = ks_flags ks"
    "alloc ks' \<ge> a + 1" "alloc ks' \<ge> min (alloc ks) KEYSET_SIZE"
proof -
  from assms(1) obtain rest where r: "array ks = Some (map Ptr xs @ Null # rest)"
    "slots ks = map Ptr xs @ Null # rest" "ks_size ks = length xs" "alloc ks = length xs + 1 + length rest"
    by (rule reprE)
  show thesis
  proof (cases "a + 1 = alloc ks \<or> a + 1 < KEYSET_SIZE \<and> alloc ks = KEYSET_SIZE")
    case True
    then show thesis using assms r that [of _ ks] by (auto simp: ksResize_def Let_def)
  next
    case False
    define a2 where "a2 = (if a + 1 < KEYSET_SIZE then KEYSET_SIZE else a + 1)"
    define ks' where "ks' = ks\<lparr>alloc := a2, array := Some (take a2 (slots ks) @ replicate (a2 - length (slots ks)) Junk)\<rparr>"
    have a2: "length xs < a2" "a + 1 \<le> a2" using assms(2) by (simp_all add: a2_def)
    then have "take a2 (slots ks) = map Ptr xs @ Null # take (a2 - length xs - 1) rest"
      using r(2) by (cases "a2 - length xs") auto
    then have "repr ks' xs" using r a2
      by (intro reprI [of _ _ "take (a2 - length xs - 1) rest @ replicate (a2 - length (slots ks)) Junk"])
        (auto simp: ks'_def min_def)
    moreover have "ksResize (Some ks) a = (1, Some ks')"
      using False assms(2) r unfolding ksResize_def
      by (simp add: Let_def ks'_def a2_def slots_def)
    moreover have "min (alloc ks) KEYSET_SIZE \<le> a2" by (auto simp: a2_def)
    ultimately show thesis using that [of 1 ks'] a2 by (simp add: ks'_def)
  qed
qed

text \<open>At \<open>length xs = a + 1\<close> it cuts the \<open>NULL\<close> off.\<close>

lemma ksCopyInternal_repr:
  assumes "repr ks xs" "to \<le> from" "from \<le> length xs"
  obtains ks' where "ksCopyInternal ks to from = Some ks'" "repr ks' (take to xs @ drop from xs)"
    "cursor ks' = cursor ks" "current ks' = current ks" "ks_flags ks' = ks_flags ks" "alloc ks' = alloc ks"
proof -
  from assms(1) obtain rest where r: "array ks = Some (map Ptr xs @ Null # rest)"
    "slots ks = map Ptr xs @ Null # rest" "ks_size ks = length xs" "alloc ks = length xs + 1 + length rest"
    by (rule reprE)
  let ?ys = "take to xs @ drop from xs" and ?n = "length xs - from"
  let ?ar = "take to (slots ks) @ take ?n (drop from (slots ks)) @ drop (to + ?n) (slots ks)"
  have ar: "?ar = map Ptr ?ys @ drop (to + ?n) (map Ptr xs @ [Null]) @ rest"
  proof -
    have "take to (slots ks) = map Ptr (take to xs)" using r assms by (simp add: take_map)
    moreover have "take ?n (drop from (slots ks)) = map Ptr (drop from xs)" using r assms by (simp add: drop_map)
    moreover have "drop (to + ?n) (slots ks) = drop (to + ?n) (map Ptr xs @ [Null]) @ rest"
      using r assms by simp
    ultimately show ?thesis by simp
  qed
  obtain z zs where z: "drop (to + ?n) (map Ptr xs @ [Null]) @ rest = z # zs"
    using assms by (cases "drop (to + ?n) (map Ptr xs @ [Null]) @ rest") auto
  have len: "length (z # zs) + (to + ?n) = length (slots ks)" using z r assms by (simp flip: z)
  define ks' where "ks' = ks\<lparr>array := Some (map Ptr ?ys @ Null # zs), ks_size := to + ?n\<rparr>"
  have l: "length ?ys = to + ?n" using assms by simp
  have "repr ks' ?ys" using l len r by (intro reprI [of _ _ zs]) (auto simp: ks'_def)
  moreover have "ksCopyInternal ks to from = Some ks'"
  proof -
    have moved: "(if ?n \<noteq> 0 then elektraMemmove (slots ks) to from ?n else Some (slots ks))
        = Some (map Ptr ?ys @ z # zs)"
    proof (cases "?n = 0")
      case True
      then have "take to (slots ks) @ drop to (slots ks) = map Ptr ?ys @ z # zs"
        using ar unfolding z by simp
      then show ?thesis using True by simp
    next
      case False
      then show ?thesis using ar assms r unfolding z by (simp add: elektraMemmove_def)
    qed
    have "(map Ptr ?ys @ z # zs)[to + ?n := Null] = map Ptr ?ys @ Null # zs"
      using l by (metis length_map list_update_length)
    moreover have "ks_size ks + to - from = to + ?n" using r assms by simp
    moreover have "to + ?n < length (map Ptr ?ys @ z # zs)" using l by simp
    ultimately have "wrArr (ks\<lparr>array := Some (map Ptr ?ys @ z # zs), ks_size := ks_size ks + to - from\<rparr>)
        (ks_size ks + to - from) Null = Some ks'"
      by (simp add: wrArr_def slots_def ks'_def)
    moreover have "\<not> (ks_size ks < from \<or> ks_size ks < to)" using assms r(3) by simp
    ultimately show ?thesis unfolding ksCopyInternal_def Let_def moved [folded r(3)] by simp
  qed
  ultimately show thesis using that by (auto simp: ks'_def)
qed

section \<open>Iteration\<close>

text \<open>From a rewound cursor \<open>ksNext\<close> delivers the keys in order, then \<open>NULL\<close>.\<close>

lemma ksNext_first: "repr ks xs \<Longrightarrow> cursor ks = None \<Longrightarrow> current ks = 0 \<Longrightarrow> xs = x # ys \<Longrightarrow>
  ksNext ks = Some (Some x, ks\<lparr>cursor := Some x\<rparr>)"
  using rdArr_repr [of ks xs 0] repr_size [of ks xs] by (simp add: ksNext_def)

lemma ksNext_next: "repr ks xs \<Longrightarrow> cursor ks = Some a \<Longrightarrow> Suc (current ks) < length xs \<Longrightarrow>
  ksNext ks = Some (Some (xs ! Suc (current ks)), ks\<lparr>current := Suc (current ks), cursor := Some (xs ! Suc (current ks))\<rparr>)"
  using rdArr_repr [of ks xs "Suc (current ks)"] repr_size [of ks xs] by (cases xs) (simp_all add: ksNext_def)

lemma ksNext_last: "repr ks xs \<Longrightarrow> cursor ks = Some a \<Longrightarrow> Suc (current ks) = length xs \<Longrightarrow>
  ksNext ks = Some (None, ks\<lparr>current := length xs, cursor := None\<rparr>)"
  using rdArr_end [of ks xs] repr_size [of ks xs] by (cases xs) (simp_all add: ksNext_def)

lemma memArrayLoop_from:
  "repr ks xs \<Longrightarrow> cursor ks = Some a \<Longrightarrow> current ks < length xs \<Longrightarrow> length xs - current ks \<le> n \<Longrightarrow>
   memArrayLoop n ks acc = Some (acc @ drop (Suc (current ks)) xs, ks\<lparr>current := length xs, cursor := None\<rparr>)"
proof (induction n arbitrary: ks a acc)
  case 0
  then show ?case by simp
next
  case (Suc n)
  show ?case
  proof (cases "Suc (current ks) = length xs")
    case True
    then show ?thesis using ksNext_last [OF Suc.prems(1,2)] by simp
  next
    case False
    then have lt: "Suc (current ks) < length xs" using Suc.prems by simp
    let ?ks = "ks\<lparr>current := Suc (current ks), cursor := Some (xs ! Suc (current ks))\<rparr>"
    have "memArrayLoop n ?ks (acc @ [xs ! Suc (current ks)])
       = Some ((acc @ [xs ! Suc (current ks)]) @ drop (Suc (current ?ks)) xs, ?ks\<lparr>current := length xs, cursor := None\<rparr>)"
      using Suc.prems lt by (intro Suc.IH) auto
    moreover have "drop (Suc (current ks)) xs = xs ! Suc (current ks) # drop (Suc (Suc (current ks))) xs"
      using lt by (simp add: Cons_nth_drop_Suc)
    ultimately show ?thesis using ksNext_next [OF Suc.prems(1,2) lt] by simp
  qed
qed

lemma elektraKsToMemArray_repr:
  assumes "repr ks xs" "cursor_ok ks xs"
  shows "elektraKsToMemArray ks = Some (int (length xs), xs, ks)"
proof -
  let ?r = "ksRewind ks"
  have r: "repr ?r xs" "cursor ?r = None" "current ?r = 0" "ks_size ks = length xs"
    using assms by (simp_all add: ksRewind_def repr_size)
  obtain ks1 where loop: "memArrayLoop (ks_size ks + 1) ?r [] = Some (xs, ks1)"
    and ks1: "\<And>c d. ks1\<lparr>current := c, cursor := d\<rparr> = ks\<lparr>current := c, cursor := d\<rparr>"
  proof (cases xs)
    case Nil
    then have "ksNext ?r = Some (None, ?r)" using r(1) by (auto simp: ksNext_def repr_size)
    then show thesis using that Nil r(4) by (auto simp: ksRewind_def)
  next
    case (Cons x ys)
    have n: "ksNext ?r = Some (Some x, ?r\<lparr>cursor := Some x\<rparr>)" using r(1-3) Cons by (rule ksNext_first)
    have "memArrayLoop (length xs) (?r\<lparr>cursor := Some x\<rparr>) [x]
       = Some ([x] @ drop (Suc (current (?r\<lparr>cursor := Some x\<rparr>))) xs,
               ?r\<lparr>cursor := Some x, current := length xs, cursor := None\<rparr>)"
      using r Cons memArrayLoop_from [of "?r\<lparr>cursor := Some x\<rparr>" xs x "length xs" "[x]"] by simp
    then show thesis using that [of "?r\<lparr>current := length xs, cursor := None\<rparr>"] n r Cons
      by (simp add: ksRewind_def)
  qed
  have "repr (ks1\<lparr>current := 0, cursor := None\<rparr>) xs" unfolding ks1 using assms(1) by simp
  then have rep1: "repr ks1 xs" by simp
  have "ksSetCursor ks1 (ksGetCursor (Some ks)) = Some ks"
  proof (cases "cursor ks")
    case None
    have "ks1\<lparr>cursor := None, current := 0\<rparr> = ks1\<lparr>current := 0, cursor := None\<rparr>" by simp
    also have "\<dots> = ks" unfolding ks1 using None assms(2) by (cases ks) (simp add: cursor_ok_def)
    finally show ?thesis using None by (simp add: ksSetCursor_def ksGetCursor_def ksRewind_def)
  next
    case (Some a)
    have "ks1\<lparr>current := current ks, cursor := cursor ks\<rparr> = ks" unfolding ks1 by simp
    then show ?thesis using Some assms(2) rdArr_repr [OF rep1, of "current ks"]
      by (simp add: ksSetCursor_def ksGetCursor_def cursor_ok_def)
  qed
  then show ?thesis unfolding elektraKsToMemArray_def loop by simp
qed


end
