(* ===== verification/KeyCompare.thy ===== *)
theory KeyCompare
  imports KeyTest KeySetBase
begin

text \<open>
  The comparison functions of \<open>keyset.c\<close> and the two binary searches that use them:
  \<open>bsearch\<close> of the C library and \<open>ksSearchInternal\<close>. The locale \<open>comparator\<close> is the contract
  between them: a comparison whose sign is that of a rank in a linear order. It is interpreted
  for each comparison function.

  Reading the metadata of a key for a comparison needs the memory. These readers are total; they
  see an empty list of metadata where a pointer dangles, which \<open>RefCount\<close> excludes. They also leave
  out that a lookup moves the internal cursor of the metadata (\<open>keyGetMeta\<close> of \<open>KeyMeta\<close> has it).
\<close>

section \<open>The comparator contract\<close>

locale comparator =
  fixes wf :: "'a \<Rightarrow> bool" and cmp :: "'a \<Rightarrow> 'a \<Rightarrow> int" and rank :: "'a \<Rightarrow> 'k :: linorder"
  assumes cmp_neg: "wf x \<Longrightarrow> wf y \<Longrightarrow> cmp x y < 0 \<longleftrightarrow> rank x < rank y"
    and cmp_zero: "wf x \<Longrightarrow> wf y \<Longrightarrow> cmp x y = 0 \<longleftrightarrow> rank x = rank y"

section \<open>Binary search\<close>

text \<open>
  The loop of \<open>bsearch\<close> on the slots from \<open>l\<close> below \<open>u\<close>: \<open>c\<close> compares the key with a slot. (The
  C standard leaves open which of several equal elements is found.)
\<close>

function bsearchLoop :: "('a \<Rightarrow> int) \<Rightarrow> 'a list \<Rightarrow> nat \<Rightarrow> nat \<Rightarrow> nat option" where
  "bsearchLoop c xs l u =
     (if l < u then
        let i = (l + u) div 2; r = c (xs ! i)
        in if r < 0 then bsearchLoop c xs l i
           else if r > 0 then bsearchLoop c xs (i + 1) u
           else Some i
      else None)"
  by pat_completeness auto
termination by (relation "measure (\<lambda>(c, xs, l, u). u - l)") auto

declare bsearchLoop.simps [simp del]

definition bsearch :: "('a \<Rightarrow> int) \<Rightarrow> 'a list \<Rightarrow> nat option" where
  "bsearch c xs = bsearchLoop c xs 0 (length xs)"

lemma bsearchLoop_bound: "bsearchLoop c xs l u = Some i \<Longrightarrow> l \<le> i \<and> i < u"
proof (induction c xs l u rule: bsearchLoop.induct)
  case (1 c xs l u)
  let ?m = "(l + u) div 2"
  have lt: "l < u" using 1(3) by (simp add: bsearchLoop.simps [of c xs l u] split: if_splits)
  then have m: "l \<le> ?m" "?m < u" by auto
  consider "c (xs ! ?m) < 0" "bsearchLoop c xs l ?m = Some i"
    | "c (xs ! ?m) > 0" "bsearchLoop c xs (?m + 1) u = Some i" | "i = ?m"
    using 1(3) lt by (auto simp: bsearchLoop.simps [of c xs l u] Let_def split: if_splits)
  then show ?case
  proof cases
    case a: 1
    then show ?thesis using 1(1) [OF lt refl refl] m by fastforce
  next
    case a: 2
    then show ?thesis using 1(2) [OF lt refl refl] m by fastforce
  next
    case 3
    then show ?thesis using m by simp
  qed
qed

lemma bsearch_bound: "bsearch c xs = Some i \<Longrightarrow> i < length xs"
  using bsearchLoop_bound [of c xs 0 "length xs" i] by (simp add: bsearch_def)

lemma bsearchLoop_cong:
  "u \<le> length xs \<Longrightarrow> length ys = length xs \<Longrightarrow> (\<And>i. i < length xs \<Longrightarrow> c' (ys ! i) = c (xs ! i)) \<Longrightarrow>
   bsearchLoop c' ys l u = bsearchLoop c xs l u"
proof (induction c xs l u rule: bsearchLoop.induct)
  case (1 c xs l u)
  show ?case
  proof (cases "l < u")
    case lt: True
    then have i: "(l + u) div 2 < length xs" using 1(3) by linarith
    consider "c (xs ! ((l + u) div 2)) < 0" | "c (xs ! ((l + u) div 2)) > 0" | "c (xs ! ((l + u) div 2)) = 0" by linarith
    then show ?thesis
    proof cases
      case a: 1
      have "bsearchLoop c' ys l ((l + u) div 2) = bsearchLoop c xs l ((l + u) div 2)"
        using i a by (intro 1(1) [OF lt refl refl]) (simp_all add: 1)
      then show ?thesis using a lt 1(5) [OF i]
        by (simp add: bsearchLoop.simps [of c' ys l u] bsearchLoop.simps [of c xs l u] Let_def)
    next
      case a: 2
      have "bsearchLoop c' ys ((l + u) div 2 + 1) u = bsearchLoop c xs ((l + u) div 2 + 1) u"
        using i a by (intro 1(2) [OF lt refl refl]) (simp_all add: 1)
      then show ?thesis using a lt 1(5) [OF i]
        by (simp add: bsearchLoop.simps [of c' ys l u] bsearchLoop.simps [of c xs l u] Let_def)
    next
      case a: 3
      then show ?thesis using lt 1(5) [OF i]
        by (simp add: bsearchLoop.simps [of c' ys l u] bsearchLoop.simps [of c xs l u] Let_def)
    qed
  next
    case False
    then show ?thesis by (simp add: bsearchLoop.simps)
  qed
qed

lemma bsearch_cong:
  "length ys = length xs \<Longrightarrow> (\<And>i. i < length xs \<Longrightarrow> c' (ys ! i) = c (xs ! i)) \<Longrightarrow> bsearch c' ys = bsearch c xs"
  by (simp add: bsearch_def bsearchLoop_cong)

text \<open>The loop of \<open>ksSearchInternal\<close>.\<close>

function searchLoop :: "('a \<Rightarrow> int) \<Rightarrow> 'a list \<Rightarrow> int \<Rightarrow> int \<Rightarrow> int \<Rightarrow> int" where
  "searchLoop c xs left right insertpos =
     (if right < left then - insertpos - 1
      else
        let middle = left + (right - left) div 2;
            cmpresult = c (xs ! nat middle)
        in if cmpresult > 0 then searchLoop c xs (middle + 1) right (middle + 1)
           else if cmpresult = 0 then middle
           else searchLoop c xs left (middle - 1) middle)"
  by pat_completeness auto
termination
proof (relation "measure (\<lambda>(c, xs, l, r, i). nat (r - l + 1))", goal_cases)
  case 1
  show ?case by simp
next
  case (2 c xs l r i m)
  then show ?case by (simp add: pos_imp_zdiv_nonneg_iff)
next
  case (3 c xs l r i m)
  moreover have "(r - l) div 2 \<le> r - l" using 3 by auto
  ultimately show ?case by simp
qed

declare searchLoop.simps [simp del]

definition search :: "('a \<Rightarrow> int) \<Rightarrow> 'a list \<Rightarrow> int" where
  "search c xs = searchLoop c xs 0 (int (length xs) - 1) 0"

context comparator begin

lemma cmp_pos: "wf x \<Longrightarrow> wf y \<Longrightarrow> cmp x y > 0 \<longleftrightarrow> rank y < rank x"
  using cmp_neg [of x y] cmp_zero [of x y] by (metis less_irrefl linorder_neqE less_asym)

lemma bsearchLoop_Some: "bsearchLoop (cmp k) xs l u = Some i \<Longrightarrow> u \<le> length xs \<Longrightarrow> wf k \<Longrightarrow> \<forall>x \<in> set xs. wf x \<Longrightarrow>
   l \<le> i \<and> i < u \<and> rank (xs ! i) = rank k"
proof (induction "cmp k" xs l u rule: bsearchLoop.induct)
  case (1 xs l u)
  let ?m = "(l + u) div 2"
  have lt: "l < u" using 1(3) by (subst (asm) bsearchLoop.simps) (simp split: if_splits)
  then have m: "l \<le> ?m" "?m < u" by auto
  then have w: "wf (xs ! ?m)" using 1 by simp
  show ?case
  proof (cases "cmp k (xs ! ?m)" "0 :: int" rule: linorder_cases)
    case less
    then have "bsearchLoop (cmp k) xs l ?m = Some i"
      using 1(3) lt by (subst (asm) bsearchLoop.simps) (simp add: Let_def)
    then show ?thesis using 1(1) [OF lt refl refl less] 1 m by simp
  next
    case equal
    then have "i = ?m" using 1(3) lt by (subst (asm) bsearchLoop.simps) (simp add: Let_def)
    then show ?thesis using m cmp_zero [OF 1(5) w] equal by simp
  next
    case greater
    then have "bsearchLoop (cmp k) xs (?m + 1) u = Some i"
      using 1(3) lt by (subst (asm) bsearchLoop.simps) (simp add: Let_def)
    then show ?thesis using 1(2) [OF lt refl refl _ greater] 1 m greater by simp
  qed
qed

lemma bsearchLoop_None: "bsearchLoop (cmp k) xs l u = None \<Longrightarrow> u \<le> length xs \<Longrightarrow> wf k \<Longrightarrow> \<forall>x \<in> set xs. wf x \<Longrightarrow>
   sorted_wrt (\<lambda>x y. rank x \<le> rank y) xs \<Longrightarrow> l \<le> i \<Longrightarrow> i < u \<Longrightarrow> rank (xs ! i) \<noteq> rank k"
proof (induction "cmp k" xs l u rule: bsearchLoop.induct)
  case (1 xs l u)
  let ?m = "(l + u) div 2"
  have lt: "l < u" using 1 by simp
  then have m: "l \<le> ?m" "?m < u" by auto
  then have w: "wf (xs ! ?m)" using 1 by simp
  have mono: "a \<le> b \<Longrightarrow> b < length xs \<Longrightarrow> rank (xs ! a) \<le> rank (xs ! b)" for a b
    using 1(7) sorted_wrt_nth_less [of "\<lambda>x y. rank x \<le> rank y" xs a b] by (cases "a = b") auto
  have ne: "cmp k (xs ! ?m) \<noteq> 0" using 1(3) lt by (subst (asm) bsearchLoop.simps) (auto simp: Let_def)
  show ?case
  proof (cases "cmp k (xs ! ?m) < 0")
    case True
    then have n: "bsearchLoop (cmp k) xs l ?m = None"
      using 1(3) lt by (subst (asm) bsearchLoop.simps) (simp add: Let_def)
    show ?thesis
    proof (cases "i < ?m")
      case True
      then show ?thesis using 1(1) [OF lt refl refl] \<open>cmp k (xs ! ?m) < 0\<close> n 1 m by simp
    next
      case False
      then have "rank (xs ! ?m) \<le> rank (xs ! i)" using 1 by (intro mono) auto
      then show ?thesis using True cmp_neg [OF 1(5) w] by auto
    qed
  next
    case False
    then have g: "cmp k (xs ! ?m) > 0" using ne by simp
    then have n: "bsearchLoop (cmp k) xs (?m + 1) u = None"
      using 1(3) lt by (subst (asm) bsearchLoop.simps) (simp add: Let_def)
    show ?thesis
    proof (cases "?m < i")
      case True
      then show ?thesis using 1(2) [OF lt refl refl False g n] 1 by simp
    next
      case False
      then have "rank (xs ! i) \<le> rank (xs ! ?m)" using 1 m by (intro mono) auto
      then show ?thesis using g cmp_pos [OF 1(5) w] by auto
    qed
  qed
qed

lemma bsearch_Some: "bsearch (cmp k) xs = Some i \<Longrightarrow> wf k \<Longrightarrow> \<forall>x \<in> set xs. wf x \<Longrightarrow>
   i < length xs \<and> rank (xs ! i) = rank k"
  using bsearchLoop_Some [of k xs 0 "length xs" i] by (simp add: bsearch_def)

lemma bsearch_None: "bsearch (cmp k) xs = None \<Longrightarrow> wf k \<Longrightarrow> \<forall>x \<in> set xs. wf x \<Longrightarrow>
   sorted_wrt (\<lambda>x y. rank x \<le> rank y) xs \<Longrightarrow> x \<in> set xs \<Longrightarrow> rank x \<noteq> rank k"
  using bsearchLoop_None [of k xs 0 "length xs"] by (auto simp: bsearch_def in_set_conv_nth)

lemma searchLoop_correct:
  assumes "0 \<le> l" "l \<le> r + 1" "r < int (length xs)" "ins = l \<or> ins = r + 1" "wf k" "\<forall>x \<in> set xs. wf x"
    "sorted_wrt (\<lambda>x y. rank x \<le> rank y) xs"
    "\<And>i. int i < l \<Longrightarrow> rank (xs ! i) < rank k" "\<And>i. r < int i \<Longrightarrow> i < length xs \<Longrightarrow> rank k < rank (xs ! i)"
  shows "(case searchLoop (cmp k) xs l r ins of res \<Rightarrow>
    if 0 \<le> res then res < int (length xs) \<and> rank (xs ! nat res) = rank k
    else nat (- res - 1) \<le> length xs \<and> (\<forall>i < nat (- res - 1). rank (xs ! i) < rank k)
       \<and> (\<forall>i < length xs. nat (- res - 1) \<le> i \<longrightarrow> rank k < rank (xs ! i)))"
  using assms
proof (induction "cmp k" xs l r ins rule: searchLoop.induct)
  case (1 xs l r ins)
  note pre = 1(3-)
  show ?case
  proof (cases "r < l")
    case True
    then have "r + 1 = l" "ins = l" using pre(2,4) by auto
    have "searchLoop (cmp k) xs l r ins = - ins - 1" using True by (subst searchLoop.simps) simp
    then show ?thesis using True pre \<open>r + 1 = l\<close> \<open>ins = l\<close> by (auto simp: nat_le_iff)
  next
    case lr: False
    define m where "m = l + (r - l) div 2"
    have d: "0 \<le> (r - l) div 2" "(r - l) div 2 \<le> r - l" using lr
      by auto
    then have m: "l \<le> m" "m \<le> r" "0 \<le> m" "nat m < length xs" using pre lr by (auto simp: m_def)
    then have w: "wf (xs ! nat m)" using pre by simp
    have mono: "a \<le> b \<Longrightarrow> b < length xs \<Longrightarrow> rank (xs ! a) \<le> rank (xs ! b)" for a b
      using pre(7) sorted_wrt_nth_less [of "\<lambda>x y. rank x \<le> rank y" xs a b] by (cases "a = b") auto
    have step: "searchLoop (cmp k) xs l r ins =
       (if cmp k (xs ! nat m) > 0 then searchLoop (cmp k) xs (m + 1) r (m + 1)
        else if cmp k (xs ! nat m) = 0 then m else searchLoop (cmp k) xs l (m - 1) m)"
      using lr by (subst searchLoop.simps) (simp add: m_def Let_def)
    show ?thesis
    proof (cases "cmp k (xs ! nat m)" "0 :: int" rule: linorder_cases)
      case greater
      then have lt: "rank (xs ! nat m) < rank k" using cmp_pos [OF pre(5) w] by simp
      have "rank (xs ! i) < rank k" if "int i < m + 1" for i
        using mono [of i "nat m"] that m lt by (simp add: le_nat_iff)
      then show ?thesis unfolding step using greater 1(1) [OF lr m_def refl] pre m by simp
    next
      case equal
      then show ?thesis unfolding step using cmp_zero [OF pre(5) w] m by simp
    next
      case less
      then have lt: "rank k < rank (xs ! nat m)" using cmp_neg [OF pre(5) w] by simp
      have gt: "rank k < rank (xs ! i)" if "m - 1 < int i" "i < length xs" for i
        using less_le_trans [OF lt mono [of "nat m" i]] that m by (simp add: nat_le_iff)
      have "\<not> cmp k (xs ! nat m) > 0" "cmp k (xs ! nat m) \<noteq> 0" using less by simp_all
      note IH = 1(2) [OF lr m_def refl this]
      show ?thesis unfolding step if_not_P [OF \<open>\<not> cmp k (xs ! nat m) > 0\<close>] if_not_P [OF \<open>cmp k (xs ! nat m) \<noteq> 0\<close>]
        by (rule IH) (use m pre(1-8) gt in auto)
    qed
  qed
qed

lemma search_found:
  assumes "search (cmp k) xs = res" "0 \<le> res" "wf k" "\<forall>x \<in> set xs. wf x" "sorted_wrt (\<lambda>x y. rank x \<le> rank y) xs"
  shows "nat res < length xs" "rank (xs ! nat res) = rank k"
  using searchLoop_correct [of 0 "int (length xs) - 1" xs 0 k] assms by (simp_all add: search_def nat_less_iff)

lemma search_missing:
  assumes "search (cmp k) xs = res" "res < 0" "wf k" "\<forall>x \<in> set xs. wf x" "sorted_wrt (\<lambda>x y. rank x \<le> rank y) xs"
  shows "nat (- res - 1) \<le> length xs" "\<And>i. i < nat (- res - 1) \<Longrightarrow> rank (xs ! i) < rank k"
    "\<And>i. i < length xs \<Longrightarrow> nat (- res - 1) \<le> i \<Longrightarrow> rank k < rank (xs ! i)"
  using searchLoop_correct [of 0 "int (length xs) - 1" xs 0 k] assms by (simp_all add: search_def)

end


section \<open>Comparing names\<close>

text \<open>
  \<open>keyCompareByName\<close> and \<open>keyCompareByNameCase\<close> compare the \<open>keyUSize\<close> bytes of the unescaped
  names, without and with folding of case.
\<close>

definition compareSized :: "(string \<Rightarrow> string \<Rightarrow> nat \<Rightarrow> int) \<Rightarrow> Key \<Rightarrow> Key \<Rightarrow> int" where
  "compareSized cmp key1 key2 =
     (let name1 = uname key1; name2 = uname key2; nameSize1 = keyUSize key1; nameSize2 = keyUSize key2
      in if nameSize1 = nameSize2 then cmp name1 name2 nameSize2
         else if nameSize1 < nameSize2 then
           (let ret = cmp name1 name2 nameSize1 in if ret = 0 then -1 else ret)
         else (let ret = cmp name1 name2 nameSize2 in if ret = 0 then 1 else ret))"

definition keyCompareByName :: "Key \<Rightarrow> Key \<Rightarrow> int" where
  "keyCompareByName = compareSized memcmp"

definition keyCompareByNameCase :: "Key \<Rightarrow> Key \<Rightarrow> int" where
  "keyCompareByNameCase = compareSized elektraMemCaseCmp"

definition sized :: "Key \<Rightarrow> bool" where
  "sized k \<longleftrightarrow> keyUSize k = length (uname k)"

text \<open>A lexicographic comparison of equally long prefixes, then of lengths.\<close>

lemma take_less_ext:
  fixes xs ys :: "'a :: linorder list"
  shows "length xs < length ys \<Longrightarrow> take (length xs) ys < xs \<longleftrightarrow> ys < xs"
    "length xs < length ys \<Longrightarrow> xs < take (length xs) ys \<or> xs = take (length xs) ys \<longleftrightarrow> xs < ys"
proof (induction xs arbitrary: ys)
  case Nil
  {
    case 1
    then show ?case by simp
  next
    case 2
    then show ?case by (cases ys) auto
  }
next
  case (Cons x xs)
  {
    case 1
    then obtain y ys' where "ys = y # ys'" by (cases ys) auto
    then show ?case using Cons.IH(1) [of ys'] 1 by auto
  next
    case 2
    then obtain y ys' where "ys = y # ys'" by (cases ys) auto
    then show ?case using Cons.IH(2) [of ys'] 2 by auto
  }
qed

lemma compareSized_sign:
  fixes f :: "string \<Rightarrow> 'b :: linorder list"
  assumes c: "\<And>a b n. n \<le> length a \<Longrightarrow> n \<le> length b \<Longrightarrow>
      (cmp a b n < 0 \<longleftrightarrow> take n (f a) < take n (f b)) \<and> (cmp a b n = 0 \<longleftrightarrow> take n (f a) = take n (f b))"
    and len: "\<And>a. length (f a) = length a" and s: "sized k1" "sized k2"
  shows "compareSized cmp k1 k2 < 0 \<longleftrightarrow> f (uname k1) < f (uname k2)"
    "compareSized cmp k1 k2 = 0 \<longleftrightarrow> f (uname k1) = f (uname k2)"
proof -
  let ?a = "uname k1" and ?b = "uname k2"
  have sz: "keyUSize k1 = length ?a" "keyUSize k2 = length ?b" using s by (simp_all add: sized_def)
  consider "length ?a = length ?b" | "length ?a < length ?b" | "length ?b < length ?a" by linarith
  then have "(compareSized cmp k1 k2 < 0 \<longleftrightarrow> f ?a < f ?b) \<and> (compareSized cmp k1 k2 = 0 \<longleftrightarrow> f ?a = f ?b)"
  proof cases
    case 1
    then show ?thesis using c [of "length ?a" ?a ?b] len by (simp add: compareSized_def sz Let_def)
  next
    case 2
    then have n: "f ?a \<noteq> f ?b" using len by (metis less_irrefl)
    have "f ?a < take (length ?a) (f ?b) \<or> f ?a = take (length ?a) (f ?b) \<longleftrightarrow> f ?a < f ?b"
      using take_less_ext(2) [of "f ?a" "f ?b"] 2 len by simp
    then show ?thesis using 2 n c [of "length ?a" ?a ?b] len by (auto simp: compareSized_def sz Let_def)
  next
    case 3
    then have n: "f ?a \<noteq> f ?b" using len by (metis less_irrefl)
    have "take (length ?b) (f ?a) < f ?b \<longleftrightarrow> f ?a < f ?b"
      using take_less_ext(1) [of "f ?b" "f ?a"] 3 len by simp
    then show ?thesis using 3 n c [of "length ?b" ?a ?b] len by (auto simp: compareSized_def sz Let_def)
  qed
  then show "compareSized cmp k1 k2 < 0 \<longleftrightarrow> f ?a < f ?b" "compareSized cmp k1 k2 = 0 \<longleftrightarrow> f ?a = f ?b" by blast+
qed

definition foldcase :: "string \<Rightarrow> nat list" where
  "foldcase s = map (\<lambda>c. of_char (toupper c)) s"

lemma elektraMemCaseCmp_sign: "n \<le> length a \<Longrightarrow> n \<le> length b \<Longrightarrow>
   (elektraMemCaseCmp a b n < 0 \<longleftrightarrow> take n (foldcase a) < take n (foldcase b))
   \<and> (elektraMemCaseCmp a b n = 0 \<longleftrightarrow> take n (foldcase a) = take n (foldcase b))"
proof (induction a b n rule: elektraMemCaseCmp.induct)
  case (1 c1 s1 c2 s2 n)
  show ?case using 1 by (auto simp: Let_def foldcase_def)
qed (auto simp: foldcase_def)

lemma memcmp_sign: "n \<le> length a \<Longrightarrow> n \<le> length b \<Longrightarrow>
   (memcmp a b n < 0 \<longleftrightarrow> take n a < take n b) \<and> (memcmp a b n = 0 \<longleftrightarrow> take n a = take n b)"
  by (simp add: memcmp_def bytecmp_neg_iff)

interpretation byName: comparator sized keyCompareByName uname
  by unfold_locales
    (use compareSized_sign [of memcmp "\<lambda>a. a"] memcmp_sign in \<open>simp_all add: keyCompareByName_def\<close>)

interpretation byNameCase: comparator sized keyCompareByNameCase "\<lambda>k. foldcase (uname k)"
  by unfold_locales
    (use compareSized_sign [of elektraMemCaseCmp foldcase] elektraMemCaseCmp_sign
      in \<open>simp_all add: keyCompareByNameCase_def foldcase_def\<close>)

section \<open>Reading metadata\<close>

text \<open>The keys in the slots of a keyset; \<open>None\<close> if one was never written or is \<open>NULL\<close>.\<close>

fun unPtr :: "slot \<Rightarrow> addr option" where
  "unPtr (Ptr a) = Some a"
| "unPtr _ = None"

definition ptrs :: "KeySet \<Rightarrow> addr list option" where
  "ptrs ks = (if ks_size ks \<le> length (slots ks) then those (map unPtr (take (ks_size ks) (slots ks))) else None)"

definition load :: "mem \<Rightarrow> addr list \<Rightarrow> Key list option" where
  "load m xs = those (map (keys m) xs)"

text \<open>The key that \<open>keyGetMeta\<close> and \<open>keySetMeta\<close> make for a name of metadata.\<close>

definition metaKey :: "string \<Rightarrow> Key" where
  "metaKey n = fst (snd (setNameCore keyInit (Some n) (KEY_META_NAME OR KEY_EMPTY_NAME)))"

definition metaFind :: "mem \<Rightarrow> Key \<Rightarrow> string \<Rightarrow> Key option" where
  "metaFind m k n =
     do { ks \<leftarrow> meta k;
          xs \<leftarrow> ptrs ks;
          kk \<leftarrow> load m xs;
          _ \<leftarrow> key (metaKey n);
          i \<leftarrow> bsearch (keyCompareByName (metaKey n)) kk;
          Some (kk ! i) }"

definition keyIsBinary :: "mem \<Rightarrow> Key option \<Rightarrow> int" where
  "keyIsBinary m k = (case k of None \<Rightarrow> -1
     | Some k \<Rightarrow> if metaFind m k ''binary'' \<noteq> None then 1 else 0)"

definition keyIsString :: "mem \<Rightarrow> Key option \<Rightarrow> int" where
  "keyIsString m k = (case k of None \<Rightarrow> -1
     | Some k \<Rightarrow> if metaFind m k ''binary'' = None then 1 else 0)"

text \<open>The bytes a value pointer points to; \<open>''''\<close> stands for the one null byte of an empty string.\<close>

definition keyValue :: "mem \<Rightarrow> Key option \<Rightarrow> string option" where
  "keyValue m k = (case k of None \<Rightarrow> None
     | Some kk \<Rightarrow> (case data kk of
          None \<Rightarrow> if keyIsBinary m k \<noteq> 0 then None else Some [NUL]
        | Some d \<Rightarrow> Some d))"

text \<open>\<open>keyString\<close>, as a C string.\<close>

definition keyString :: "mem \<Rightarrow> Key option \<Rightarrow> string" where
  "keyString m k = (case k of None \<Rightarrow> ''(null)''
     | Some kk \<Rightarrow> (case data kk of
          None \<Rightarrow> []
        | Some d \<Rightarrow> if keyIsBinary m k \<noteq> 0 then ''(binary)'' else upto_nul d))"

definition keyGetValueSize :: "mem \<Rightarrow> Key option \<Rightarrow> int" where
  "keyGetValueSize m k = (case k of None \<Rightarrow> -1
     | Some kk \<Rightarrow> (case data kk of
          None \<Rightarrow> if keyIsBinary m k \<noteq> 0 then 0 else 1
        | Some _ \<Rightarrow> int (dataSize kk)))"

section \<open>Comparing owners\<close>

definition ownerOf :: "mem \<Rightarrow> Key \<Rightarrow> string option" where
  "ownerOf m k = map_option upto_nul (keyValue m (metaFind m k ''owner''))"

definition keyCompareByOwner :: "mem \<Rightarrow> Key \<Rightarrow> Key \<Rightarrow> int" where
  "keyCompareByOwner m key1 key2 =
     (case (ownerOf m key1, ownerOf m key2) of
        (None, None) \<Rightarrow> 0
      | (None, _) \<Rightarrow> -1
      | (_, None) \<Rightarrow> 1
      | (Some owner1, Some owner2) \<Rightarrow> strcmp owner1 owner2)"

definition keyCompareByNameOwner :: "mem \<Rightarrow> Key \<Rightarrow> Key \<Rightarrow> int" where
  "keyCompareByNameOwner m key1 key2 =
     (let ret = keyCompareByName key1 key2
      in if ret = 0 then keyCompareByOwner m key1 key2 else ret)"

definition keyCompareByNameOwnerCase :: "mem \<Rightarrow> Key \<Rightarrow> Key \<Rightarrow> int" where
  "keyCompareByNameOwnerCase m key1 key2 =
     (let result = keyCompareByNameCase key1 key2
      in if result = 0 then keyCompareByOwner m key1 key2 else result)"

definition keyCmp :: "mem \<Rightarrow> Key option \<Rightarrow> Key option \<Rightarrow> int" where
  "keyCmp m k1 k2 =
     (case (k1, k2) of
        (None, None) \<Rightarrow> 0
      | (None, _) \<Rightarrow> -1
      | (_, None) \<Rightarrow> 1
      | (Some a, Some b) \<Rightarrow>
          if key a = None \<and> key b = None then 0
          else if key a = None then -1
          else if key b = None then 1
          else keyCompareByNameOwner m a b)"

text \<open>The order of keysets: unescaped name, then owner, where a key without owner comes first.\<close>

definition okey :: "mem \<Rightarrow> Key \<Rightarrow> string \<times> string option" where
  "okey m k = (uname k, ownerOf m k)"

lemma keyCompareByOwner_sign:
  "keyCompareByOwner m a b < 0 \<longleftrightarrow> ownerOf m a < ownerOf m b"
  "keyCompareByOwner m a b = 0 \<longleftrightarrow> ownerOf m a = ownerOf m b"
  by (auto simp: keyCompareByOwner_def strcmp_def bytecmp_neg_iff split: option.split)

interpretation byNameOwner: comparator sized "keyCompareByNameOwner m" "okey m" for m
proof unfold_locales
  fix x y assume s: "sized x" "sized y"
  show "keyCompareByNameOwner m x y < 0 \<longleftrightarrow> okey m x < okey m y"
    "keyCompareByNameOwner m x y = 0 \<longleftrightarrow> okey m x = okey m y"
    using byName.cmp_neg [OF s] byName.cmp_zero [OF s] keyCompareByOwner_sign [of m x y]
    by (auto simp: keyCompareByNameOwner_def okey_def Let_def less_prod_def)
qed

interpretation byNameOwnerCase: comparator sized "keyCompareByNameOwnerCase m" "\<lambda>k. (foldcase (uname k), ownerOf m k)" for m
proof unfold_locales
  fix x y assume s: "sized x" "sized y"
  show "keyCompareByNameOwnerCase m x y < 0 \<longleftrightarrow> (foldcase (uname x), ownerOf m x) < (foldcase (uname y), ownerOf m y)"
    "keyCompareByNameOwnerCase m x y = 0 \<longleftrightarrow> (foldcase (uname x), ownerOf m x) = (foldcase (uname y), ownerOf m y)"
    using byNameCase.cmp_neg [OF s] byNameCase.cmp_zero [OF s] keyCompareByOwner_sign [of m x y]
    by (auto simp: keyCompareByNameOwnerCase_def Let_def less_prod_def)
qed


end
