(* ===== verification/KeyHeap.thy ===== *)
theory KeyHeap
  imports KeyCompare
begin

text \<open>
  Operations on shared keys: destroying keys and keysets, appending to a keyset, popping, binary
  lookup (\<open>key.c\<close>, \<open>keyset.c\<close>, \<open>proposal.c\<close>). They transform the memory; a result \<open>None\<close> means
  that the C code would follow a dangling pointer or read a slot that was never written (or, for
  destruction, not return).

  While an operation runs on the metadata keyset of a key, the model takes that keyset out of the
  key and puts the result back at the end.
\<close>

section \<open>Destroying keys and keysets\<close>

text \<open>
  \<open>keyDel\<close> destroys a key that no keyset refers to, \<open>ksClose\<close> gives up one reference of each of
  its keys: the two recurse through the metadata. \<open>del\<close> is the recursive call.
\<close>

definition decRef :: "mem \<Rightarrow> addr \<Rightarrow> mem option" where
  "decRef m a = do { k \<leftarrow> keys m a;
     case snd (keyDecRef (Some k)) of None \<Rightarrow> None | Some k' \<Rightarrow> Some (storeKey m a k') }"

definition incRef :: "mem \<Rightarrow> addr \<Rightarrow> mem option" where
  "incRef m a = do { k \<leftarrow> keys m a;
     case snd (keyIncRef (Some k)) of None \<Rightarrow> None | Some k' \<Rightarrow> Some (storeKey m a k') }"

text \<open>The loop of \<open>ksClose\<close>, which runs \<open>ksNext\<close> over the keys of the keyset.\<close>

fun closeLoop :: "(mem \<Rightarrow> addr \<Rightarrow> (int \<times> mem) option) \<Rightarrow> mem \<Rightarrow> addr list \<Rightarrow> mem option" where
  "closeLoop del m [] = Some m"
| "closeLoop del m (a # as) =
     do { m1 \<leftarrow> decRef m a; (_, m2) \<leftarrow> del m1 a; closeLoop del m2 as }"

definition ksCloseWith :: "(mem \<Rightarrow> addr \<Rightarrow> (int \<times> mem) option) \<Rightarrow> mem \<Rightarrow> KeySet \<Rightarrow> (mem \<times> KeySet) option" where
  "ksCloseWith del m ks =
     do { xs \<leftarrow> ptrs ks;
          m' \<leftarrow> closeLoop del m xs;
          Some (m', ks\<lparr>cursor := None, current := ks_size ks, array := None, alloc := 0, ks_size := 0\<rparr>) }"

text \<open>\<open>if (key->meta) ksDel (key->meta)\<close> in \<open>keyClear\<close>.\<close>

definition clearMetaWith :: "(mem \<Rightarrow> addr \<Rightarrow> (int \<times> mem) option) \<Rightarrow> mem \<Rightarrow> Key \<Rightarrow> mem option" where
  "clearMetaWith del m k = (case meta k of None \<Rightarrow> Some m
     | Some ks \<Rightarrow> do { (m', _) \<leftarrow> ksCloseWith del m ks; Some m' })"

primrec keyDelFuel :: "nat \<Rightarrow> mem \<Rightarrow> addr \<Rightarrow> (int \<times> mem) option" where
  "keyDelFuel 0 m a = None"
| "keyDelFuel (Suc n) m a =
     do { k \<leftarrow> keys m a;
          if ksReference k > 0 then Some (int (ksReference k), m)
          else do { m' \<leftarrow> clearMetaWith (keyDelFuel n) (storeKey m a (k\<lparr>meta := None\<rparr>)) k;
                    Some (0, freeKey m' a) } }"

text \<open>
  Every level of the recursion destroys a key that has an address below \<open>fresh\<close>, so this fuel
  is only used up by metadata that contains its own key.
\<close>

definition keyDelMem :: "mem \<Rightarrow> addr \<Rightarrow> (int \<times> mem) option" where
  "keyDelMem m a = keyDelFuel (Suc (fresh m)) m a"

definition keyDel :: "mem \<Rightarrow> addr option \<Rightarrow> (int \<times> mem) option" where
  "keyDel m a = (case a of None \<Rightarrow> Some (-1, m) | Some a \<Rightarrow> keyDelMem m a)"

definition ksClose :: "mem \<Rightarrow> KeySet \<Rightarrow> (int \<times> mem \<times> KeySet) option" where
  "ksClose m ks = do { (m', ks') \<leftarrow> ksCloseWith keyDelMem m ks; Some (0, m', ks') }"

definition ksDel :: "mem \<Rightarrow> KeySet option \<Rightarrow> (int \<times> mem) option" where
  "ksDel m k = (case k of None \<Rightarrow> Some (-1, m)
     | Some ks \<Rightarrow> do { (rc, m', _) \<leftarrow> ksClose m ks; Some (rc, m') })"

definition ksClear :: "mem \<Rightarrow> KeySet \<Rightarrow> (int \<times> mem \<times> KeySet) option" where
  "ksClear m ks =
     do { (_, m', ks') \<leftarrow> ksClose m ks;
          Some (0, m', ks'\<lparr>array := Some (replicate KEYSET_SIZE Junk), alloc := KEYSET_SIZE\<rparr>) }"

definition keyClear :: "mem \<Rightarrow> addr option \<Rightarrow> (int \<times> mem) option" where
  "keyClear m a = (case a of None \<Rightarrow> Some (-1, m)
     | Some a \<Rightarrow> do { k \<leftarrow> keys m a;
                     m' \<leftarrow> clearMetaWith keyDelMem (storeKey m a (k\<lparr>meta := None\<rparr>)) k;
                     Some (0, storeKey m' a (keyInit\<lparr>ksReference := ksReference k\<rparr>)) })"

section \<open>Searching and popping\<close>

definition ksSearchInternal :: "mem \<Rightarrow> KeySet \<Rightarrow> Key \<Rightarrow> int option" where
  "ksSearchInternal m ks toAppend =
     do { xs \<leftarrow> ptrs ks; kk \<leftarrow> load m xs;
          Some (search (keyCompareByNameOwner m toAppend) kk) }"

definition ksPop :: "mem \<Rightarrow> KeySet \<Rightarrow> (addr option \<times> mem \<times> KeySet) option" where
  "ksPop m ks =
     (let ks1 = ks\<lparr>ks_flags := ks_flags ks OR KS_FLAG_SYNC\<rparr> in
      if ks_size ks1 = 0 then Some (None, m, ks1)
      else
        let n = ks_size ks1 - 1;
            ks2 = ks1\<lparr>ks_size := n\<rparr>;
            ks3 = (if n + 1 < alloc ks2 div 2
                   then (case ksResize (Some ks2) (alloc ks2 div 2 - 1) of (_, Some k) \<Rightarrow> k | _ \<Rightarrow> ks2)
                   else ks2)
        in do { ret \<leftarrow> rdArr ks3 n;
                ks4 \<leftarrow> wrArr ks3 n Null;
                m' \<leftarrow> (case ret of None \<Rightarrow> Some m | Some a \<Rightarrow> decRef m a);
                Some (ret, m', ks4) })"

definition elektraKsPopAtCursor :: "mem \<Rightarrow> KeySet \<Rightarrow> int \<Rightarrow> (addr option \<times> mem \<times> KeySet) option" where
  "elektraKsPopAtCursor m ks pos =
     (if pos < 0 then Some (None, m, ks)
      else if pos > int SSIZE_MAX then Some (None, m, ks)
      else let c = nat pos in
        if c \<ge> ks_size ks then Some (None, m, ks)
        else do {
          ks1 \<leftarrow> (if c \<noteq> ks_size ks - 1
            then if ks_size ks \<le> length (slots ks) then
              do { let k = slots ks ! c;
                   ar \<leftarrow> elektraMemmove (slots ks) c (c + 1) (ks_size ks - c - 1);
                   wrArr (ks\<lparr>array := Some ar\<rparr>) (ks_size ks - 1) k }
              else None
            else Some ks);
          ksPop m (ksRewind ks1) })"

definition elektraLookupBinarySearch :: "mem \<Rightarrow> KeySet \<Rightarrow> Key \<Rightarrow> flags_t \<Rightarrow> (addr option \<times> mem \<times> KeySet) option" where
  "elektraLookupBinarySearch m ks k options =
     do { xs \<leftarrow> ptrs ks; kk \<leftarrow> load m xs;
          let cmp = (if test_bit options KDB_O_WITHOWNER \<and> test_bit options KDB_O_NOCASE then keyCompareByNameOwnerCase m
                     else if test_bit options KDB_O_WITHOWNER then keyCompareByNameOwner m
                     else if test_bit options KDB_O_NOCASE then keyCompareByNameCase
                     else keyCompareByName);
          case bsearch (cmp k) kk of
            Some i \<Rightarrow>
              if test_bit options KDB_O_POP then elektraKsPopAtCursor m ks (int i)
              else do { ks' \<leftarrow> ksSetCursor ks (int i); Some (Some (xs ! i), m, ks') }
          | None \<Rightarrow> do { ks' \<leftarrow> ksSetCursor ks (ksGetCursor (Some ks)); Some (None, m, ks') } }"

section \<open>Appending\<close>

text \<open>
  The two branches of \<open>ksAppendKey\<close> after the search: replacing the key at \<open>result\<close>, or
  inserting at \<open>insertpos\<close>.
\<close>

definition appendReplace :: "mem \<Rightarrow> KeySet \<Rightarrow> addr \<Rightarrow> nat \<Rightarrow> (mem \<times> KeySet) option" where
  "appendReplace m ks toAppend result =
     do { p \<leftarrow> rdArr ks result;
          old \<leftarrow> p;
          if old = toAppend then Some (m, ks)
          else do {
            m1 \<leftarrow> decRef m old;
            (_, m2) \<leftarrow> keyDelMem m1 old;
            m3 \<leftarrow> incRef m2 toAppend;
            ks1 \<leftarrow> wrArr ks result (Ptr toAppend);
            ks2 \<leftarrow> ksSetCursor ks1 (int result);
            Some (m3, ks2) } }"

definition insertSlot :: "KeySet \<Rightarrow> addr \<Rightarrow> nat \<Rightarrow> KeySet option" where
  "insertSlot ks toAppend insertpos =
     (let ks1 = ks\<lparr>ks_size := ks_size ks + 1\<rparr>;
          ks2 = (if ks_size ks1 \<ge> alloc ks1
                 then (case ksResize (Some ks1) (alloc ks1 * 2 - 1) of (_, Some k) \<Rightarrow> k | _ \<Rightarrow> ks1)
                 else ks1)
      in if insertpos = ks_size ks2 - 1 then
           do { ks3 \<leftarrow> wrArr ks2 (ks_size ks2 - 1) (Ptr toAppend);
                ks4 \<leftarrow> wrArr ks3 (ks_size ks3) Null;
                ksSetCursor ks4 (int (ks_size ks4 - 1)) }
         else
           do { ar \<leftarrow> elektraMemmove (slots ks2) (insertpos + 1) insertpos (ks_size ks2 - insertpos);
                ks3 \<leftarrow> wrArr (ks2\<lparr>array := Some ar\<rparr>) insertpos (Ptr toAppend);
                ksSetCursor ks3 (int insertpos) })"

definition appendInsert :: "mem \<Rightarrow> KeySet \<Rightarrow> addr \<Rightarrow> nat \<Rightarrow> (mem \<times> KeySet) option" where
  "appendInsert m ks toAppend insertpos =
     do { m1 \<leftarrow> incRef m toAppend; ks1 \<leftarrow> insertSlot ks toAppend insertpos; Some (m1, ks1) }"

definition ksAppendKey :: "mem \<Rightarrow> KeySet \<Rightarrow> addr option \<Rightarrow> (int \<times> mem \<times> KeySet) option" where
  "ksAppendKey m ks toAppend = (case toAppend of None \<Rightarrow> Some (-1, m, ks)
     | Some a \<Rightarrow> do {
         k \<leftarrow> keys m a;
         if key k = None then do { (_, m1) \<leftarrow> keyDelMem m a; Some (-1, m1, ks) }
         else do {
           k1 \<leftarrow> snd (elektraKeyLock (Some k) KEY_LOCK_NAME);
           let m1 = storeKey m a k1;
           result \<leftarrow> ksSearchInternal m1 ks k1;
           (m2, ks2) \<leftarrow> (if result \<ge> 0 then appendReplace m1 ks a (nat result)
                        else appendInsert m1 ks a (nat (- result - 1)));
           Some (int (ks_size ks2), m2, ks2) } })"

text \<open>
  \<open>for (toAlloc = ks->alloc; ks->size + toAppend->size >= toAlloc; toAlloc *= 2);\<close> which does not
  end when \<open>alloc\<close> is 0.
\<close>

function growAlloc :: "nat \<Rightarrow> nat \<Rightarrow> nat option" where
  "growAlloc need toAlloc =
     (if need < toAlloc then Some toAlloc
      else if toAlloc = 0 then None
      else growAlloc need (toAlloc * 2))"
  by pat_completeness auto
termination by (relation "measure (\<lambda>(need, toAlloc). need + 1 - toAlloc)") auto

declare growAlloc.simps [simp del]

fun appendLoop :: "mem \<Rightarrow> KeySet \<Rightarrow> addr list \<Rightarrow> (mem \<times> KeySet) option" where
  "appendLoop m ks [] = Some (m, ks)"
| "appendLoop m ks (a # as) =
     do { (_, m1, ks1) \<leftarrow> ksAppendKey m ks (Some a); appendLoop m1 ks1 as }"

definition ksAppend :: "mem \<Rightarrow> KeySet \<Rightarrow> KeySet option \<Rightarrow> (int \<times> mem \<times> KeySet) option" where
  "ksAppend m ks toAppend = (case toAppend of None \<Rightarrow> Some (-1, m, ks)
     | Some src \<Rightarrow>
         if ks_size src = 0 then Some (int (ks_size ks), m, ks)
         else do {
           toAlloc \<leftarrow> growAlloc (ks_size ks + ks_size src) (alloc ks);
           let ks1 = (case ksResize (Some ks) (toAlloc - 1) of (_, Some k) \<Rightarrow> k | _ \<Rightarrow> ks);
           xs \<leftarrow> ptrs src;
           (m1, ks2) \<leftarrow> appendLoop m ks1 xs;
           Some (int (ks_size ks2), m1, ks2) })"

text \<open>The variable arguments of \<open>ksNew\<close> are the list of keys before \<open>KS_END\<close>.\<close>

definition ksVNew :: "mem \<Rightarrow> nat \<Rightarrow> addr list \<Rightarrow> (mem \<times> KeySet) option" where
  "ksVNew m a va =
     do { (m', ks) \<leftarrow> (if a + 1 \<noteq> 1 then appendLoop m (ksVNewEmpty a) va else Some (m, ksVNewEmpty a));
          Some (m', ksRewind ks) }"

definition ksNew :: "mem \<Rightarrow> nat \<Rightarrow> addr list \<Rightarrow> (mem \<times> KeySet) option" where
  "ksNew m a va = ksVNew m a va"

definition ksDup :: "mem \<Rightarrow> KeySet option \<Rightarrow> (KeySet option \<times> mem) option" where
  "ksDup m source = (case source of None \<Rightarrow> Some (None, m)
     | Some src \<Rightarrow>
         let sz = (if alloc src < KEYSET_SIZE then KEYSET_SIZE else alloc src) in do {
           (m1, ks) \<leftarrow> ksNew m sz [];
           (_, m2, ks2) \<leftarrow> ksAppend m1 ks (Some src);
           Some (Some ks2, m2) })"

definition ksCopy :: "mem \<Rightarrow> KeySet option \<Rightarrow> KeySet option \<Rightarrow> (int \<times> mem \<times> KeySet option) option" where
  "ksCopy m dest source = (case dest of None \<Rightarrow> Some (-1, m, None)
     | Some d \<Rightarrow> do {
         (_, m1, d1) \<leftarrow> ksClear m d;
         case source of None \<Rightarrow> Some (0, m1, Some d1)
         | Some s \<Rightarrow> do {
             (_, m2, d2) \<leftarrow> ksAppend m1 d1 source;
             d3 \<leftarrow> ksSetCursor d2 (ksGetCursor source);
             Some (1, m2, Some d3) } })"

end
