(* ===== verification/RefCount.thy ===== *)
theory RefCount
  imports KeyHeap "HOL-Library.Multiset"
begin

text \<open>
  Reference counts are exact. The invariant \<open>heap_ok m E\<close>: the counter of every key is the
  number of slots that hold it, in the metadata of live keys and in the keysets of the clients
  (\<open>E\<close>); so a key in a slot is never freed. The operations of \<open>KeyHeap\<close> keep it, and they keep
  keysets sorted.
\<close>

section \<open>The invariant\<close>

definition metaPtrs :: "Key option \<Rightarrow> addr multiset" where
  "metaPtrs k = (case k of None \<Rightarrow> {#}
     | Some k \<Rightarrow> (case meta k of None \<Rightarrow> {#}
       | Some ks \<Rightarrow> (case ptrs ks of None \<Rightarrow> {#} | Some xs \<Rightarrow> mset xs)))"

definition metaRefs :: "mem \<Rightarrow> addr multiset" where
  "metaRefs m = (\<Sum>a \<in> {..<fresh m}. metaPtrs (keys m a))"

definition wf_key :: "Key \<Rightarrow> bool" where
  "wf_key k \<longleftrightarrow> sized k \<and> (case meta k of None \<Rightarrow> True | Some ks \<Rightarrow> \<exists>xs. repr ks xs)"

definition refs :: "mem \<Rightarrow> addr \<Rightarrow> nat" where
  "refs m a = (case keys m a of None \<Rightarrow> 0 | Some k \<Rightarrow> ksReference k)"

definition heap_ok :: "mem \<Rightarrow> addr multiset \<Rightarrow> bool" where
  "heap_ok m E \<longleftrightarrow>
     (\<forall>a k. keys m a = Some k \<longrightarrow> a < fresh m \<and> wf_key k)
     \<and> (\<forall>a. count (metaRefs m + E) a = refs m a)"

text \<open>What destroying keys leaves of the others: everything but their counters.\<close>

definition core :: "Key \<Rightarrow> Key" where
  "core k = k\<lparr>ksReference := 0, flags := 0\<rparr>"

definition frame :: "mem \<Rightarrow> mem \<Rightarrow> bool" where
  "frame m m' \<longleftrightarrow> fresh m' = fresh m \<and>
     (\<forall>a k'. keys m' a = Some k' \<longrightarrow>
        (\<exists>k. keys m a = Some k \<and> core k' = core k \<and> flags k' = flags k \<and> ksReference k' \<le> ksReference k))"

lemma core_fields [simp]:
  "data (core k) = data k" "dataSize (core k) = dataSize k" "key (core k) = key k" "uname (core k) = uname k"
  "keySize (core k) = keySize k" "keyUSize (core k) = keyUSize k" "meta (core k) = meta k"
  by (simp_all add: core_def)

lemma core_eqD:
  assumes "core k' = core k"
  shows "data k' = data k" "dataSize k' = dataSize k" "key k' = key k" "uname k' = uname k"
    "keySize k' = keySize k" "keyUSize k' = keyUSize k" "meta k' = meta k"
  using assms core_fields by metis+

lemma core_updates [simp]: "core (k\<lparr>ksReference := n\<rparr>) = core k" "core (k\<lparr>flags := f\<rparr>) = core k"
  by (simp_all add: core_def)

lemma frame_refl [simp]: "frame m m"
  by (auto simp: frame_def)

lemma frameD:
  assumes "frame m m'" "keys m a = Some k" "keys m' a = Some k'"
  shows "core k' = core k" "flags k' = flags k" "ksReference k' \<le> ksReference k"
  using assms unfolding frame_def by (metis option.inject)+

lemma frame_trans: "frame m m' \<Longrightarrow> frame m' m'' \<Longrightarrow> frame m m''"
proof -
  assume 1: "frame m m'" and 2: "frame m' m''"
  have "\<exists>k. keys m a = Some k \<and> core k'' = core k \<and> flags k'' = flags k \<and> ksReference k'' \<le> ksReference k"
    if a: "keys m'' a = Some k''" for a k''
  proof -
    from 2 a obtain k' where k': "keys m' a = Some k'" "core k'' = core k'" "flags k'' = flags k'" "ksReference k'' \<le> ksReference k'"
      unfolding frame_def by blast
    moreover from 1 k'(1) obtain k where "keys m a = Some k" "core k' = core k" "flags k' = flags k" "ksReference k' \<le> ksReference k"
      unfolding frame_def by blast
    ultimately show ?thesis by auto
  qed
  then show "frame m m''" using 1 2 by (simp add: frame_def)
qed

lemma ptrs_repr [simp]: "repr ks xs \<Longrightarrow> ptrs ks = Some xs"
proof -
  assume r: "repr ks xs"
  have "those (map unPtr (map Ptr xs)) = Some xs" by (induction xs) auto
  then show ?thesis using r by (auto elim!: reprE simp: ptrs_def)
qed

lemma metaPtrs_core: "core k' = core k \<Longrightarrow> metaPtrs (Some k') = metaPtrs (Some k)"
  using core_eqD(7) [of k' k] by (simp add: metaPtrs_def)

lemma metaPtrs_simps [simp]: "metaPtrs None = {#}" "meta k = None \<Longrightarrow> metaPtrs (Some k) = {#}"
  by (simp_all add: metaPtrs_def)

lemma metaPtrs_repr: "meta k = Some ks \<Longrightarrow> repr ks xs \<Longrightarrow> metaPtrs (Some k) = mset xs"
  by (simp add: metaPtrs_def)

lemma wf_key_core: "core k' = core k \<Longrightarrow> wf_key k' \<longleftrightarrow> wf_key k"
  using core_eqD [of k' k] by (simp add: wf_key_def sized_def)

lemma metaRefs_split: "a < fresh m \<Longrightarrow> metaRefs m = metaPtrs (keys m a) + (\<Sum>b \<in> {..<fresh m} - {a}. metaPtrs (keys m b))"
  unfolding metaRefs_def by (subst sum.remove [of _ a]) auto

lemma metaRefs_upd:
  assumes "a < fresh m"
  shows "metaRefs (m\<lparr>keys := (keys m)(a := v)\<rparr>) + metaPtrs (keys m a) = metaRefs m + metaPtrs v"
proof -
  have "(\<Sum>b \<in> {..<fresh m} - {a}. metaPtrs (((keys m)(a := v)) b)) = (\<Sum>b \<in> {..<fresh m} - {a}. metaPtrs (keys m b))"
    by (rule sum.cong) auto
  then show ?thesis
    using metaRefs_split [OF assms] metaRefs_split [of a "m\<lparr>keys := (keys m)(a := v)\<rparr>"] assms by simp
qed

lemma heap_okD:
  assumes "heap_ok m E"
  shows "keys m a = Some k \<Longrightarrow> a < fresh m" "keys m a = Some k \<Longrightarrow> wf_key k"
    "count (metaRefs m + E) a = refs m a"
  using assms by (auto simp: heap_ok_def)

text \<open>A key in a slot is live.\<close>

lemma heap_ok_live:
  assumes "heap_ok m E" "a \<in># metaRefs m + E"
  obtains k where "keys m a = Some k" "ksReference k > 0"
proof -
  have "0 < refs m a" using assms heap_okD(3) [OF assms(1), of a] by (metis count_greater_zero_iff)
  then show thesis using that by (auto simp: refs_def split: option.splits)
qed

lemma metaPtrs_subset: "keys m a = Some k \<Longrightarrow> a < fresh m \<Longrightarrow> b \<in># metaPtrs (Some k) \<Longrightarrow> b \<in># metaRefs m"
  using metaRefs_split [of a m] by simp

lemma heap_ok_meta_live:
  assumes "heap_ok m E" "keys m a = Some k" "meta k = Some ks" "repr ks xs" "b \<in> set xs"
  obtains kb where "keys m b = Some kb" "ksReference kb > 0"
proof -
  have "b \<in># metaPtrs (Some k)" using metaPtrs_repr [OF assms(3,4)] assms(5) by simp
  then have "b \<in># metaRefs m + E" using metaPtrs_subset assms(1,2) heap_okD(1) by (metis union_iff)
  with assms(1) show thesis by (rule heap_ok_live) (rule that)
qed

text \<open>Replacing the record at a live address.\<close>

lemma heap_ok_store:
  assumes ok: "heap_ok m E" and a: "keys m a = Some k" and wf: "wf_key k'"
    and E: "\<And>b. count (metaPtrs (Some k')) b + count E' b + (if b = a then ksReference k else 0)
      = count (metaPtrs (Some k)) b + count E b + (if b = a then ksReference k' else 0)"
  shows "heap_ok (storeKey m a k') E'"
proof -
  have af: "a < fresh m" using heap_okD(1) [OF ok a] .
  have "metaRefs (storeKey m a k') + metaPtrs (Some k) = metaRefs m + metaPtrs (Some k')"
    using metaRefs_upd [OF af, of "Some k'"] a by (simp add: storeKey_def)
  then have c: "count (metaRefs (storeKey m a k')) b + count (metaPtrs (Some k)) b
      = count (metaRefs m) b + count (metaPtrs (Some k')) b" for b
    by (metis count_union)
  have "count (metaRefs (storeKey m a k') + E') b = refs (storeKey m a k') b" for b
    using c [of b] E [of b] heap_okD(3) [OF ok, of b] a by (auto simp: refs_def split: if_splits)
  then show ?thesis using ok wf af by (auto simp: heap_ok_def)
qed

text \<open>Freeing a key that nothing refers to and that has no metadata.\<close>

lemma heap_ok_free:
  assumes ok: "heap_ok m E" and a: "keys m a = None \<or> (\<exists>k. keys m a = Some k \<and> meta k = None \<and> ksReference k = 0)"
  shows "heap_ok (freeKey m a) E"
proof (cases "keys m a")
  case None
  then have "freeKey m a = m" by (simp add: freeKey_def fun_upd_idem)
  then show ?thesis using ok by simp
next
  case (Some k)
  then have k: "meta k = None" "ksReference k = 0" using a by auto
  have "metaRefs (freeKey m a) = metaRefs m"
    using metaRefs_upd [OF heap_okD(1) [OF ok Some], of None] Some k by (simp add: freeKey_def)
  moreover have "refs (freeKey m a) b = refs m b" for b using Some k by (simp add: refs_def)
  ultimately show ?thesis using ok by (auto simp: heap_ok_def)
qed

lemma heap_ok_decRef:
  assumes ok: "heap_ok m (add_mset a E)"
  obtains m' where "decRef m a = Some m'" "heap_ok m' E" "frame m m'" "keys m' a \<noteq> None"
    "\<forall>b. keys m b \<noteq> None \<longrightarrow> keys m' b \<noteq> None"
proof -
  have "a \<in># metaRefs m + add_mset a E" by simp
  with ok obtain k where k: "keys m a = Some k" "ksReference k > 0" by (rule heap_ok_live)
  let ?k' = "k\<lparr>ksReference := ksReference k - 1\<rparr>"
  have "heap_ok (storeKey m a ?k') E"
    using k heap_okD(2) [OF ok k(1)] metaPtrs_core [of ?k' k] wf_key_core [of ?k' k]
    by (intro heap_ok_store [OF ok k(1)]) auto
  moreover have "decRef m a = Some (storeKey m a ?k')" using k by (simp add: decRef_def keyDecRef_def)
  moreover have "frame m (storeKey m a ?k')" using k by (auto simp: frame_def)
  ultimately show thesis using that by simp
qed

lemma heap_ok_incRef:
  assumes ok: "heap_ok m E" and k: "keys m a = Some k" "ksReference k < SSIZE_MAX"
  shows "incRef m a = Some (storeKey m a (k\<lparr>ksReference := ksReference k + 1\<rparr>))"
    "heap_ok (storeKey m a (k\<lparr>ksReference := ksReference k + 1\<rparr>)) (add_mset a E)"
proof -
  let ?k' = "k\<lparr>ksReference := ksReference k + 1\<rparr>"
  show "heap_ok (storeKey m a ?k') (add_mset a E)"
    using k heap_okD(2) [OF ok k(1)] metaPtrs_core [of ?k' k] wf_key_core [of ?k' k]
    by (intro heap_ok_store [OF ok k(1)]) auto
  show "incRef m a = Some (storeKey m a ?k')" using k by (simp add: incRef_def keyIncRef_def)
qed

text \<open>Taking the metadata keyset out of a key, and putting one in.\<close>

lemma heap_ok_detach:
  assumes ok: "heap_ok m E" and k: "keys m a = Some k" "meta k = Some ks" "repr ks xs"
  shows "heap_ok (storeKey m a (k\<lparr>meta := None\<rparr>)) (E + mset xs)"
  using heap_okD(2) [OF ok k(1)] metaPtrs_repr [OF k(2,3)]
  by (intro heap_ok_store [OF ok k(1)]) (auto simp: wf_key_def sized_def)

lemma heap_ok_attach:
  assumes ok: "heap_ok m (E + mset xs)" and k: "keys m a = Some k" "meta k = None" and ks: "repr ks xs"
  shows "heap_ok (storeKey m a (k\<lparr>meta := Some ks\<rparr>)) E"
  using heap_okD(2) [OF ok k(1)] metaPtrs_repr [of "k\<lparr>meta := Some ks\<rparr>" ks xs] ks k
  by (intro heap_ok_store [OF ok k(1)]) (auto simp: wf_key_def sized_def)

section \<open>Destruction\<close>

text \<open>Destroying a key frees at most that key and keys that are metadata.\<close>

definition freed_only :: "mem \<Rightarrow> mem \<Rightarrow> addr set \<Rightarrow> bool" where
  "freed_only m m' A \<longleftrightarrow> (\<forall>b. keys m b \<noteq> None \<longrightarrow> keys m' b = None \<longrightarrow> b \<in> A \<or> b \<in># metaRefs m)"

definition del_ok :: "(mem \<Rightarrow> addr \<Rightarrow> (int \<times> mem) option) \<Rightarrow> bool" where
  "del_ok del \<longleftrightarrow> (\<forall>m a r m' E. del m a = Some (r, m') \<longrightarrow> heap_ok m E \<longrightarrow>
     heap_ok m' E \<and> frame m m' \<and> (0 < refs m a \<longrightarrow> m' = m) \<and> (refs m a = 0 \<longrightarrow> keys m' a = None)
     \<and> freed_only m m' {a})"

lemma del_okD:
  assumes "del_ok del" "del m a = Some (r, m')" "heap_ok m E"
  shows "heap_ok m' E" "frame m m'" "0 < refs m a \<Longrightarrow> m' = m" "refs m a = 0 \<Longrightarrow> keys m' a = None"
    "freed_only m m' {a}"
  using assms unfolding del_ok_def by blast+

lemma frame_dead: "frame m m' \<Longrightarrow> keys m a = None \<Longrightarrow> keys m' a = None"
  unfolding frame_def by (metis not_None_eq option.distinct(1))

lemma metaRefs_iff: "b \<in># metaRefs m \<longleftrightarrow> (\<exists>c < fresh m. b \<in># metaPtrs (keys m c))"
proof -
  have "finite A \<Longrightarrow> b \<in># (\<Sum>c \<in> A. metaPtrs (keys m c)) \<longleftrightarrow> (\<exists>c \<in> A. b \<in># metaPtrs (keys m c))" for A
    by (induction A rule: finite_induct) auto
  then show ?thesis by (auto simp: metaRefs_def)
qed

lemma freed_only_refl [simp]: "freed_only m m A"
  by (auto simp: freed_only_def)

lemma metaRefs_frame: "frame m m' \<Longrightarrow> b \<in># metaRefs m' \<Longrightarrow> b \<in># metaRefs m"
proof -
  assume f: "frame m m'" and "b \<in># metaRefs m'"
  then obtain c where c: "c < fresh m'" "b \<in># metaPtrs (keys m' c)" by (auto simp: metaRefs_iff)
  then obtain k' where k': "keys m' c = Some k'" by (cases "keys m' c") auto
  then obtain k where "keys m c = Some k" "core k' = core k" using f by (auto simp: frame_def)
  then show ?thesis using c k' f metaPtrs_core [of k' k] by (auto simp: metaRefs_iff frame_def)
qed

lemma freed_only_trans:
  "freed_only m m' A \<Longrightarrow> freed_only m' m'' B \<Longrightarrow> frame m m' \<Longrightarrow> freed_only m m'' (A \<union> B)"
  unfolding freed_only_def using metaRefs_frame by blast

lemma closeLoop_ok:
  "del_ok del \<Longrightarrow> closeLoop del m xs = Some m' \<Longrightarrow> heap_ok m (E + mset xs) \<Longrightarrow>
   heap_ok m' E \<and> frame m m' \<and> freed_only m m' (set xs)"
proof (induction xs arbitrary: m)
  case Nil
  then show ?case by simp
next
  case (Cons a xs)
  then have "heap_ok m (add_mset a (E + mset xs))" by simp
  then obtain m1 where m1: "decRef m a = Some m1" "heap_ok m1 (E + mset xs)" "frame m m1" "keys m1 a \<noteq> None"
    "\<forall>b. keys m b \<noteq> None \<longrightarrow> keys m1 b \<noteq> None"
    by (rule heap_ok_decRef)
  with Cons.prems obtain r m2 where m2: "del m1 a = Some (r, m2)" "closeLoop del m2 xs = Some m'" by auto
  note d = del_okD [OF Cons.prems(1) m2(1) m1(2)]
  have IH: "heap_ok m' E \<and> frame m2 m' \<and> freed_only m2 m' (set xs)"
    using Cons.IH [OF Cons.prems(1) m2(2) d(1)] .
  have "freed_only m m1 {}" using m1(5) unfolding freed_only_def by blast
  then have "freed_only m m2 {a}" using freed_only_trans [OF _ d(5) m1(3)] by fastforce
  then have "freed_only m m' ({a} \<union> set xs)"
    using IH frame_trans [OF m1(3) d(2)] by (intro freed_only_trans [of m m2]) auto
  then show ?case using IH m1(3) d(2) frame_trans by (metis insert_is_Un list.set(2))
qed

lemma metaRefs_detach: "heap_ok m E \<Longrightarrow> keys m a = Some k \<Longrightarrow>
  b \<in># metaRefs (storeKey m a (k\<lparr>meta := None\<rparr>)) \<Longrightarrow> b \<in># metaRefs m"
  by (auto simp: metaRefs_iff split: if_splits)

lemma clearMetaWith_ok:
  assumes d: "del_ok del" and c: "clearMetaWith del (storeKey m a (k\<lparr>meta := None\<rparr>)) k = Some m'"
    and ok: "heap_ok m E" and k: "keys m a = Some k"
  shows "heap_ok m' E" "frame (storeKey m a (k\<lparr>meta := None\<rparr>)) m'" "freed_only m m' {}"
proof -
  let ?m0 = "storeKey m a (k\<lparr>meta := None\<rparr>)"
  have "heap_ok m' E \<and> frame ?m0 m' \<and> freed_only m m' {}"
  proof (cases "meta k")
    case None
    then have "k\<lparr>meta := None\<rparr> = k" by simp
    then show ?thesis using None c ok k by (simp add: clearMetaWith_def)
  next
    case (Some ks)
    moreover obtain xs where xs: "repr ks xs" using heap_okD(2) [OF ok k] Some by (auto simp: wf_key_def)
    ultimately have "closeLoop del ?m0 xs = Some m'" and "heap_ok ?m0 (E + mset xs)"
      using c heap_ok_detach [OF ok k Some] by (auto simp: clearMetaWith_def ksCloseWith_def)
    then have r: "heap_ok m' E" "frame ?m0 m'" "freed_only ?m0 m' (set xs)" using closeLoop_ok [OF d] by blast+
    have "b \<in># metaRefs m" if "b \<in> set xs" for b
      using that metaPtrs_subset [OF k heap_okD(1) [OF ok k]] metaPtrs_repr [OF Some xs] by simp
    then have "freed_only m m' {}"
      using r(3) metaRefs_detach [OF ok k] k unfolding freed_only_def
      by (metis fun_upd_apply keys_storeKey option.distinct(1))
    then show ?thesis using r by blast
  qed
  then show "heap_ok m' E" "frame (storeKey m a (k\<lparr>meta := None\<rparr>)) m'" "freed_only m m' {}" by blast+
qed

lemma keyDelFuel_ok: "del_ok (keyDelFuel n)"
proof (induction n)
  case 0
  then show ?case by (simp add: del_ok_def)
next
  case (Suc n)
  have "heap_ok m' E \<and> frame m m' \<and> (0 < refs m a \<longrightarrow> m' = m) \<and> (refs m a = 0 \<longrightarrow> keys m' a = None)
      \<and> freed_only m m' {a}"
    if del: "keyDelFuel (Suc n) m a = Some (r, m')" and ok: "heap_ok m E" for m a r m' E
  proof -
    from del obtain k where k: "keys m a = Some k" by auto
    show ?thesis
    proof (cases "ksReference k > 0")
      case True
      then show ?thesis using del k ok by (auto simp: refs_def freed_only_def)
    next
      case False
      then obtain m1 where m1: "clearMetaWith (keyDelFuel n) (storeKey m a (k\<lparr>meta := None\<rparr>)) k = Some m1"
        "m' = freeKey m1 a" using del k by auto
      note c = clearMetaWith_ok [OF Suc m1(1) ok k]
      have "keys m1 a = None \<or> (\<exists>k'. keys m1 a = Some k' \<and> meta k' = None \<and> ksReference k' = 0)"
        using c(2) False unfolding frame_def
        by (cases "keys m1 a") (fastforce dest: core_eqD(7))+
      then have "heap_ok m' E" unfolding m1(2) by (rule heap_ok_free [OF c(1)])
      moreover have "frame m m'"
        using c(2) k unfolding frame_def m1(2) by (auto split: if_splits) blast
      moreover have "freed_only m m' {a}"
        using c(3) unfolding freed_only_def m1(2) by auto
      ultimately show ?thesis using m1(2) False k by (simp add: refs_def)
    qed
  qed
  then show ?case unfolding del_ok_def by blast
qed

lemma keyDelMem_ok: "del_ok keyDelMem"
  using keyDelFuel_ok unfolding del_ok_def keyDelMem_def by blast

text \<open>
  It returns when metadata keys have no metadata of their own, as all that \<open>keySetMeta\<close>
  makes.
\<close>

definition flat :: "mem \<Rightarrow> bool" where
  "flat m \<longleftrightarrow> (\<forall>b k. b \<in># metaRefs m \<longrightarrow> keys m b = Some k \<longrightarrow> meta k = None)"

lemma flat_frame: "flat m \<Longrightarrow> frame m m' \<Longrightarrow> flat m'"
proof -
  assume fl: "flat m" and fr: "frame m m'"
  show "flat m'"
    unfolding flat_def
  proof (intro allI impI)
    fix b k assume b: "b \<in># metaRefs m'" "keys m' b = Some k"
    then obtain k0 where "keys m b = Some k0" "core k = core k0" using fr by (auto simp: frame_def)
    then show "meta k = None" using fl metaRefs_frame [OF fr b(1)] core_eqD(7) unfolding flat_def by metis
  qed
qed

lemma closeLoop_returns:
  "heap_ok m (E + mset xs) \<Longrightarrow> (\<And>b k. b \<in> set xs \<Longrightarrow> keys m b = Some k \<Longrightarrow> meta k = None) \<Longrightarrow>
   closeLoop (keyDelFuel (Suc n)) m xs \<noteq> None"
proof (induction xs arbitrary: m)
  case Nil
  then show ?case by simp
next
  case (Cons a xs)
  then have "heap_ok m (add_mset a (E + mset xs))" by simp
  then obtain m1 where m1: "decRef m a = Some m1" "heap_ok m1 (E + mset xs)" "frame m m1" "keys m1 a \<noteq> None"
    by (rule heap_ok_decRef)
  then obtain k1 where k1: "keys m1 a = Some k1" by auto
  have leaf: "meta k = None" if b: "b \<in> set (a # xs)" "keys m1 b = Some k" for b k
  proof -
    obtain k0 where "keys m b = Some k0" "core k = core k0" using m1(3) b(2) by (auto simp: frame_def)
    then show ?thesis using Cons.prems(2) b(1) core_eqD(7) by metis
  qed
  have m: "meta k1 = None" using leaf [of a k1] k1 by simp
  then have "\<exists>r m2. keyDelFuel (Suc n) m1 a = Some (r, m2)"
    by (simp add: k1 clearMetaWith_def)
  then obtain r m2 where m2: "keyDelFuel (Suc n) m1 a = Some (r, m2)" by blast
  note d = del_okD [OF keyDelFuel_ok m2 m1(2)]
  have "meta k = None" if b: "b \<in> set xs" "keys m2 b = Some k" for b k
  proof -
    obtain k0 where "keys m1 b = Some k0" "core k = core k0" using d(2) b(2) by (auto simp: frame_def)
    then show ?thesis using leaf b(1) core_eqD(7) by (metis list.set_intros(2))
  qed
  then have "closeLoop (keyDelFuel (Suc n)) m2 xs \<noteq> None" by (intro Cons.IH [OF d(1)]) auto
  then show ?case using m1(1) m2 by (simp del: keyDelFuel.simps)
qed

lemma keyDelMem_returns:
  assumes ok: "heap_ok m E" and fl: "flat m" and a: "keys m a = Some k"
  obtains r m' where "keyDelMem m a = Some (r, m')"
proof -
  have "fresh m > 0" using heap_okD(1) [OF ok a] by simp
  then obtain n where n: "fresh m = Suc n" by (cases "fresh m") auto
  have "keyDelFuel (Suc (Suc n)) m a \<noteq> None"
  proof (cases "ksReference k > 0")
    case True
    then show ?thesis by (simp add: a)
  next
    case False
    have "clearMetaWith (keyDelFuel (Suc n)) (storeKey m a (k\<lparr>meta := None\<rparr>)) k \<noteq> None"
    proof (cases "meta k")
      case None
      then show ?thesis by (simp add: clearMetaWith_def)
    next
      case (Some ks)
      obtain xs where xs: "repr ks xs" using heap_okD(2) [OF ok a] Some by (auto simp: wf_key_def)
      have mem: "b \<in># metaRefs m" if "b \<in> set xs" for b
        using that metaPtrs_subset [OF a heap_okD(1) [OF ok a]] metaPtrs_repr [OF Some xs] by simp
      have "closeLoop (keyDelFuel (Suc n)) (storeKey m a (k\<lparr>meta := None\<rparr>)) xs \<noteq> None"
      proof (rule closeLoop_returns)
        show "heap_ok (storeKey m a (k\<lparr>meta := None\<rparr>)) (E + mset xs)" using ok a Some xs by (rule heap_ok_detach)
        fix b kb assume "b \<in> set xs" "keys (storeKey m a (k\<lparr>meta := None\<rparr>)) b = Some kb"
        then show "meta kb = None" using mem fl by (auto simp: flat_def split: if_splits)
      qed
      then show ?thesis using Some xs by (auto simp: clearMetaWith_def ksCloseWith_def ptrs_repr [OF xs] simp del: keyDelFuel.simps)
    qed
    then show ?thesis using a False by (auto simp del: keyDelFuel.simps(2) simp: keyDelFuel.simps(2) [of "Suc n"])
  qed
  then show thesis using that by (auto simp: keyDelMem_def n simp del: keyDelFuel.simps)
qed

section \<open>Order keys survive\<close>

text \<open>Keys that are live in both memories hold the same data, name and metadata.\<close>

definition kept :: "mem \<Rightarrow> mem \<Rightarrow> bool" where
  "kept m m' \<longleftrightarrow> (\<forall>a k k'. keys m a = Some k \<longrightarrow> keys m' a = Some k' \<longrightarrow> core k' = core k)"

lemma keptD: "kept m m' \<Longrightarrow> keys m a = Some k \<Longrightarrow> keys m' a = Some k' \<Longrightarrow> core k' = core k"
  by (auto simp: kept_def)

lemma frame_kept: "frame m m' \<Longrightarrow> kept m m'"
  unfolding frame_def kept_def by (metis option.inject)

lemma load_Some_iff: "load m xs = Some kk \<longleftrightarrow> length kk = length xs \<and> (\<forall>i < length xs. keys m (xs ! i) = Some (kk ! i))"
proof -
  have "those ys = Some kk \<longleftrightarrow> ys = map Some kk" for ys :: "Key option list"
    by (induction ys arbitrary: kk) (auto split: option.splits)
  then show ?thesis unfolding load_def by (auto simp: list_eq_iff_nth_eq)
qed

lemma load_live: "(\<And>b. b \<in> set xs \<Longrightarrow> keys m b \<noteq> None) \<Longrightarrow> load m xs = Some (map (\<lambda>b. the (keys m b)) xs)"
  unfolding load_Some_iff by (metis length_map nth_map nth_mem option.collapse)

lemma keyCompareByName_core: "core k' = core k \<Longrightarrow> keyCompareByName x k' = keyCompareByName x k"
  using core_eqD(4,6) [of k' k] by (simp add: keyCompareByName_def compareSized_def)

lemma metaFind_kept:
  assumes ok: "heap_ok m E" "heap_ok m' E'" and kept: "kept m m'" and a: "keys m a = Some k" "keys m' a = Some k'"
  shows "map_option core (metaFind m' k' n) = map_option core (metaFind m k n)"
proof (cases "meta k")
  case None
  then show ?thesis using core_eqD(7) [OF keptD [OF kept a]] by (simp add: metaFind_def)
next
  case (Some ks)
  then obtain xs where xs: "repr ks xs" using heap_okD(2) [OF ok(1) a(1)] by (auto simp: wf_key_def)
  have m': "meta k' = Some ks" using core_eqD(7) [OF keptD [OF kept a]] Some by simp
  have live: "keys m b \<noteq> None" "keys m' b \<noteq> None" if "b \<in> set xs" for b
    by (rule heap_ok_meta_live [OF ok(1) a(1) Some xs that], simp)
      (rule heap_ok_meta_live [OF ok(2) a(2) m' xs that], simp)
  let ?kk = "map (\<lambda>b. the (keys m b)) xs" and ?kk' = "map (\<lambda>b. the (keys m' b)) xs"
  have l: "load m xs = Some ?kk" "load m' xs = Some ?kk'" using live by (intro load_live; simp)+
  have c: "core (?kk' ! i) = core (?kk ! i)" if "i < length xs" for i
    using live [of "xs ! i"] that keptD [OF kept] by force
  have b: "bsearch (keyCompareByName (metaKey n)) ?kk' = bsearch (keyCompareByName (metaKey n)) ?kk"
  proof (rule bsearch_cong)
    fix i assume "i < length ?kk"
    then show "keyCompareByName (metaKey n) (?kk' ! i) = keyCompareByName (metaKey n) (?kk ! i)"
      by (intro keyCompareByName_core c) simp
  qed simp
  show ?thesis
  proof (cases "bsearch (keyCompareByName (metaKey n)) ?kk")
    case None
    then show ?thesis using b by (simp add: metaFind_def Some m' ptrs_repr [OF xs] l)
  next
    case (Some i)
    then have "i < length xs" using bsearch_bound by fastforce
    then show ?thesis using Some b c [of i] by (cases "key (metaKey n)") (simp_all add: metaFind_def \<open>meta k = Some ks\<close> m' ptrs_repr [OF xs] l)
  qed
qed

lemma metaFind_Some:
  assumes ok: "heap_ok m E" and a: "keys m a = Some k" and f: "metaFind m k n = Some kb"
  obtains b ks xs where "keys m b = Some kb" "meta k = Some ks" "repr ks xs" "b \<in> set xs"
proof -
  from f obtain ks where ks: "meta k = Some ks" by (auto simp: metaFind_def)
  then obtain xs where xs: "repr ks xs" using heap_okD(2) [OF ok a] by (auto simp: wf_key_def)
  from f ks xs obtain kk i where kk: "load m xs = Some kk" "bsearch (keyCompareByName (metaKey n)) kk = Some i" "kb = kk ! i"
    by (auto simp: metaFind_def)
  have "i < length kk" using kk(2) by (rule bsearch_bound)
  then have "keys m (xs ! i) = Some kb" "xs ! i \<in> set xs" using kk by (auto simp: load_Some_iff)
  then show thesis using that ks xs by blast
qed

lemma ownerOf_kept:
  assumes ok: "heap_ok m E" "heap_ok m' E'" and kept: "kept m m'" and a: "keys m a = Some k" "keys m' a = Some k'"
  shows "ownerOf m' k' = ownerOf m k"
proof -
  note f = metaFind_kept [OF ok kept a, of "''owner''"]
  show ?thesis
  proof (cases "metaFind m k ''owner''")
    case None
    then show ?thesis using f by (simp add: ownerOf_def keyValue_def)
  next
    case (Some o1)
    then obtain o2 where o2: "metaFind m' k' ''owner'' = Some o2" and c: "core o2 = core o1" using f by auto
    obtain b where b: "keys m b = Some o1" "\<exists>ks xs. meta k = Some ks \<and> repr ks xs \<and> b \<in> set xs"
      using metaFind_Some [OF ok(1) a(1) Some] by metis
    obtain b' where b': "keys m' b' = Some o2" using metaFind_Some [OF ok(2) a(2) o2] by metis
    have "meta k' = meta k" using core_eqD(7) [OF keptD [OF kept a]] .
    then obtain o3 where o3: "keys m' b = Some o3" using b(2) heap_ok_meta_live [OF ok(2) a(2)] by metis
    have bin: "map_option core (metaFind m' o2 n) = map_option core (metaFind m o1 n)" for n
    proof -
      have "meta o3 = meta o2" using keptD [OF kept b(1) o3] c by (metis core_eqD(7))
      then have "metaFind m' o2 n = metaFind m' o3 n" by (simp add: metaFind_def)
      then show ?thesis using metaFind_kept [OF ok kept b(1) o3] by simp
    qed
    have "keyValue m' (Some o2) = keyValue m (Some o1)"
      using bin [of "''binary''"] core_eqD(1) [OF c]
      by (cases "metaFind m o1 ''binary''"; cases "metaFind m' o2 ''binary''"; cases "data o1")
        (simp_all add: keyValue_def keyIsBinary_def)
    then show ?thesis using Some o2 by (simp add: ownerOf_def)
  qed
qed


end
