(* ===== verification/KeySetAppend.thy ===== *)
theory KeySetAppend
  imports RefCount
begin

text \<open>
  \<open>ksAppendKey\<close> and \<open>ksPop\<close> on sorted keysets. Appending is the update of a finite map from
  order keys (unescaped name and owner) to keys: the keys before the new one, the new one, and
  the keys after it. The reference counts stay exact, and the cursor is at the new key.
\<close>

section \<open>Sorted keysets\<close>

definition okeyA :: "mem \<Rightarrow> addr \<Rightarrow> string \<times> string option" where
  "okeyA m a = okey m (the (keys m a))"

definition ks_ok :: "mem \<Rightarrow> KeySet \<Rightarrow> addr list \<Rightarrow> bool" where
  "ks_ok m ks xs \<longleftrightarrow> repr ks xs \<and> (\<forall>a \<in> set xs. \<exists>k. keys m a = Some k \<and> key k \<noteq> None)
     \<and> sorted_wrt (<) (map (okeyA m) xs)"

lemma ks_okD:
  assumes "ks_ok m ks xs"
  shows "repr ks xs" "a \<in> set xs \<Longrightarrow> \<exists>k. keys m a = Some k \<and> key k \<noteq> None"
    "sorted_wrt (\<lambda>a b. okeyA m a < okeyA m b) xs" "distinct xs"
proof -
  show "sorted_wrt (\<lambda>a b. okeyA m a < okeyA m b) xs" using assms by (simp add: ks_ok_def sorted_wrt_map)
  then show "distinct xs" by (induction xs) auto
qed (use assms in \<open>auto simp: ks_ok_def\<close>)

lemma okeyA_kept:
  "heap_ok m E \<Longrightarrow> heap_ok m' E' \<Longrightarrow> kept m m' \<Longrightarrow> keys m a \<noteq> None \<Longrightarrow> keys m' a \<noteq> None \<Longrightarrow> okeyA m' a = okeyA m a"
proof -
  assume ok: "heap_ok m E" "heap_ok m' E'" and k: "kept m m'" and "keys m a \<noteq> None" "keys m' a \<noteq> None"
  then obtain x x' where x: "keys m a = Some x" "keys m' a = Some x'" by auto
  show ?thesis using ownerOf_kept [OF ok k x] core_eqD(4) [OF keptD [OF k x]] x by (simp add: okeyA_def okey_def)
qed

lemma ks_ok_kept:
  assumes "ks_ok m ks xs" "heap_ok m E" "heap_ok m' E'" "kept m m'" "repr ks' xs" "\<And>a. a \<in> set xs \<Longrightarrow> keys m' a \<noteq> None"
  shows "ks_ok m' ks' xs"
proof -
  have e: "okeyA m' a = okeyA m a" if "a \<in> set xs" for a
    using okeyA_kept [OF assms(2-4)] assms(6) [OF that] ks_okD(2) [OF assms(1) that] by auto
  have "map (okeyA m') xs = map (okeyA m) xs" using e by simp
  then have "sorted_wrt (<) (map (okeyA m') xs)" using assms(1) unfolding ks_ok_def by (simp only:)
  moreover have "\<exists>k. keys m' a = Some k \<and> key k \<noteq> None" if mem: "a \<in> set xs" for a
  proof -
    obtain k k' where "keys m a = Some k" "key k \<noteq> None" "keys m' a = Some k'"
      using assms(6) [OF mem] ks_okD(2) [OF assms(1) mem] by auto
    then show ?thesis using core_eqD(3) [OF keptD [OF assms(4)]] by metis
  qed
  ultimately show ?thesis using assms(1,5) by (simp add: ks_ok_def)
qed

lemma heap_ok_sized: "heap_ok m E \<Longrightarrow> keys m a = Some k \<Longrightarrow> sized k"
  using heap_okD(2) wf_key_def by blast

text \<open>The result of \<open>ksSearchInternal\<close> on a sorted keyset.\<close>

lemma ksSearchInternal_ok:
  assumes ks: "ks_ok m ks xs" and ok: "heap_ok m E" and k: "sized k"
  obtains (found) i where "ksSearchInternal m ks k = Some (int i)" "i < length xs" "okeyA m (xs ! i) = okey m k"
  | (missing) p where "ksSearchInternal m ks k = Some (- int p - 1)" "p \<le> length xs"
      "\<And>a. a \<in> set (take p xs) \<Longrightarrow> okeyA m a < okey m k" "\<And>a. a \<in> set (drop p xs) \<Longrightarrow> okey m k < okeyA m a"
proof -
  let ?kk = "map (\<lambda>b. the (keys m b)) xs"
  have live: "keys m b \<noteq> None" if "b \<in> set xs" for b using ks_okD(2) [OF ks that] by auto
  have l: "load m xs = Some ?kk" using live by (rule load_live)
  have w: "\<forall>x \<in> set ?kk. sized x" using live heap_ok_sized [OF ok] by force
  have s: "sorted_wrt (\<lambda>x y. okey m x \<le> okey m y) ?kk"
    using ks_okD(3) [OF ks] unfolding sorted_wrt_map okeyA_def by (rule sorted_wrt_mono_rel [rotated]) simp
  define r where "r = search (keyCompareByNameOwner m k) ?kk"
  have ri: "ksSearchInternal m ks k = Some r"
    using ptrs_repr [OF ks_okD(1) [OF ks]] l by (simp add: ksSearchInternal_def r_def)
  show thesis
  proof (cases "0 \<le> r")
    case True
    note f = byNameOwner.search_found [OF r_def [symmetric] True k w s]
    then show thesis using found [of "nat r"] True ri by (simp add: okeyA_def)
  next
    case False
    then have neg: "r < 0" by simp
    note f = byNameOwner.search_missing [OF r_def [symmetric] neg k w s]
    let ?p = "nat (- r - 1)"
    have "r = - int ?p - 1" using neg by simp
    moreover have "okeyA m a < okey m k" if "a \<in> set (take ?p xs)" for a
    proof -
      from that obtain i where i: "i < length xs" "i < ?p" "a = xs ! i" by (auto simp: in_set_conv_nth)
      then show ?thesis using f(2) [of i] by (simp add: okeyA_def)
    qed
    moreover have "okey m k < okeyA m a" if "a \<in> set (drop ?p xs)" for a
    proof -
      from that obtain i where i: "i + ?p < length xs" "a = xs ! (i + ?p)"
        by (auto simp: in_set_conv_nth add.commute less_diff_conv)
      then show ?thesis using f(3) [of "i + ?p"] by (simp add: okeyA_def)
    qed
    ultimately show thesis using missing [of ?p] ri f(1) by simp
  qed
qed

section \<open>Inserting into the array\<close>

lemma insertSlot_repr:
  assumes r: "repr ks xs" and p: "p \<le> length xs"
  obtains ks' where "insertSlot ks a p = Some ks'" "repr ks' (take p xs @ a # drop p xs)"
    "cursor ks' = Some a" "current ks' = p" "ks_flags ks' = ks_flags ks"
proof -
  from r obtain rest where a: "array ks = Some (map Ptr xs @ Null # rest)" "ks_size ks = length xs"
    "alloc ks = length xs + 1 + length rest" by (rule reprE)
  define ks1 where "ks1 = ks\<lparr>ks_size := ks_size ks + 1\<rparr>"
  define ks2 where "ks2 = (if ks_size ks1 \<ge> alloc ks1
    then (case ksResize (Some ks1) (alloc ks1 * 2 - 1) of (_, Some k) \<Rightarrow> k | _ \<Rightarrow> ks1) else ks1)"
  obtain t rs where ks2: "array ks2 = Some (map Ptr xs @ Null # t # rs)" "ks_size ks2 = length xs + 1"
    "alloc ks2 = length xs + 2 + length rs" "ks_flags ks2 = ks_flags ks"
  proof (cases "ks_size ks1 \<ge> alloc ks1")
    case False
    then show thesis using that a by (cases rest) (auto simp: ks2_def ks1_def)
  next
    case True
    then have r0: "rest = []" using a by (simp add: ks1_def)
    define a2 where "a2 = (if alloc ks1 * 2 < KEYSET_SIZE then KEYSET_SIZE else alloc ks1 * 2)"
    have al: "alloc ks1 = length xs + 1" using a r0 by (simp add: ks1_def)
    have "ksResize (Some ks1) (alloc ks1 * 2 - 1)
        = (1, Some (ks1\<lparr>alloc := a2, array := Some (take a2 (slots ks) @ replicate (a2 - length (slots ks)) Junk)\<rparr>))"
      using al a by (auto simp: ksResize_def Let_def a2_def slots_def ks1_def)
    moreover have "length xs + 2 \<le> a2" using al by (auto simp: a2_def)
    moreover have "slots ks = map Ptr xs @ [Null]" using a r0 by (simp add: slots_def)
    ultimately have "ks2 = ks1\<lparr>alloc := a2, array := Some (map Ptr xs @ Null # replicate (Suc (a2 - length xs - 2)) Junk)\<rparr>"
      using True by (simp add: ks2_def Suc_diff_le flip: replicate_Suc)
    then show thesis using that [of Junk "replicate (a2 - length xs - 2) Junk"] \<open>length xs + 2 \<le> a2\<close> a
      by (simp add: ks1_def)
  qed
  let ?ys = "take p xs @ a # drop p xs"
  have body: "insertSlot ks a p = (if p = ks_size ks2 - 1 then
           do { ks3 \<leftarrow> wrArr ks2 (ks_size ks2 - 1) (Ptr a);
                ks4 \<leftarrow> wrArr ks3 (ks_size ks3) Null;
                ksSetCursor ks4 (int (ks_size ks4 - 1)) }
         else
           do { ar \<leftarrow> elektraMemmove (slots ks2) (p + 1) p (ks_size ks2 - p);
                ks3 \<leftarrow> wrArr (ks2\<lparr>array := Some ar\<rparr>) p (Ptr a);
                ksSetCursor ks3 (int p) })"
    unfolding insertSlot_def ks2_def ks1_def Let_def by simp
  define ks3 where "ks3 = ks2\<lparr>array := Some (map Ptr ?ys @ Null # rs)\<rparr>"
  have rep: "repr ks3 ?ys" using ks2 p by (intro reprI [of _ _ rs]) (simp_all add: ks3_def)
  have cur: "ksSetCursor ks3 (int p) = Some (ks3\<lparr>current := p, cursor := Some a\<rparr>)"
    using rdArr_repr [OF rep, of p] p by (simp add: ksSetCursor_def nth_append)
  have "insertSlot ks a p = ksSetCursor ks3 (int p)"
  proof (cases "p = length xs")
    case True
    have s: "slots ks2 = map Ptr xs @ Null # t # rs" using ks2 by (simp add: slots_def)
    have w1: "wrArr ks2 (length xs) (Ptr a) = Some (ks2\<lparr>array := Some (map Ptr xs @ Ptr a # t # rs)\<rparr>)"
      using list_update_length [of "map Ptr xs" Null "t # rs" "Ptr a"] by (simp add: wrArr_def s)
    have w2: "wrArr (ks2\<lparr>array := Some (map Ptr xs @ Ptr a # t # rs)\<rparr>) (length xs + 1) Null = Some ks3"
      using list_update_length [of "map Ptr xs @ [Ptr a]" t rs Null] True by (simp add: wrArr_def slots_def ks3_def)
    show ?thesis unfolding body using ks2(2) True w1 w2 by (simp add: ks3_def)
  next
    case False
    then have lt: "p < length xs" using p by simp
    have s: "slots ks2 = map Ptr xs @ Null # t # rs" using ks2 by (simp add: slots_def)
    have tk: "take (p + 1) (slots ks2) = map Ptr (take p xs) @ [Ptr (xs ! p)]"
      using lt by (simp add: s take_map take_Suc_conv_app_nth)
    have dr: "take (ks_size ks2 - p) (drop p (slots ks2)) = map Ptr (drop p xs) @ [Null]"
      using lt ks2(2) by (simp add: s drop_map Suc_diff_le)
    have dd: "drop (p + 1 + (ks_size ks2 - p)) (slots ks2) = rs" using lt ks2(2) by (simp add: s)
    have mm: "elektraMemmove (slots ks2) (p + 1) p (ks_size ks2 - p)
        = Some (map Ptr (take p xs) @ Ptr (xs ! p) # map Ptr (drop p xs) @ Null # rs)"
      using lt ks2(2) unfolding elektraMemmove_def tk dr dd by (simp add: s)
    have w: "wrArr (ks2\<lparr>array := Some (map Ptr (take p xs) @ Ptr (xs ! p) # map Ptr (drop p xs) @ Null # rs)\<rparr>) p (Ptr a)
        = Some ks3"
      using list_update_length [of "map Ptr (take p xs)" "Ptr (xs ! p)" "map Ptr (drop p xs) @ Null # rs" "Ptr a"] lt
      by (simp add: wrArr_def slots_def ks3_def)
    show ?thesis unfolding body mm using False ks2(2) w by simp
  qed
  then show thesis using that cur rep by (simp add: ks3_def ks2(4))
qed


section \<open>ksAppendKey\<close>

text \<open>The keys after appending: the finite map update at the order key of the new key.\<close>

definition appended :: "mem \<Rightarrow> addr \<Rightarrow> addr list \<Rightarrow> addr list" where
  "appended m a xs = filter (\<lambda>b. okeyA m b < okeyA m a) xs @ a # filter (\<lambda>b. okeyA m a < okeyA m b) xs"

lemma sorted_filter_found:
  fixes f :: "'a \<Rightarrow> 'k :: linorder"
  assumes "sorted_wrt (\<lambda>a b. f a < f b) xs" "i < length xs" "f (xs ! i) = v"
  shows "filter (\<lambda>b. f b < v) xs = take i xs" "filter (\<lambda>b. v < f b) xs = drop (Suc i) xs"
proof -
  have xs: "xs = take i xs @ xs ! i # drop (Suc i) xs" using assms(2) by (rule id_take_nth_drop)
  then have s: "sorted_wrt (\<lambda>a b. f a < f b) (take i xs @ xs ! i # drop (Suc i) xs)" using assms(1) by simp
  then have 1: "\<forall>b \<in> set (take i xs). f b < v" "\<forall>b \<in> set (drop (Suc i) xs). v < f b"
    using assms(3) by (auto simp: sorted_wrt_append)
  have "filter (\<lambda>b. f b < v) (take i xs @ xs ! i # drop (Suc i) xs) = take i xs"
    using 1 assms(3) by (auto simp: filter_empty_conv filter_id_conv dest: order.asym)
  then show "filter (\<lambda>b. f b < v) xs = take i xs" by (subst xs)
  have "filter (\<lambda>b. v < f b) (take i xs @ xs ! i # drop (Suc i) xs) = drop (Suc i) xs"
    using 1 assms(3) by (auto simp: filter_empty_conv filter_id_conv dest: order.asym)
  then show "filter (\<lambda>b. v < f b) xs = drop (Suc i) xs" by (subst xs)
qed

lemma filter_missing:
  fixes f :: "'a \<Rightarrow> 'k :: linorder"
  assumes "\<And>b. b \<in> set (take p xs) \<Longrightarrow> f b < v" "\<And>b. b \<in> set (drop p xs) \<Longrightarrow> v < f b"
  shows "filter (\<lambda>b. f b < v) xs = take p xs" "filter (\<lambda>b. v < f b) xs = drop p xs"
proof -
  have xs: "xs = take p xs @ drop p xs" by simp
  have "filter (\<lambda>b. f b < v) (take p xs @ drop p xs) = take p xs"
    using assms unfolding filter_append by (auto simp: filter_empty_conv filter_id_conv dest: order.asym)
  then show "filter (\<lambda>b. f b < v) xs = take p xs" by (subst xs)
  have "filter (\<lambda>b. v < f b) (take p xs @ drop p xs) = drop p xs"
    using assms unfolding filter_append by (auto simp: filter_empty_conv filter_id_conv dest: order.asym)
  then show "filter (\<lambda>b. v < f b) xs = drop p xs" by (subst xs)
qed

lemma sorted_appended:
  assumes "sorted_wrt (\<lambda>a b. okeyA m a < okeyA m b) xs"
  shows "sorted_wrt (\<lambda>a b. okeyA m a < okeyA m b) (appended m a xs)"
  using assms by (auto simp: appended_def sorted_wrt_append sorted_wrt_filter intro: less_trans)

lemma set_appended: "b \<in> set (appended m a xs) \<Longrightarrow> b = a \<or> b \<in> set xs"
  by (auto simp: appended_def)

text \<open>Storing changed flags.\<close>

lemma heap_ok_flags:
  assumes "heap_ok m E" "keys m a = Some k" "core k' = core k" "ksReference k' = ksReference k"
  shows "heap_ok (storeKey m a k') E" "kept m (storeKey m a k')" "metaRefs (storeKey m a k') = metaRefs m"
proof -
  have wf: "wf_key k'" using wf_key_core [OF assms(3)] heap_okD(2) [OF assms(1,2)] by simp
  show "heap_ok (storeKey m a k') E"
    using wf assms metaPtrs_core [OF assms(3)] by (intro heap_ok_store [OF assms(1,2)]) auto
  show "kept m (storeKey m a k')" using assms(2,3) by (auto simp: kept_def)
  have "metaRefs (storeKey m a k') + metaPtrs (Some k) = metaRefs m + metaPtrs (Some k')"
    using metaRefs_upd [OF heap_okD(1) [OF assms(1,2)], of "Some k'"] assms(2) by (simp add: storeKey_def)
  then show "metaRefs (storeKey m a k') = metaRefs m" using metaPtrs_core [OF assms(3)] by simp
qed

lemma lock_core: "snd (elektraKeyLock (Some k) w) = Some k' \<Longrightarrow> core k' = core k \<and> ksReference k' = ksReference k"
  by (auto simp: elektraKeyLock_def lockOne_def core_def split: if_splits)

lemma kept_trans_live:
  "kept m m' \<Longrightarrow> kept m' m'' \<Longrightarrow> (\<And>a. keys m a \<noteq> None \<Longrightarrow> keys m'' a \<noteq> None \<Longrightarrow> keys m' a \<noteq> None) \<Longrightarrow> kept m m''"
  unfolding kept_def by (metis not_None_eq option.distinct(1))

lemma kept_store_core: "keys m a = Some k \<Longrightarrow> core k' = core k \<Longrightarrow> kept m (storeKey m a k')"
  by (auto simp: kept_def)

lemma appendReplace_ok:
  assumes r: "repr ks xs" and ok: "heap_ok m (E + mset xs)" and i: "i < length xs" and d: "distinct xs"
    and a: "keys m a = Some k" "ksReference k < SSIZE_MAX"
    and res: "appendReplace m ks a i = Some (m', ks')"
  shows "repr ks' (xs[i := a])" "heap_ok m' (E + mset (xs[i := a]))" "kept m m'"
    "\<And>b. keys m b = None \<Longrightarrow> keys m' b = None" "cursor_in ks xs \<Longrightarrow> cursor_in ks' xs"
proof -
  have rd: "rdArr ks i = Some (Some (xs ! i))" using r i by (rule rdArr_repr)
  have "repr ks' (xs[i := a]) \<and> heap_ok m' (E + mset (xs[i := a])) \<and> kept m m' \<and> (\<forall>b. keys m b = None \<longrightarrow> keys m' b = None)
      \<and> (cursor_in ks xs \<longrightarrow> cursor_in ks' xs)"
  proof (cases "xs ! i = a")
    case True
    then have "m' = m" "ks' = ks" using res rd by (simp_all add: appendReplace_def)
    moreover have "xs[i := a] = xs" using True by auto
    ultimately show ?thesis using r ok by (simp add: kept_def)
  next
    case False
    let ?old = "xs ! i"
    have mx: "mset xs = add_mset ?old (mset xs - {#?old#})" using i by simp
    then have "heap_ok m (add_mset ?old (E + (mset xs - {#?old#})))" using ok by (metis union_mset_add_mset_right)
    then obtain m1 where m1: "decRef m ?old = Some m1" "heap_ok m1 (E + (mset xs - {#?old#}))" "frame m m1"
      by (rule heap_ok_decRef)
    then obtain rr m2 where m2: "keyDelMem m1 ?old = Some (rr, m2)"
      using res rd False by (auto simp: appendReplace_def)
    note del = del_okD [OF keyDelMem_ok m2 m1(2)]
    obtain m3 where m3: "incRef m2 a = Some m3" using res rd False m1(1) m2 by (auto simp: appendReplace_def)
    have fr: "frame m m2" using m1(3) del(2) by (rule frame_trans)
    obtain k2 where k2: "keys m2 a = Some k2" using m3 by (auto simp: incRef_def)
    note c2 = frameD(1,3) [OF fr a(1) k2]
    note inc = heap_ok_incRef [OF del(1) k2 le_less_trans [OF c2(2) a(2)]]
    then have m3': "m3 = storeKey m2 a (k2\<lparr>ksReference := ksReference k2 + 1\<rparr>)" using m3 by simp
    have "add_mset a (E + (mset xs - {#?old#})) = E + mset (xs[i := a])" using i by (simp add: mset_update)
    then have ok3: "heap_ok m3 (E + mset (xs[i := a]))" using inc(2) unfolding m3' by (simp only:)
    from r obtain rest where ar: "array ks = Some (map Ptr xs @ Null # rest)" "slots ks = map Ptr xs @ Null # rest"
      "ks_size ks = length xs" "alloc ks = length xs + 1 + length rest" by (rule reprE)
    define ks1 where "ks1 = ks\<lparr>array := Some (map Ptr (xs[i := a]) @ Null # rest)\<rparr>"
    have w: "wrArr ks i (Ptr a) = Some ks1"
      using i by (simp add: wrArr_def ar ks1_def list_update_append map_update)
    have r1: "repr ks1 (xs[i := a])" using ar by (intro reprI [of _ _ rest]) (simp_all add: ks1_def)
    have "ksSetCursor ks1 (int i) = Some (ks1\<lparr>current := i, cursor := Some a\<rparr>)"
      using rdArr_repr [OF r1, of i] i by (simp add: ksSetCursor_def)
    then have "m' = m3" "ks' = ks1\<lparr>current := i, cursor := Some a\<rparr>"
      using res rd False m1(1) m2 m3 w by (simp_all add: appendReplace_def)
    moreover have "kept m m3"
      unfolding m3' kept_def using frameD(1) [OF fr] k2 by (auto split: if_splits)
    moreover have "keys m3 b = None" if "keys m b = None" for b
      using frame_dead [OF fr that] k2 unfolding m3' by auto
    moreover have "cursor_in (ks1\<lparr>current := i, cursor := Some a\<rparr>) xs" using i by (simp add: cursor_in_def)
    ultimately show ?thesis using ok3 r1 by simp
  qed
  then show "repr ks' (xs[i := a])" "heap_ok m' (E + mset (xs[i := a]))" "kept m m'"
    "\<And>b. keys m b = None \<Longrightarrow> keys m' b = None" "cursor_in ks xs \<Longrightarrow> cursor_in ks' xs" by blast+
qed



lemma appendInsert_ok:
  assumes r: "repr ks xs" and ok: "heap_ok m (E + mset xs)" and p: "p \<le> length xs"
    and a: "keys m a = Some k" "ksReference k < SSIZE_MAX"
  obtains m' ks' where "appendInsert m ks a p = Some (m', ks')" "repr ks' (take p xs @ a # drop p xs)"
    "heap_ok m' (E + mset (take p xs @ a # drop p xs))" "kept m m'" "metaRefs m' = metaRefs m"
    "cursor ks' = Some a" "current ks' = p" "\<And>b. keys m' b = None \<longleftrightarrow> keys m b = None"
proof -
  note inc = heap_ok_incRef [OF ok a]
  obtain ks' where ks': "insertSlot ks a p = Some ks'" "repr ks' (take p xs @ a # drop p xs)"
    "cursor ks' = Some a" "current ks' = p" using insertSlot_repr [OF r p, of a] by metis
  let ?k' = "k\<lparr>ksReference := ksReference k + 1\<rparr>"
  have "mset xs = mset (take p xs) + mset (drop p xs)" by (metis append_take_drop_id mset_append)
  then have "add_mset a (E + mset xs) = E + mset (take p xs @ a # drop p xs)" by simp
  then have "heap_ok (storeKey m a ?k') (E + mset (take p xs @ a # drop p xs))" using inc(2) by (simp only:)
  moreover have "metaRefs (storeKey m a ?k') = metaRefs m"
    using metaRefs_upd [OF heap_okD(1) [OF ok a(1)], of "Some ?k'"] metaPtrs_core [of ?k' k] a(1)
    by (simp add: storeKey_def)
  moreover have "appendInsert m ks a p = Some (storeKey m a ?k', ks')"
    using inc(1) ks'(1) by (simp add: appendInsert_def)
  moreover have "kept m (storeKey m a ?k')" using kept_store_core [OF a(1), of ?k'] by simp
  moreover have "keys (storeKey m a ?k') b = None \<longleftrightarrow> keys m b = None" for b using a(1) by simp
  ultimately show thesis using that ks'(2-4) by blast
qed

text \<open>
  The main lemma: whenever \<open>ksAppendKey\<close> returns, it has updated the map, kept the keyset sorted
  and the counters exact; everything that is still live is unchanged.
\<close>

lemma ksAppendKey_ok:
  assumes ks: "ks_ok m ks xs" and ok: "heap_ok m (E + mset xs)"
    and a: "keys m a = Some k" "key k \<noteq> None" "ksReference k < SSIZE_MAX"
    and res: "ksAppendKey m ks (Some a) = Some (r, m', ks')"
  shows "ks_ok m' ks' (appended m a xs)" "heap_ok m' (E + mset (appended m a xs))"
    "r = int (length (appended m a xs))" "kept m m'" "\<And>b. keys m b = None \<Longrightarrow> keys m' b = None"
    "cursor_in ks xs \<Longrightarrow> cursor_in ks' (appended m a xs)"
proof -
  obtain k1 where lock: "snd (elektraKeyLock (Some k) KEY_LOCK_NAME) = Some k1"
    by (cases "elektraKeyLock (Some k) KEY_LOCK_NAME") (auto simp: elektraKeyLock_def split: prod.splits)
  then have c1: "core k1 = core k" "ksReference k1 = ksReference k" using lock_core by blast+
  define m1 where "m1 = storeKey m a k1"
  have ok1: "heap_ok m1 (E + mset xs)" and kept1: "kept m m1"
    unfolding m1_def by (rule heap_ok_flags [OF ok a(1) c1])+
  have a1: "keys m1 a = Some k1" "ksReference k1 < SSIZE_MAX" using c1 a by (simp_all add: m1_def)
  have live1: "keys m1 b = None \<longleftrightarrow> keys m b = None" for b using a(1) by (auto simp: m1_def)
  have ks1: "ks_ok m1 ks xs"
    by (rule ks_ok_kept [OF ks ok ok1 kept1 ks_okD(1) [OF ks]]) (use ks_okD(2) [OF ks] live1 in force)
  have e: "okeyA m1 b = okeyA m b" if "keys m b \<noteq> None" for b
    using okeyA_kept [OF ok ok1 kept1 that] live1 that by simp
  have ea: "okey m1 k1 = okeyA m a" using e [of a] a a1 by (simp add: okeyA_def)
  have el: "okeyA m1 b = okeyA m b" if "b \<in> set xs" for b using e ks_okD(2) [OF ks that] by auto
  note rp = ks_okD(1) [OF ks1]
  have main: "repr ks' (appended m a xs) \<and> heap_ok m' (E + mset (appended m a xs)) \<and> kept m1 m'
      \<and> (\<forall>b. keys m1 b = None \<longrightarrow> keys m' b = None) \<and> r = int (ks_size ks')
      \<and> (cursor_in ks xs \<longrightarrow> cursor_in ks' (appended m a xs))"
    using ks1 ok1 heap_ok_sized [OF ok1 a1(1)]
  proof (cases rule: ksSearchInternal_ok)
    case (found i)
    then have ar: "appendReplace m1 ks a i = Some (m', ks')" and "r = int (ks_size ks')"
      using res lock a(1,2) by (auto simp: ksAppendKey_def m1_def [symmetric])
    have "okeyA m (xs ! i) = okeyA m a" using found ea el by simp
    then have "appended m a xs = take i xs @ a # drop (Suc i) xs"
      using sorted_filter_found [OF ks_okD(3) [OF ks] found(2)] by (simp add: appended_def)
    then have "appended m a xs = xs[i := a]" using found(2) by (simp add: upd_conv_take_nth_drop)
    then show ?thesis
      using appendReplace_ok [OF rp ok1 found(2) ks_okD(4) [OF ks] a1 ar] \<open>r = int (ks_size ks')\<close>
      by (simp add: cursor_in_def)
  next
    case (missing p)
    then have ai: "appendInsert m1 ks a p = Some (m', ks')" and "r = int (ks_size ks')"
      using res lock a(1,2) by (auto simp: ksAppendKey_def m1_def [symmetric])
    have "okeyA m b < okeyA m a" if "b \<in> set (take p xs)" for b
      using missing(3) [OF that] ea el [of b] in_set_takeD [OF that] by simp
    moreover have "okeyA m a < okeyA m b" if "b \<in> set (drop p xs)" for b
      using missing(4) [OF that] ea el [of b] in_set_dropD [OF that] by simp
    ultimately have app: "appended m a xs = take p xs @ a # drop p xs"
      using filter_missing [of p xs "okeyA m" "okeyA m a"] by (simp add: appended_def)
    obtain m2 ks2 where i: "appendInsert m1 ks a p = Some (m2, ks2)" "repr ks2 (take p xs @ a # drop p xs)"
      "heap_ok m2 (E + mset (take p xs @ a # drop p xs))" "kept m1 m2" "current ks2 = p"
      "\<And>b. keys m2 b = None \<longleftrightarrow> keys m1 b = None"
      using appendInsert_ok [OF rp ok1 missing(2) a1] by metis
    then have "m2 = m'" "ks2 = ks'" using ai by simp_all
    then show ?thesis using i app missing(2) \<open>r = int (ks_size ks')\<close> by (simp add: cursor_in_def)
  qed
  show hk: "heap_ok m' (E + mset (appended m a xs))" using main by blast
  show kept: "kept m m'" using main kept1 live1 by (intro kept_trans_live [OF kept1]) auto
  show dead: "\<And>b. keys m b = None \<Longrightarrow> keys m' b = None" using main live1 by blast
  have live': "keys m' b \<noteq> None" if "b \<in> set (appended m a xs)" for b
  proof -
    have "b \<in># metaRefs m' + (E + mset (appended m a xs))" using that by simp
    with hk show ?thesis by (rule heap_ok_live) simp
  qed
  have mid: "ks_ok m ks' (appended m a xs)"
    unfolding ks_ok_def sorted_wrt_map
  proof (intro conjI ballI)
    show "repr ks' (appended m a xs)" using main by blast
    show "sorted_wrt (\<lambda>a b. okeyA m a < okeyA m b) (appended m a xs)"
      using ks_okD(3) [OF ks] by (rule sorted_appended)
    fix b assume "b \<in> set (appended m a xs)"
    then show "\<exists>k. keys m b = Some k \<and> key k \<noteq> None"
      using a(1,2) ks_okD(2) [OF ks] set_appended by fastforce
  qed
  show "ks_ok m' ks' (appended m a xs)"
    by (rule ks_ok_kept [OF mid ok hk kept ks_okD(1) [OF mid] live'])
  show "cursor_in ks xs \<Longrightarrow> cursor_in ks' (appended m a xs)" using main by blast
  show "r = int (length (appended m a xs))" using main repr_size [OF ks_okD(1) [OF mid]] by simp
qed



text \<open>
  It returns when metadata is flat and the new key is not metadata itself or some client holds it
  (else destroying the replaced key could free it).
\<close>

lemma appendReplace_returns:
  assumes r: "repr ks xs" and ok: "heap_ok m (E + mset xs)" and i: "i < length xs" and fl: "flat m"
    and a: "keys m a = Some k" "ksReference k < SSIZE_MAX" "a \<notin># metaRefs m \<or> a \<in># E"
  shows "appendReplace m ks a i \<noteq> None"
proof (cases "xs ! i = a")
  case True
  then show ?thesis using rdArr_repr [OF r i] by (simp add: appendReplace_def)
next
  case False
  let ?old = "xs ! i"
  have rd: "rdArr ks i = Some (Some ?old)" using r i by (rule rdArr_repr)
  have mx: "mset xs = add_mset ?old (mset xs - {#?old#})" using i by simp
  then have "heap_ok m (add_mset ?old (E + (mset xs - {#?old#})))" using ok by (metis union_mset_add_mset_right)
  then obtain m1 where m1: "decRef m ?old = Some m1" "heap_ok m1 (E + (mset xs - {#?old#}))" "frame m m1"
    "keys m1 ?old \<noteq> None" "\<forall>b. keys m b \<noteq> None \<longrightarrow> keys m1 b \<noteq> None"
    by (rule heap_ok_decRef)
  then obtain ko where "keys m1 ?old = Some ko" by auto
  with m1(2) flat_frame [OF fl m1(3)] obtain rr m2 where m2: "keyDelMem m1 ?old = Some (rr, m2)"
    by (rule keyDelMem_returns)
  note del = del_okD [OF keyDelMem_ok m2 m1(2)]
  have "keys m2 a \<noteq> None"
  proof (cases "a \<in># E")
    case True
    show ?thesis by (rule heap_ok_live [OF del(1), of a]) (use True in auto)
  next
    case nE: False
    then have "a \<notin># metaRefs m1" using a(3) metaRefs_frame [OF m1(3)] by blast
    moreover have "keys m1 a \<noteq> None" using m1(5) a(1) by blast
    ultimately show ?thesis using del(5) False unfolding freed_only_def by blast
  qed
  then obtain k2 where k2: "keys m2 a = Some k2" by auto
  have "ksReference k2 < SSIZE_MAX"
    using frameD(3) [OF frame_trans [OF m1(3) del(2)] a(1) k2] a(2) by simp
  note inc = heap_ok_incRef [OF del(1) k2 this]
  from r obtain rest where ar: "slots ks = map Ptr xs @ Null # rest" by (rule reprE)
  have w: "wrArr ks i (Ptr a) = Some (ks\<lparr>array := Some (map Ptr (xs[i := a]) @ Null # rest)\<rparr>)"
    using i by (simp add: wrArr_def ar list_update_append map_update)
  have "ksSetCursor (ks\<lparr>array := Some (map Ptr (xs[i := a]) @ Null # rest)\<rparr>) (int i) \<noteq> None"
    using i by (simp add: ksSetCursor_def rdArr_def slots_def nth_append)
  then show ?thesis using rd m1(1) m2 inc(1) w by (auto simp: appendReplace_def)
qed

lemma ksAppendKey_returns:
  assumes ks: "ks_ok m ks xs" and ok: "heap_ok m (E + mset xs)" and fl: "flat m"
    and a: "keys m a = Some k" "key k \<noteq> None" "ksReference k < SSIZE_MAX" "a \<notin># metaRefs m \<or> a \<in># E"
  shows "ksAppendKey m ks (Some a) \<noteq> None"
proof -
  obtain k1 where lock: "snd (elektraKeyLock (Some k) KEY_LOCK_NAME) = Some k1"
    by (cases "elektraKeyLock (Some k) KEY_LOCK_NAME") (auto simp: elektraKeyLock_def split: prod.splits)
  then have c1: "core k1 = core k" "ksReference k1 = ksReference k" using lock_core by blast+
  define m1 where "m1 = storeKey m a k1"
  have ok1: "heap_ok m1 (E + mset xs)" and kept1: "kept m m1" and mr: "metaRefs m1 = metaRefs m"
    unfolding m1_def by (rule heap_ok_flags [OF ok a(1) c1])+
  have a1: "keys m1 a = Some k1" "ksReference k1 < SSIZE_MAX" "a \<notin># metaRefs m1 \<or> a \<in># E" using c1 a mr by (simp_all add: m1_def)
  have fl1: "flat m1" using fl a(1) core_eqD(7) [OF c1(1)] unfolding flat_def mr by (auto simp: m1_def)
  have live1: "keys m1 b = None \<longleftrightarrow> keys m b = None" for b using a(1) by (auto simp: m1_def)
  have ks1: "ks_ok m1 ks xs"
    by (rule ks_ok_kept [OF ks ok ok1 kept1 ks_okD(1) [OF ks]]) (use ks_okD(2) [OF ks] live1 in force)
  note rp = ks_okD(1) [OF ks1]
  show ?thesis
    using ks1 ok1 heap_ok_sized [OF ok1 a1(1)]
  proof (cases rule: ksSearchInternal_ok)
    case (found i)
    then show ?thesis using appendReplace_returns [OF rp ok1 found(2) fl1 a1] lock a(1,2)
      by (auto simp: ksAppendKey_def m1_def [symmetric])
  next
    case (missing p)
    obtain m' ks' where "appendInsert m1 ks a p = Some (m', ks')"
      using appendInsert_ok [OF rp ok1 missing(2) a1(1,2)] by metis
    then show ?thesis using missing(1) lock a(1,2) by (auto simp: ksAppendKey_def m1_def [symmetric])
  qed
qed



text \<open>A key with a new order key only adds itself.\<close>

lemma lock_sync: "snd (elektraKeyLock (Some k) KEY_LOCK_NAME) = Some k1 \<Longrightarrow> flags k1 AND KEY_FLAG_SYNC = flags k AND KEY_FLAG_SYNC"
  by (auto simp: elektraKeyLock_def lockOne_def test_bit_def set_bit_flag_def bit.conj_disj_distrib2 split: if_splits prod.splits)

lemma ksAppendKey_new:
  assumes ks: "ks_ok m ks xs" and ok: "heap_ok m (E + mset xs)"
    and a: "keys m a = Some k" "key k \<noteq> None" "ksReference k < SSIZE_MAX"
    and new: "\<And>b. b \<in> set xs \<Longrightarrow> okeyA m b \<noteq> okeyA m a"
  obtains r m' ks' where "ksAppendKey m ks (Some a) = Some (r, m', ks')" "metaRefs m' = metaRefs m"
    "\<And>b. keys m' b = None \<longleftrightarrow> keys m b = None"
    "\<And>b. b \<noteq> a \<Longrightarrow> keys m' b = keys m b" "keyNeedSync (keys m' a) = keyNeedSync (keys m a)" "refs m' a = Suc (refs m a)"
proof -
  obtain k1 where lock: "snd (elektraKeyLock (Some k) KEY_LOCK_NAME) = Some k1"
    by (cases "elektraKeyLock (Some k) KEY_LOCK_NAME") (auto simp: elektraKeyLock_def split: prod.splits)
  then have c1: "core k1 = core k" "ksReference k1 = ksReference k" using lock_core by blast+
  define m1 where "m1 = storeKey m a k1"
  have ok1: "heap_ok m1 (E + mset xs)" and kept1: "kept m m1" and mr: "metaRefs m1 = metaRefs m"
    unfolding m1_def by (rule heap_ok_flags [OF ok a(1) c1])+
  have a1: "keys m1 a = Some k1" "ksReference k1 < SSIZE_MAX" using c1 a by (simp_all add: m1_def)
  have live1: "keys m1 b = None \<longleftrightarrow> keys m b = None" for b using a(1) by (auto simp: m1_def)
  have ks1: "ks_ok m1 ks xs"
    by (rule ks_ok_kept [OF ks ok ok1 kept1 ks_okD(1) [OF ks]]) (use ks_okD(2) [OF ks] live1 in force)
  have e: "okeyA m1 b = okeyA m b" if "keys m b \<noteq> None" for b
    using okeyA_kept [OF ok ok1 kept1 that] live1 that by simp
  show thesis
    using ks1 ok1 heap_ok_sized [OF ok1 a1(1)]
  proof (cases rule: ksSearchInternal_ok)
    case (found i)
    have "xs ! i \<in> set xs" using found(2) by simp
    moreover have "okey m1 k1 = okeyA m a" using e [of a] a a1 by (simp add: okeyA_def)
    ultimately have False using found(3) new e [of "xs ! i"] ks_okD(2) [OF ks] by fastforce
    then show thesis ..
  next
    case (missing p)
    obtain m' ks' where i: "appendInsert m1 ks a p = Some (m', ks')" "metaRefs m' = metaRefs m1"
      "\<And>b. keys m' b = None \<longleftrightarrow> keys m1 b = None"
      using appendInsert_ok [OF ks_okD(1) [OF ks1] ok1 missing(2) a1] by metis
    have m': "m' = storeKey m1 a (k1\<lparr>ksReference := ksReference k1 + 1\<rparr>)"
      using i(1) a1 by (auto simp: appendInsert_def incRef_def keyIncRef_def bind_Some_iff split: if_splits)
    have "ksAppendKey m ks (Some a) = Some (int (ks_size ks'), m', ks')"
      using missing(1) lock a(1,2) i(1) by (simp add: ksAppendKey_def m1_def [symmetric])
    moreover have "keyNeedSync (keys m' a) = keyNeedSync (keys m a)" using m' a(1) lock_sync [OF lock] by (simp add: keyNeedSync_def)
    moreover have "keys m' b = keys m b" if "b \<noteq> a" for b using that m' by (simp add: m1_def)
    moreover have "refs m' a = Suc (refs m a)" using m' a(1) c1(2) by (simp add: refs_def)
    ultimately show thesis using that [of _ m'] i(2,3) mr live1 by simp
  qed
qed

section \<open>Popping\<close>

lemma resize_keeps_prefix:
  assumes "slots ks = pre @ post" "alloc ks = length (slots ks)" "array ks \<noteq> None" "length pre \<le> a + 1" "ks_size ks \<le> a + 1"
  obtains r ks' post' where "ksResize (Some ks) a = (r, Some ks')" "array ks' = Some (pre @ post')"
    "alloc ks' = length (pre @ post')" "ks_size ks' = ks_size ks" "cursor ks' = cursor ks" "current ks' = current ks"
    "ks_flags ks' = ks_flags ks"
proof (cases "a + 1 = alloc ks \<or> a + 1 < KEYSET_SIZE \<and> alloc ks = KEYSET_SIZE")
  case True
  then show thesis using assms that [of _ ks post] by (auto simp: ksResize_def Let_def slots_def)
next
  case False
  define a2 where "a2 = (if a + 1 < KEYSET_SIZE then KEYSET_SIZE else a + 1)"
  define ks' where "ks' = ks\<lparr>alloc := a2, array := Some (take a2 (slots ks) @ replicate (a2 - length (slots ks)) Junk)\<rparr>"
  have a2: "length pre \<le> a2" using assms(4) by (auto simp: a2_def)
  have "ksResize (Some ks) a = (1, Some ks')"
    using False assms unfolding ksResize_def by (auto simp: Let_def ks'_def a2_def slots_def)
  moreover have "take a2 (slots ks) @ replicate (a2 - length (slots ks)) Junk
      = pre @ (take (a2 - length pre) post @ replicate (a2 - length (slots ks)) Junk)"
    using a2 by (simp add: assms(1))
  moreover have "length (take a2 (slots ks) @ replicate (a2 - length (slots ks)) Junk) = a2" by simp
  ultimately show thesis using that [of 1 ks' "take (a2 - length pre) post @ replicate (a2 - length (slots ks)) Junk"]
    by (simp add: ks'_def)
qed

lemma ksPop_repr:
  assumes r: "repr ks (xs @ [a])" and d: "decRef m a = Some m'"
  obtains ks' where "ksPop m ks = Some (Some a, m', ks')" "repr ks' xs" "cursor ks' = cursor ks" "current ks' = current ks"
proof -
  from r obtain rest where ar: "array ks = Some (map Ptr (xs @ [a]) @ Null # rest)" "slots ks = map Ptr (xs @ [a]) @ Null # rest"
    "ks_size ks = length xs + 1" "alloc ks = length xs + 2 + length rest" by (rule reprE) simp
  define ks2 where "ks2 = ks\<lparr>ks_flags := ks_flags ks OR KS_FLAG_SYNC, ks_size := length xs\<rparr>"
  define ks3 where "ks3 = (if length xs + 1 < alloc ks2 div 2
      then (case ksResize (Some ks2) (alloc ks2 div 2 - 1) of (_, Some k) \<Rightarrow> k | _ \<Rightarrow> ks2) else ks2)"
  obtain post where ks3: "array ks3 = Some (map Ptr xs @ Ptr a # post)" "alloc ks3 = length xs + 1 + length post"
      "ks_size ks3 = length xs" "cursor ks3 = cursor ks" "current ks3 = current ks"
  proof (cases "length xs + 1 < alloc ks2 div 2")
    case True
    have "slots ks2 = map Ptr (xs @ [a]) @ (Null # rest)" "alloc ks2 = length (slots ks2)" "array ks2 \<noteq> None"
      "length (map Ptr (xs @ [a])) \<le> (alloc ks2 div 2 - 1) + 1" "ks_size ks2 \<le> (alloc ks2 div 2 - 1) + 1"
      using ar True by (auto simp: ks2_def slots_def)
    then obtain r ks' post' where "ksResize (Some ks2) (alloc ks2 div 2 - 1) = (r, Some ks')"
      "array ks' = Some (map Ptr (xs @ [a]) @ post')" "alloc ks' = length (map Ptr (xs @ [a]) @ post')"
      "ks_size ks' = ks_size ks2" "cursor ks' = cursor ks2" "current ks' = current ks2" by (rule resize_keeps_prefix)
    then show thesis using True that [of post'] by (simp add: ks3_def ks2_def)
  next
    case False
    then show thesis using ar that [of "Null # rest"] by (simp add: ks3_def ks2_def)
  qed
  define ks4 where "ks4 = ks3\<lparr>array := Some (map Ptr xs @ Null # post)\<rparr>"
  have rd: "rdArr ks3 (length xs) = Some (Some a)" using ks3(1) by (simp add: rdArr_def slots_def nth_append)
  have w: "wrArr ks3 (length xs) Null = Some ks4"
    using ks3(1) list_update_length [of "map Ptr xs" "Ptr a" post Null] by (simp add: wrArr_def slots_def ks4_def)
  have "ksPop m ks = Some (Some a, m', ks4)"
  proof -
    have "ksPop m ks = do { ret \<leftarrow> rdArr ks3 (length xs); ks4 \<leftarrow> wrArr ks3 (length xs) Null;
        m' \<leftarrow> (case ret of None \<Rightarrow> Some m | Some a \<Rightarrow> decRef m a); Some (ret, m', ks4) }"
      unfolding ksPop_def ks3_def ks2_def Let_def using ar(3) by simp
    then show ?thesis using rd w d by simp
  qed
  moreover have "repr ks4 xs" using ks3 by (intro reprI [of _ _ post]) (simp_all add: ks4_def)
  ultimately show thesis using that ks3 by (simp add: ks4_def)
qed

lemma ks_ok_sub:
  assumes "ks_ok m ks xs" "repr ks' ys" "set ys \<subseteq> set xs" "sorted_wrt (\<lambda>a b. okeyA m a < okeyA m b) ys"
  shows "ks_ok m ks' ys"
  using assms by (auto simp: ks_ok_def sorted_wrt_map)

text \<open>\<open>elektraKsPopAtCursor\<close> takes out the key at the position, in place and in order.\<close>

lemma elektraKsPopAtCursor_ok:
  assumes ks: "ks_ok m ks xs" and ok: "heap_ok m (E + mset xs)" and c: "c < length xs" "length xs \<le> SSIZE_MAX"
  obtains m' ks' where "elektraKsPopAtCursor m ks (int c) = Some (Some (xs ! c), m', ks')"
    "ks_ok m' ks' (take c xs @ drop (Suc c) xs)" "heap_ok m' (E + mset (take c xs @ drop (Suc c) xs))"
    "frame m m'" "\<forall>b. keys m b \<noteq> None \<longrightarrow> keys m' b \<noteq> None" "cursor_ok ks' (take c xs @ drop (Suc c) xs)"
    "decRef m (xs ! c) = Some m'"
proof -
  let ?ys = "take c xs @ drop (Suc c) xs"
  note r = ks_okD(1) [OF ks]
  from r obtain rest where ar: "array ks = Some (map Ptr xs @ Null # rest)" "slots ks = map Ptr xs @ Null # rest"
    "ks_size ks = length xs" "alloc ks = length xs + 1 + length rest" by (rule reprE)
  have xs: "xs = take c xs @ xs ! c # drop (Suc c) xs" using c(1) by (rule id_take_nth_drop)
  then have "mset xs = mset (take c xs @ xs ! c # drop (Suc c) xs)" by simp
  then have mx: "E + mset xs = add_mset (xs ! c) (E + mset ?ys)" by simp
  obtain ks1 where ks1: "(if c \<noteq> ks_size ks - 1
            then if ks_size ks \<le> length (slots ks) then
              do { let k = slots ks ! c;
                   ar \<leftarrow> elektraMemmove (slots ks) c (c + 1) (ks_size ks - c - 1);
                   wrArr (ks\<lparr>array := Some ar\<rparr>) (ks_size ks - 1) k }
              else None
            else Some ks) = Some ks1" and r1: "repr ks1 (?ys @ [xs ! c])"
  proof (cases "c = length xs - 1")
    case True
    then have "?ys @ [xs ! c] = xs" using c by (metis Suc_pred' append.right_neutral drop_all le_refl length_greater_0_conv list.size(3) not_less0 xs append_Nil2)
    then show thesis using that [of ks] True ar(3) r by simp
  next
    case False
    then have lt: "Suc c < length xs" using c(1) by simp
    have k: "slots ks ! c = Ptr (xs ! c)" using c(1) by (simp add: ar(2) nth_append)
    have tk: "take c (slots ks) = map Ptr (take c xs)" using c(1) by (simp add: ar(2) take_map)
    have mv: "take (ks_size ks - c - 1) (drop (c + 1) (slots ks)) = map Ptr (drop (Suc c) xs)"
      using lt by (simp add: ar(2,3) drop_map)
    have dr: "drop (c + (ks_size ks - c - 1)) (slots ks) = Ptr (last xs) # Null # rest"
    proof -
      have "c + (ks_size ks - c - 1) = length xs - 1" using lt ar(3) by simp
      moreover have "drop (length xs - 1) xs = [last xs]" using lt
        by (metis append_butlast_last_id append_eq_conv_conj length_butlast list.size(3) not_less_zero)
      ultimately show ?thesis by (simp add: ar(2) drop_map)
    qed
    have mm: "elektraMemmove (slots ks) c (c + 1) (ks_size ks - c - 1)
        = Some (map Ptr ?ys @ Ptr (last xs) # Null # rest)"
      using lt unfolding elektraMemmove_def tk mv dr by (auto simp: ar(2,3))
    have ly: "length ?ys = length xs - 1" using c(1) by simp
    define ks1 where "ks1 = ks\<lparr>array := Some (map Ptr ?ys @ Ptr (xs ! c) # Null # rest)\<rparr>"
    have "wrArr (ks\<lparr>array := Some (map Ptr ?ys @ Ptr (last xs) # Null # rest)\<rparr>) (ks_size ks - 1) (Ptr (xs ! c)) = Some ks1"
      using list_update_length [of "map Ptr ?ys" "Ptr (last xs)" "Null # rest" "Ptr (xs ! c)"] ly ar(3)
      by (simp add: wrArr_def slots_def ks1_def)
    moreover have "repr ks1 (?ys @ [xs ! c])" using ar ly c(1) by (intro reprI [of _ _ rest]) (simp_all add: ks1_def)
    ultimately show thesis using that False ar(3) mm k by (simp add: ar(2))
  qed
  have "heap_ok m (add_mset (xs ! c) (E + mset ?ys))" using ok mx by simp
  then obtain m' where m': "decRef m (xs ! c) = Some m'" "heap_ok m' (E + mset ?ys)" "frame m m'"
    "\<forall>b. keys m b \<noteq> None \<longrightarrow> keys m' b \<noteq> None" by (rule heap_ok_decRef)
  obtain ks' where ks': "ksPop m (ksRewind ks1) = Some (Some (xs ! c), m', ks')" "repr ks' ?ys"
    "cursor ks' = None" "current ks' = 0"
    using ksPop_repr [of "ksRewind ks1" ?ys "xs ! c" m m'] r1 m'(1) by (auto simp: ksRewind_def)
  have pop: "elektraKsPopAtCursor m ks (int c) = Some (Some (xs ! c), m', ks')"
    using c ks1 ks'(1) unfolding elektraKsPopAtCursor_def Let_def nat_int ar(3) by simp
  have "sorted_wrt (\<lambda>a b. okeyA m a < okeyA m b) (take c xs @ xs ! c # drop (Suc c) xs)"
    using ks_okD(3) [OF ks] xs by (simp only: )
  then have srt: "sorted_wrt (\<lambda>a b. okeyA m a < okeyA m b) ?ys" by (auto simp: sorted_wrt_append)
  have "set ?ys \<subseteq> set xs" by (auto dest: in_set_takeD in_set_dropD)
  with ks ks'(2) have s: "ks_ok m ks' ?ys" using srt by (rule ks_ok_sub)
  have "keys m' b \<noteq> None" if "b \<in> set ?ys" for b
    using m'(4) ks_okD(2) [OF s that] by auto
  then have "ks_ok m' ks' ?ys" by (rule ks_ok_kept [OF s ok m'(2) frame_kept [OF m'(3)] ks'(2)])
  moreover have "cursor_ok ks' ?ys" using ks' by (simp add: cursor_ok_def)
  ultimately show thesis using that pop m' by blast
qed


section \<open>A keyset as a finite map\<close>

definition ksMap :: "mem \<Rightarrow> addr list \<Rightarrow> string \<times> string option \<Rightarrow> addr option" where
  "ksMap m xs = map_of (map (\<lambda>b. (okeyA m b, b)) xs)"

lemma map_of_filter_key:
  "map_of (map (\<lambda>b. (f b, b)) (filter (\<lambda>b. P (f b)) xs)) w = (if P w then map_of (map (\<lambda>b. (f b, b)) xs) w else None)"
  by (induction xs) auto

lemma ksMap_appended: "ksMap m (appended m a xs) = (ksMap m xs)(okeyA m a \<mapsto> a)"
proof
  fix w
  show "ksMap m (appended m a xs) w = ((ksMap m xs)(okeyA m a \<mapsto> a)) w"
    using map_of_filter_key [of "okeyA m" "\<lambda>v. v < okeyA m a" xs] map_of_filter_key [of "okeyA m" "\<lambda>v. okeyA m a < v" xs]
    by (cases w "okeyA m a" rule: linorder_cases) (auto simp: ksMap_def appended_def map_add_def split: option.split)
qed

lemma ksMap_cong: "(\<And>b. b \<in> set xs \<Longrightarrow> okeyA m' b = okeyA m b) \<Longrightarrow> ksMap m' xs = ksMap m xs"
  unfolding ksMap_def by (rule arg_cong [where f = map_of]) simp

lemma ksMap_Some: "ks_ok m ks xs \<Longrightarrow> ksMap m xs w = Some b \<longleftrightarrow> b \<in> set xs \<and> okeyA m b = w"
proof -
  assume ks: "ks_ok m ks xs"
  have "distinct (map (okeyA m) xs)" using ks by (simp add: ks_ok_def strict_sorted_iff)
  then have "distinct (map fst (map (\<lambda>b. (okeyA m b, b)) xs))" by (simp add: comp_def)
  from map_of_eq_Some_iff [OF this] show ?thesis unfolding ksMap_def by auto
qed

end
