(* ===== verification/KeyMeta.thy ===== *)
theory KeyMeta
  imports KeySetAppend
begin

text \<open>
  \<open>src/libs/elektra/keymeta.c\<close>, \<open>owner.c\<close> and the parts of \<open>keyname.c\<close>, \<open>keyvalue.c\<close> and \<open>key.c\<close>
  that use metadata: reading, setting and copying metadata, the owner, setting names and values,
  duplicating and copying keys.

  An operation takes the memory and the address of the key (\<open>None\<close> for \<open>NULL\<close>). Looking
  metadata up by a name that starts with a slash runs a cascading lookup in the code; such names are
  outside the model (the result is \<open>None\<close>), and so is metadata that is copied while it holds a
  callback.
\<close>

section \<open>The metadata keyset of a key\<close>

definition keyRewindMeta :: "mem \<Rightarrow> addr option \<Rightarrow> (int \<times> mem) option" where
  "keyRewindMeta m a = (case a of None \<Rightarrow> Some (-1, m)
     | Some a \<Rightarrow> do { k \<leftarrow> keys m a;
         case meta k of None \<Rightarrow> Some (0, m)
         | Some ks \<Rightarrow> Some (0, storeKey m a (k\<lparr>meta := Some (ksRewind ks)\<rparr>)) })"

definition keyNextMeta :: "mem \<Rightarrow> addr option \<Rightarrow> (addr option \<times> mem) option" where
  "keyNextMeta m a = (case a of None \<Rightarrow> Some (None, m)
     | Some a \<Rightarrow> do { k \<leftarrow> keys m a;
         case meta k of None \<Rightarrow> Some (None, m)
         | Some ks \<Rightarrow> do { (ret, ks') \<leftarrow> ksNext ks; Some (ret, storeKey m a (k\<lparr>meta := Some ks'\<rparr>)) } })"

definition keyCurrentMeta :: "mem \<Rightarrow> addr option \<Rightarrow> addr option option" where
  "keyCurrentMeta m a = (case a of None \<Rightarrow> Some None
     | Some a \<Rightarrow> do { k \<leftarrow> keys m a; Some (ksCurrent (meta k)) })"

text \<open>
  \<open>ksLookup (ks, search, options)\<close> for a key with a name of metadata: a binary search. The
  code calls a function that the search key holds as metadata \<open>callback\<close>; there is none here.
\<close>

definition metaLookup :: "mem \<Rightarrow> KeySet \<Rightarrow> Key \<Rightarrow> flags_t \<Rightarrow> (addr option \<times> mem \<times> KeySet) option" where
  "metaLookup m ks k options =
     (case key k of
        None \<Rightarrow> Some (None, m, ks)
      | Some name \<Rightarrow>
          if name \<noteq> [] \<and> hd name = SLASH then None
          else if metaFind m k ''callback'' \<noteq> None then None
          else elektraLookupBinarySearch m ks k options)"

definition keyGetMeta :: "mem \<Rightarrow> addr option \<Rightarrow> string option \<Rightarrow> (addr option \<times> mem) option" where
  "keyGetMeta m a metaName = (case a of None \<Rightarrow> Some (None, m)
     | Some a \<Rightarrow> (case metaName of None \<Rightarrow> Some (None, m)
       | Some n \<Rightarrow> do { k \<leftarrow> keys m a;
           case meta k of None \<Rightarrow> Some (None, m)
           | Some ks \<Rightarrow> do {
               (ret, m1, ks') \<leftarrow> metaLookup m ks (metaKey n) 0;
               Some (ret, storeKey m1 a (k\<lparr>meta := Some ks'\<rparr>)) } }))"

text \<open>
  In the code a name of metadata that starts with \<open>user:\<close> gives the key made for it an owner;
  these names are outside the model of \<open>keySetMeta\<close>. There the key \<open>toSet\<close> is allocated before the old value is looked up; the
  local string \<open>metaStringDup\<close> becomes its value.
\<close>

definition metaOwner :: "string \<Rightarrow> string option" where
  "metaOwner n = snd (snd (setNameCore keyInit (Some n) (KEY_META_NAME OR KEY_EMPTY_NAME)))"

text \<open>The block that removes the old key from the metadata of \<open>a\<close>, if there is one.\<close>

definition metaRemove :: "mem \<Rightarrow> addr \<Rightarrow> string \<Rightarrow> mem option" where
  "metaRemove m a n = do { k \<leftarrow> keys m a;
     case meta k of None \<Rightarrow> Some m
     | Some ks \<Rightarrow> do {
         (ret, m1, ks') \<leftarrow> metaLookup (storeKey m a (k\<lparr>meta := None\<rparr>)) ks (metaKey n) KDB_O_POP;
         k1 \<leftarrow> keys m1 a;
         let m2 = storeKey m1 a (k1\<lparr>meta := Some ks'\<rparr>);
         case ret of None \<Rightarrow> Some m2
         | Some r \<Rightarrow> do {
             (_, m3) \<leftarrow> keyDelMem m2 r;
             k3 \<leftarrow> keys m3 a;
             Some (storeKey m3 a (k3\<lparr>flags := flags k3 OR KEY_FLAG_SYNC\<rparr>)) } } }"

text \<open>The last block: the keyset is made if there is none, and \<open>toSet\<close> is locked and appended.\<close>

definition metaAppend :: "mem \<Rightarrow> addr \<Rightarrow> addr \<Rightarrow> mem option" where
  "metaAppend m a toSet = do {
     k \<leftarrow> keys m a;
     let ks = (case meta k of None \<Rightarrow> ksVNewEmpty 0 | Some ks \<Rightarrow> ks);
     (_, m1, ks1) \<leftarrow> ksAppendKey (storeKey m a (k\<lparr>meta := None\<rparr>)) ks (Some toSet);
     k1 \<leftarrow> keys m1 a;
     Some (storeKey m1 a (k1\<lparr>meta := Some ks1, flags := flags k1 OR KEY_FLAG_SYNC\<rparr>)) }"

definition metaString :: "string \<Rightarrow> Key \<Rightarrow> Key" where
  "metaString s t = t\<lparr>data := Some (s @ [NUL]), dataSize := elektraStrLen s,
     flags := set_bit_flag (set_bit_flag (set_bit_flag (flags t) KEY_FLAG_RO_NAME)
       KEY_FLAG_RO_VALUE) KEY_FLAG_RO_META\<rparr>"

definition keySetMeta :: "mem \<Rightarrow> addr option \<Rightarrow> string option \<Rightarrow> string option \<Rightarrow> (int \<times> mem) option" where
  "keySetMeta m a metaName newMetaString = (case a of None \<Rightarrow> Some (-1, m)
     | Some a \<Rightarrow> do { k \<leftarrow> keys m a;
        if flags k AND KEY_FLAG_RO_META \<noteq> 0 then Some (-1, m)
        else case metaName of None \<Rightarrow> Some (-1, m)
        | Some n \<Rightarrow>
          if meta k = None \<and> newMetaString = None then Some (0, m)
          else if metaOwner n \<noteq> None then None
          else do {
            let (toSet, m1) = elektraKeyMalloc m;
            m2 \<leftarrow> metaRemove (storeKey m1 toSet (metaKey n)) a n;
            case newMetaString of
              None \<Rightarrow> do { (_, m3) \<leftarrow> keyDelMem m2 toSet; Some (0, m3) }
            | Some s \<Rightarrow> do {
                t \<leftarrow> keys m2 toSet;
                m3 \<leftarrow> metaAppend (storeKey m2 toSet (metaString s t)) a toSet;
                Some (int (elektraStrLen s), m3) } } })"

definition keyCopyMeta :: "mem \<Rightarrow> addr option \<Rightarrow> addr option \<Rightarrow> string option \<Rightarrow> (int \<times> mem) option" where
  "keyCopyMeta m dest source metaName = (case (source, dest) of
     (None, _) \<Rightarrow> Some (-1, m)
   | (_, None) \<Rightarrow> Some (-1, m)
   | (Some s, Some d) \<Rightarrow> do { kd \<leftarrow> keys m d;
       if flags kd AND KEY_FLAG_RO_META \<noteq> 0 then Some (-1, m)
       else do { (ret, m1) \<leftarrow> keyGetMeta m source metaName;
         case ret of None \<Rightarrow> Some (0, m1)
         | Some r \<Rightarrow> do {
             kd1 \<leftarrow> keys m1 d;
             m4 \<leftarrow> (case meta kd1 of
                 None \<Rightarrow> Some (storeKey m1 d (kd1\<lparr>meta := Some (ksVNewEmpty 0)\<rparr>))
               | Some ks \<Rightarrow> do {
                   kr \<leftarrow> keys m1 r;
                   (p, m2, ks') \<leftarrow> metaLookup (storeKey m1 d (kd1\<lparr>meta := None\<rparr>)) ks kr KDB_O_POP;
                   k2 \<leftarrow> keys m2 d;
                   let m3 = storeKey m2 d (k2\<lparr>meta := Some ks'\<rparr>);
                   case p of None \<Rightarrow> Some m3
                   | Some p \<Rightarrow> do { (_, m4) \<leftarrow> keyDelMem m3 p; Some m4 } });
             k4 \<leftarrow> keys m4 d;
             ks4 \<leftarrow> meta k4;
             (_, m5, ks5) \<leftarrow> ksAppendKey (storeKey m4 d (k4\<lparr>meta := None\<rparr>)) ks4 (Some r);
             k5 \<leftarrow> keys m5 d;
             Some (1, storeKey m5 d (k5\<lparr>meta := Some ks5\<rparr>)) } } })"

text \<open>\<open>ret\<close> is \<open>NULL\<close> in the first branch, so its \<open>ksLookup (dest->meta, ret, KDB_O_POP)\<close> finds nothing.\<close>

definition keyCopyAllMeta :: "mem \<Rightarrow> addr option \<Rightarrow> addr option \<Rightarrow> (int \<times> mem) option" where
  "keyCopyAllMeta m dest source = (case (source, dest) of
     (None, _) \<Rightarrow> Some (-1, m)
   | (_, None) \<Rightarrow> Some (-1, m)
   | (Some s, Some d) \<Rightarrow> do { kd \<leftarrow> keys m d;
       if flags kd AND KEY_FLAG_RO_META \<noteq> 0 then Some (-1, m)
       else do { kS \<leftarrow> keys m s;
         case meta kS of None \<Rightarrow> Some (0, m)
         | Some ss \<Rightarrow> do {
             (ks', m2) \<leftarrow> (case meta kd of
                 Some ks \<Rightarrow> do { (_, m2, ks') \<leftarrow> ksAppend (storeKey m d (kd\<lparr>meta := None\<rparr>)) ks (Some ss); Some (Some ks', m2) }
               | None \<Rightarrow> ksDup m (Some ss));
             k2 \<leftarrow> keys m2 d;
             Some (1, storeKey m2 d (k2\<lparr>meta := ks'\<rparr>)) } } })"

section \<open>The owner (owner.c)\<close>

definition keyOwner :: "mem \<Rightarrow> Key option \<Rightarrow> string option" where
  "keyOwner m k = (case k of None \<Rightarrow> None
     | Some k \<Rightarrow> (case ownerOf m k of None \<Rightarrow> Some [] | Some o' \<Rightarrow> Some o'))"

definition keyGetOwnerSize :: "mem \<Rightarrow> Key option \<Rightarrow> int" where
  "keyGetOwnerSize m k = (case k of None \<Rightarrow> -1
     | Some k \<Rightarrow> let sz = keyGetValueSize m (metaFind m k ''owner'')
                in if sz = 0 \<or> sz = -1 then 1 else sz)"

definition keyGetOwner :: "mem \<Rightarrow> Key option \<Rightarrow> bool \<Rightarrow> nat \<Rightarrow> int \<times> string option" where
  "keyGetOwner m k returnedOwner maxSize = (case k of None \<Rightarrow> (-1, None)
     | Some k \<Rightarrow>
         if maxSize = 0 then (-1, None)
         else if \<not> returnedOwner then (-1, None)
         else if maxSize > SSIZE_MAX then (-1, None)
         else
           let owner = keyValue m (metaFind m k ''owner'');
               ownerSize = keyGetValueSize m (metaFind m k ''owner'')
           in (case owner of None \<Rightarrow> (1, Some [])
               | Some o' \<Rightarrow> if int maxSize < ownerSize then (-1, Some (take maxSize (upto_nul o')))
                           else (ownerSize, Some (take maxSize (upto_nul o')))))"

definition keySetOwner :: "mem \<Rightarrow> addr option \<Rightarrow> string option \<Rightarrow> (int \<times> mem) option" where
  "keySetOwner m a newOwner = (case a of None \<Rightarrow> Some (-1, m)
     | Some a' \<Rightarrow>
         if newOwner = None \<or> newOwner = Some [] then
           do { (_, m1) \<leftarrow> keySetMeta m a (Some ''owner'') None; Some (1, m1) }
         else
           do { (_, m1) \<leftarrow> keySetMeta m a (Some ''owner'') newOwner;
                Some (keyGetOwnerSize m1 (keys m1 a'), m1) })"

section \<open>Setting names (keyname.c)\<close>

definition elektraKeySetName :: "mem \<Rightarrow> addr option \<Rightarrow> string option \<Rightarrow> flags_t \<Rightarrow> (int \<times> mem) option" where
  "elektraKeySetName m a newName options = (case a of None \<Rightarrow> Some (-1, m)
     | Some a' \<Rightarrow> do { k \<leftarrow> keys m a';
         if test_bit (flags k) KEY_FLAG_RO_NAME then Some (-1, m)
         else do {
           let m1 = storeKey m a' (elektraRemoveKeyName k);
           m2 \<leftarrow> (if options AND KEY_META_NAME = 0 then do { (_, m2) \<leftarrow> keySetOwner m1 a None; Some m2 } else Some m1);
           k2 \<leftarrow> keys m2 a';
           let (ret, k3, owner) = setNameCore k2 newName options;
           m4 \<leftarrow> (case owner of None \<Rightarrow> Some m2
                 | Some o' \<Rightarrow> do { (_, m3) \<leftarrow> keySetOwner m2 a (Some o'); Some m3 });
           k4 \<leftarrow> keys m4 a';
           Some (ret, storeKey m4 a' (k3\<lparr>meta := meta k4, flags := flags k3 OR flags k4\<rparr>)) } })"

definition keySetName :: "mem \<Rightarrow> addr option \<Rightarrow> string option \<Rightarrow> (int \<times> mem) option" where
  "keySetName m a newName = elektraKeySetName m a newName 0"

definition keyGetFullNameSize :: "mem \<Rightarrow> Key option \<Rightarrow> int" where
  "keyGetFullNameSize m k = (case k of None \<Rightarrow> -1
     | Some kk \<Rightarrow> (case key kk of None \<Rightarrow> 1
       | Some n \<Rightarrow> int (elektraStrLen n) +
           (if keyNameIsUser n \<and> metaFind m kk ''owner'' \<noteq> None then keyGetOwnerSize m k else 0)))"


definition keyGetFullName :: "mem \<Rightarrow> Key option \<Rightarrow> bool \<Rightarrow> nat \<Rightarrow> int \<times> string option" where
  "keyGetFullName m k returnedName maxSize = (case k of None \<Rightarrow> (-1, None)
     | Some kk \<Rightarrow>
         if \<not> returnedName then (-1, None)
         else if maxSize = 0 then (-1, None)
         else if maxSize > SSIZE_MAX then (-1, None)
         else
           let len = keyGetFullNameSize m k in
           if len = 1 then (1, Some [])
           else if len < 0 then (len, None)
           else if len > int maxSize then (-1, None)
           else
             let n = (case key kk of None \<Rightarrow> [] | Some n \<Rightarrow> n);
                 userSize = 4
             in (len, Some
               (if keyIsUser k = 1 then
                  take userSize n @
                  (if metaFind m kk ''owner'' \<noteq> None then
                     '':'' @ take (nat (keyGetValueSize m (metaFind m kk ''owner'') - 1))
                       (case keyValue m (metaFind m kk ''owner'') of None \<Rightarrow> [] | Some o' \<Rightarrow> upto_nul o')
                   else []) @ drop userSize n
                else n)))"

end
