(* ===== verification/KeyMetaFacts.thy ===== *)
theory KeyMetaFacts
  imports KeyMeta
begin

text \<open>
  Metadata as a map from names to values: \<open>keySetMeta\<close> sets or removes one name, keeps all
  others, and keeps the invariant \<open>inv\<close>: reference counts are exact, keys that are metadata have
  none themselves, and the metadata of every key is sorted.
\<close>

section \<open>Names of metadata\<close>

text \<open>A name with the canonical form of a metaname, and no owner in it.\<close>

definition mname :: "string \<Rightarrow> bool" where
  "mname n \<longleftrightarrow> (\<exists>r ls. named (metaKey n) (Some r) ls) \<and> metaOwner n = None"

definition munique :: "string \<Rightarrow> string" where
  "munique n = uname (metaKey n)"

lemma elektraFinalizeName_meta [simp]:
  "meta (snd (elektraFinalizeName k)) = meta k" "ksReference (snd (elektraFinalizeName k)) = ksReference k"
  by (simp_all add: elektraFinalizeName_def Let_def)

lemma keyAddName_meta: "keyAddName (Some k) n = (r, Some k') \<Longrightarrow>
    meta k' = meta k \<and> ksReference k' = ksReference k \<and> flags k' OR KEY_FLAG_SYNC = flags k OR KEY_FLAG_SYNC"
  by (auto simp: or.assoc keyAddName_def Let_def elektraFinalizeName_def split: option.splits if_splits prod.splits)

lemma keyAddName_Some: "\<exists>r k'. keyAddName (Some k) n = (r, Some k')"
  by (auto simp: keyAddName_def Let_def split: option.splits if_splits prod.splits)

lemma setNameRoot_meta: "setNameRoot k n opt = Some (k', o') \<Longrightarrow>
    meta k' = meta k \<and> ksReference k' = ksReference k \<and> flags k' = flags k"
  by (auto simp: setNameRoot_def elektraHandleUserName_def Let_def split: elektraNamespace.splits if_splits)

lemma setNameCore_meta:
  assumes "setNameCore k n opt = (r, k', o')"
  shows "meta k' = meta k \<and> ksReference k' = ksReference k \<and> flags k' OR KEY_FLAG_SYNC = flags k OR KEY_FLAG_SYNC"
proof (cases n)
  case None
  then show ?thesis using assms by (auto simp: or.assoc setNameCore_def elektraFinalizeEmptyName_def elektraRemoveKeyName_def)
next
  case (Some s)
  show ?thesis
  proof (cases "keyGetNameNamespace n = KEY_NS_EMPTY")
    case True
    then show ?thesis using assms Some
      by (auto simp: or.assoc setNameCore_def elektraFinalizeEmptyName_def elektraRemoveKeyName_def)
  next
    case ne: False
    show ?thesis
    proof (cases "setNameRoot (elektraRemoveKeyName k) s opt")
      case None
      then show ?thesis using assms Some ne by (auto simp: or.assoc setNameCore_def elektraRemoveKeyName_def)
    next
      case r: (Some p)
      obtain k1 ow where p: "p = (k1, ow)" by (cases p)
      have k1: "meta k1 = meta k" "ksReference k1 = ksReference k" "flags k1 = flags k"
        using setNameRoot_meta r p by (auto simp: elektraRemoveKeyName_def)
      obtain ra k4 where add: "keyAddName (Some (k1\<lparr>key := Some (take (keySize k1 - 1) s)\<rparr>)) (Some (drop (keyUSize k1) s)) = (ra, Some k4)"
        using keyAddName_Some by blast
      then have "meta k4 = meta k1 \<and> ksReference k4 = ksReference k1 \<and> flags k4 OR KEY_FLAG_SYNC = flags k1 OR KEY_FLAG_SYNC" using keyAddName_meta by fastforce
      then show ?thesis using assms Some ne r p k1 add
        by (auto simp: or.assoc setNameCore_def Let_def elektraFinalizeName_def elektraRemoveKeyName_def split: if_splits)
    qed
  qed
qed

lemma metaKey_meta [simp]: "meta (metaKey n) = None" "ksReference (metaKey n) = 0"
proof -
  obtain r k' o' where "setNameCore keyInit (Some n) (KEY_META_NAME OR KEY_EMPTY_NAME) = (r, k', o')"
    by (metis prod_cases3)
  then show "meta (metaKey n) = None" "ksReference (metaKey n) = 0"
    using setNameCore_meta by (fastforce simp: metaKey_def keyInit_def)+
qed

lemma mname_facts:
  assumes "mname n"
  obtains s where "key (metaKey n) = Some s" "s \<noteq> []" "hd s \<noteq> SLASH" "sized (metaKey n)" "metaOwner n = None"
proof -
  from assms obtain r ls where k: "named (metaKey n) (Some r) ls" and o: "metaOwner n = None"
    by (auto simp: mname_def)
  then have g: "good_levels (Some r) ls" and s: "key (metaKey n) = Some (mkname (Some r) ls)" "sized (metaKey n)"
    by (auto simp: named_def sized_def)
  show thesis using that s o mkname_not_Nil [OF g] hd_mkname [OF g] by simp
qed

text \<open>Every single good level that is not a namespace is such a name.\<close>

lemma mname_level:
  assumes g: "good_level n" and ns: "keyGetNameNamespace (Some n) = KEY_NS_META"
  shows "mname n" "munique n = unescPart n @ [NUL]" "key (metaKey n) = Some n"
proof -
  let ?opt = "KEY_META_NAME OR KEY_EMPTY_NAME" and ?k0 = "elektraRemoveKeyName keyInit"
  have lv: "snd (keyNameGetOneLevel n) = length n"
    using keyNameGetOneLevel_one_level [of n "[]"] g by (simp add: good_level_def)
  have opt: "?opt AND KEY_META_NAME \<noteq> 0" by simp
  define k1 where "k1 = ?k0\<lparr>keySize := length n + 1, keyUSize := length n + 1\<rparr>"
  have r: "setNameRoot ?k0 n ?opt = Some (k1, None)"
    using ns lv opt by (simp add: setNameRoot_def k1_def)
  obtain rr k3 where fin: "elektraFinalizeName (k1\<lparr>key := Some n\<rparr>) = (rr, k3)" by fastforce
  have nm: "named k3 (Some n) []"
    using g by (intro namedI(1) [OF _ fin, of _ _ n]) (simp_all add: mkname_def k1_def)
  have "setNameCore keyInit (Some n) ?opt = (int (keyUSize k3), k3, None)"
    using ns r fin by (simp add: setNameCore_def Let_def k1_def elektraStrLen_def)
  then have mk: "metaKey n = k3" "metaOwner n = None" by (simp_all add: metaKey_def metaOwner_def)
  then show "mname n" using nm unfolding mname_def by blast
  show "munique n = unescPart n @ [NUL]" "key (metaKey n) = Some n"
    using nm mk by (simp_all add: munique_def named_def mkuname_def mkname_def)
qed

section \<open>The invariant\<close>

definition leafs :: "mem \<Rightarrow> addr list \<Rightarrow> bool" where
  "leafs m xs \<longleftrightarrow> (\<forall>b \<in> set xs. \<exists>k. keys m b = Some k \<and> meta k = None)"

definition inv :: "mem \<Rightarrow> addr multiset \<Rightarrow> bool" where
  "inv m E \<longleftrightarrow> heap_ok m E \<and> flat m \<and>
     (\<forall>a k ks xs. keys m a = Some k \<longrightarrow> meta k = Some ks \<longrightarrow> repr ks xs \<longrightarrow> ks_ok m ks xs \<and> cursor_in ks xs)"

text \<open>What an operation changes: keys outside \<open>A\<close> stay as they are, or are freed.\<close>

definition upto :: "addr set \<Rightarrow> mem \<Rightarrow> mem \<Rightarrow> bool" where
  "upto A m m' \<longleftrightarrow> (\<forall>b k'. b \<notin> A \<longrightarrow> keys m' b = Some k' \<longrightarrow> (\<exists>k. keys m b = Some k \<and> core k' = core k))"

lemma uptoD: "upto A m m' \<Longrightarrow> b \<notin> A \<Longrightarrow> keys m' b = Some k' \<Longrightarrow> \<exists>k. keys m b = Some k \<and> core k' = core k"
  by (auto simp: upto_def)

lemma upto_refl [simp]: "upto A m m"
  by (auto simp: upto_def)

lemma upto_trans: "upto A m m' \<Longrightarrow> upto A m' m'' \<Longrightarrow> upto A m m''"
  unfolding upto_def by metis

lemma upto_mono: "upto A m m' \<Longrightarrow> A \<subseteq> B \<Longrightarrow> upto B m m'"
  unfolding upto_def by blast

lemma upto_store [simp]: "a \<in> A \<Longrightarrow> upto A m (storeKey m a k)"
  by (auto simp: upto_def)

lemma upto_frame: "frame m m' \<Longrightarrow> upto A m m'"
  unfolding upto_def frame_def by blast

lemma upto_kept: "kept m m' \<Longrightarrow> (\<And>b. keys m b = None \<Longrightarrow> keys m' b = None) \<Longrightarrow> upto A m m'"
  unfolding upto_def kept_def by (metis not_None_eq)

lemma ownerOf_leaf: "meta k = None \<Longrightarrow> ownerOf m k = None"
  by (simp add: ownerOf_def metaFind_def keyValue_def)

lemma okeyA_leaf: "keys m b = Some k \<Longrightarrow> meta k = None \<Longrightarrow> okeyA m b = (uname k, None)"
  by (simp add: okeyA_def okey_def ownerOf_leaf)

lemma leafsD: "leafs m xs \<Longrightarrow> b \<in> set xs \<Longrightarrow> \<exists>k. keys m b = Some k \<and> meta k = None"
  by (auto simp: leafs_def)

lemma ks_ok_leafs:
  assumes ks: "ks_ok m ks xs" and l: "leafs m xs"
    and c: "\<And>b. b \<in> set xs \<Longrightarrow> \<exists>k k'. keys m b = Some k \<and> keys m' b = Some k' \<and> core k' = core k"
  shows "ks_ok m' ks xs" "leafs m' xs"
proof -
  have e: "okeyA m' b = okeyA m b \<and> (\<exists>k'. keys m' b = Some k' \<and> key k' \<noteq> None \<and> meta k' = None)" if b: "b \<in> set xs" for b
  proof -
    from c [OF b] obtain k k' where k: "keys m b = Some k" "keys m' b = Some k'" "core k' = core k" by blast
    moreover have "meta k = None" using leafsD [OF l b] k(1) by auto
    moreover have "key k \<noteq> None" using ks_okD(2) [OF ks b] k(1) by auto
    ultimately show ?thesis using core_eqD [OF k(3)] by (simp add: okeyA_leaf)
  qed
  then have "map (okeyA m') xs = map (okeyA m) xs" by simp
  then have "sorted_wrt (<) (map (okeyA m') xs)" using ks unfolding ks_ok_def by (simp only:)
  then show "ks_ok m' ks xs" using e ks unfolding ks_ok_def by blast
  show "leafs m' xs" using e by (auto simp: leafs_def)
qed

lemma inv_leafs:
  assumes "inv m E" "keys m a = Some k" "meta k = Some ks" "repr ks xs"
  shows "ks_ok m ks xs" "cursor_in ks xs" "leafs m xs" "\<And>b. b \<in> set xs \<Longrightarrow> b \<in># metaRefs m"
proof -
  from assms have ok: "heap_ok m E" "flat m" and s: "ks_ok m ks xs" "cursor_in ks xs" by (auto simp: inv_def)
  show mem: "b \<in># metaRefs m" if "b \<in> set xs" for b
    using that metaPtrs_subset [OF assms(2) heap_okD(1) [OF ok(1) assms(2)]] metaPtrs_repr [OF assms(3,4)] by simp
  have "\<exists>k. keys m b = Some k \<and> meta k = None" if b: "b \<in> set xs" for b
    using ks_okD(2) [OF s(1) b] mem [OF b] ok(2) unfolding flat_def by blast
  then show "leafs m xs" by (simp add: leafs_def)
  show "ks_ok m ks xs" "cursor_in ks xs" by (fact s)+
qed

lemma inv_meta:
  assumes "inv m E" "keys m a = Some k" "meta k = Some ks"
  obtains xs where "repr ks xs" "ks_ok m ks xs" "cursor_in ks xs" "leafs m xs" "\<And>b. b \<in> set xs \<Longrightarrow> b \<in># metaRefs m"
proof -
  have "wf_key k" using assms(1,2) heap_okD(2) unfolding inv_def by blast
  then obtain xs where "repr ks xs" using assms(3) by (auto simp: wf_key_def)
  then show thesis using that inv_leafs [OF assms] by blast
qed

text \<open>The invariant after changing the metadata of one key, with at most one new key.\<close>

lemma inv_transfer:
  assumes iv: "inv m E" and ok: "heap_ok m' E'" "flat m'" and up: "upto {a, t} m m'"
    and a: "a \<notin># metaRefs m" and t: "keys m t = None" "\<And>k. keys m' t = Some k \<Longrightarrow> t = a \<or> meta k = None"
    and own: "\<And>k ks xs. keys m' a = Some k \<Longrightarrow> meta k = Some ks \<Longrightarrow> repr ks xs \<Longrightarrow> ks_ok m' ks xs \<and> cursor_in ks xs"
  shows "inv m' E'"
  unfolding inv_def
proof (intro conjI allI impI ok)
  fix b k' ks xs assume b: "keys m' b = Some k'" "meta k' = Some ks" "repr ks xs"
  have "ks_ok m' ks xs \<and> cursor_in ks xs"
  proof (cases "b = a")
    case True
    then show ?thesis using own b by blast
  next
    case False
    then have "b \<noteq> t" using t(2) b by auto
    then obtain k where k: "keys m b = Some k" "core k' = core k" using uptoD [OF up, of b k'] False b(1) by auto
    then have mk: "meta k = Some ks" using core_eqD(7) [OF k(2)] b(2) by simp
    note l = inv_leafs [OF iv k(1) mk b(3)]
    have "ks_ok m' ks xs"
    proof (rule ks_ok_leafs(1) [OF l(1,3)])
      fix c assume c: "c \<in> set xs"
      obtain kc where kc: "keys m c = Some kc" using leafsD [OF l(3) c] by blast
      have "c \<noteq> a" "c \<noteq> t" using l(4) [OF c] a t(1) kc by auto
      moreover obtain kc' where kc': "keys m' c = Some kc'" using ok(1) b c by (rule heap_ok_meta_live)
      ultimately obtain k0 where "keys m c = Some k0" "core kc' = core k0" using uptoD [OF up, of c kc'] by auto
      then show "\<exists>k k'. keys m c = Some k \<and> keys m' c = Some k' \<and> core k' = core k" using kc' by blast
    qed
    then show ?thesis using l(2) by simp
  qed
  then show "ks_ok m' ks xs" "cursor_in ks xs" by blast+
qed

section \<open>Looking metadata up\<close>

definition unameA :: "mem \<Rightarrow> addr \<Rightarrow> string" where
  "unameA m b = uname (the (keys m b))"

lemma leafs_sorted_uname:
  assumes "ks_ok m ks xs" "leafs m xs"
  shows "sorted_wrt (\<lambda>a b. unameA m a < unameA m b) xs"
proof -
  have "okeyA m b = (unameA m b, None)" if "b \<in> set xs" for b
    using leafsD [OF assms(2) that] okeyA_leaf by (auto simp: unameA_def)
  then show ?thesis using ks_okD(3) [OF assms(1)]
    by (elim sorted_wrt_mono_rel [rotated]) (simp add: less_prod_def)
qed

lemma bsearch_name:
  assumes ks: "ks_ok m ks xs" and l: "leafs m xs" and ok: "heap_ok m E" and s: "sized k"
  shows "bsearch (keyCompareByName k) (map (\<lambda>b. the (keys m b)) xs) = Some i \<longleftrightarrow> i < length xs \<and> unameA m (xs ! i) = uname k"
    "load m xs = Some (map (\<lambda>b. the (keys m b)) xs)"
proof -
  let ?kk = "map (\<lambda>b. the (keys m b)) xs"
  have w: "\<forall>x \<in> set ?kk. sized x" using leafsD [OF l] heap_ok_sized [OF ok] by force
  have srt: "sorted_wrt (\<lambda>a b. unameA m a < unameA m b) xs" using ks l by (rule leafs_sorted_uname)
  then have le: "sorted_wrt (\<lambda>x y. uname x \<le> uname y) ?kk"
    unfolding sorted_wrt_map unameA_def by (rule sorted_wrt_mono_rel [rotated]) simp
  have inj: "i = j" if "i < length xs" "j < length xs" "unameA m (xs ! i) = unameA m (xs ! j)" for i j
  proof (rule ccontr)
    assume "i \<noteq> j"
    then have "unameA m (xs ! i) < unameA m (xs ! j) \<or> unameA m (xs ! j) < unameA m (xs ! i)"
      using sorted_wrt_nth_less [OF srt] that(1,2) by (metis linorder_neqE_nat)
    then show False using that(3) by simp
  qed
  show "bsearch (keyCompareByName k) ?kk = Some i \<longleftrightarrow> i < length xs \<and> unameA m (xs ! i) = uname k"
  proof
    assume "bsearch (keyCompareByName k) ?kk = Some i"
    from byName.bsearch_Some [OF this s w] show "i < length xs \<and> unameA m (xs ! i) = uname k"
      by (auto simp: unameA_def)
  next
    assume i: "i < length xs \<and> unameA m (xs ! i) = uname k"
    show "bsearch (keyCompareByName k) ?kk = Some i"
    proof (cases "bsearch (keyCompareByName k) ?kk")
      case None
      have "the (keys m (xs ! i)) \<in> set ?kk" using i by simp
      from byName.bsearch_None [OF None s w le this] i show ?thesis by (simp add: unameA_def)
    next
      case (Some j)
      from byName.bsearch_Some [OF this s w] have "j < length xs \<and> unameA m (xs ! j) = uname k"
        by (auto simp: unameA_def)
      then have "j = i" using inj [of j i] i by simp
      then show ?thesis using Some by simp
    qed
  qed
  show "load m xs = Some ?kk" using leafsD [OF l] by (intro load_live) auto
qed

lemma metaFind_leafs:
  assumes ks: "ks_ok m ks xs" and l: "leafs m xs" and ok: "heap_ok m E" and k: "meta k = Some ks" and n: "mname n"
  shows "b \<in> set xs \<Longrightarrow> unameA m b = munique n \<Longrightarrow> metaFind m k n = keys m b"
    "(\<And>b. b \<in> set xs \<Longrightarrow> unameA m b \<noteq> munique n) \<Longrightarrow> metaFind m k n = None"
proof -
  from n obtain s where s: "key (metaKey n) = Some s" "sized (metaKey n)" by (rule mname_facts)
  note b = bsearch_name [OF ks l ok s(2)]
  have eq: "metaFind m k n = (case bsearch (keyCompareByName (metaKey n)) (map (\<lambda>b. the (keys m b)) xs) of
      None \<Rightarrow> None | Some i \<Rightarrow> Some (map (\<lambda>b. the (keys m b)) xs ! i))"
    using k ptrs_repr [OF ks_okD(1) [OF ks]] b(2) s(1) by (simp add: metaFind_def split: option.split)
  show "metaFind m k n = keys m c" if "c \<in> set xs" "unameA m c = munique n" for c
  proof -
    from that obtain i where "i < length xs" "c = xs ! i" by (auto simp: in_set_conv_nth)
    then show ?thesis using eq b(1) [of i] that leafsD [OF l that(1)] by (auto simp: munique_def)
  qed
  show "metaFind m k n = None" if "\<And>c. c \<in> set xs \<Longrightarrow> unameA m c \<noteq> munique n"
    using eq b(1) that by (auto simp: munique_def split: option.split)
qed


section \<open>Removing and adding\<close>

lemma heap_ok_alloc:
  assumes ok: "heap_ok m E" and k: "sized k" "meta k = None" "ksReference k = 0"
  shows "heap_ok (storeKey (snd (elektraKeyMalloc m)) (fresh m) k) E"
    "metaRefs (storeKey (snd (elektraKeyMalloc m)) (fresh m) k) = metaRefs m" "keys m (fresh m) = None"
proof -
  let ?m = "storeKey (snd (elektraKeyMalloc m)) (fresh m) k"
  have km: "keys ?m = (keys m)(fresh m \<mapsto> k)" "fresh ?m = Suc (fresh m)" by (simp_all add: elektraKeyMalloc_def)
  show d: "keys m (fresh m) = None"
  proof (rule ccontr)
    assume "keys m (fresh m) \<noteq> None"
    then obtain k0 where "keys m (fresh m) = Some k0" by auto
    then show False using heap_okD(1) [OF ok] by blast
  qed
  have "(\<Sum>a \<in> {..<fresh m}. metaPtrs (keys ?m a)) = (\<Sum>a \<in> {..<fresh m}. metaPtrs (keys m a))"
    by (rule sum.cong) (simp_all add: elektraKeyMalloc_def)
  then show mr: "metaRefs ?m = metaRefs m" using k(2)
    by (simp add: metaRefs_def elektraKeyMalloc_def)
  have "refs ?m a = refs m a" for a using d k(3) by (simp add: refs_def elektraKeyMalloc_def)
  moreover have "wf_key k" using k by (simp add: wf_key_def)
  ultimately show "heap_ok ?m E" using ok mr by (auto simp: heap_ok_def elektraKeyMalloc_def less_Suc_eq split: if_splits)
qed

lemma filter_uname_out:
  assumes "sorted_wrt (\<lambda>a b. unameA m a < unameA m b) xs" "i < length xs"
  shows "filter (\<lambda>b. unameA m b \<noteq> unameA m (xs ! i)) xs = take i xs @ drop (Suc i) xs"
proof -
  have xs: "xs = take i xs @ xs ! i # drop (Suc i) xs" using assms(2) by (rule id_take_nth_drop)
  have "sorted_wrt (\<lambda>a b. unameA m a < unameA m b) (take i xs @ xs ! i # drop (Suc i) xs)" using assms(1) xs by (simp only:)
  then have "\<forall>b \<in> set (take i xs). unameA m b \<noteq> unameA m (xs ! i)" "\<forall>b \<in> set (drop (Suc i) xs). unameA m b \<noteq> unameA m (xs ! i)"
    by (auto simp: sorted_wrt_append)
  then have "filter (\<lambda>b. unameA m b \<noteq> unameA m (xs ! i)) (take i xs @ xs ! i # drop (Suc i) xs) = take i xs @ drop (Suc i) xs"
    by (simp add: filter_id_conv)
  then show ?thesis by (subst xs)
qed

abbreviation others :: "mem \<Rightarrow> string \<Rightarrow> addr list \<Rightarrow> addr list" where
  "others m n xs \<equiv> filter (\<lambda>b. unameA m b \<noteq> munique n) xs"

lemma metaLookup_pop:
  assumes ks: "ks_ok m ks xs" and l: "leafs m xs" and cur: "cursor_in ks xs" and ok: "heap_ok m (E + mset xs)"
    and n: "mname n" and len: "length xs \<le> SSIZE_MAX"
  obtains p m1 ks' where "metaLookup m ks (metaKey n) KDB_O_POP = Some (p, m1, ks')"
    "ks_ok m1 ks' (others m n xs)" "leafs m1 (others m n xs)" "cursor_in ks' (others m n xs)"
    "heap_ok m1 (E + mset (others m n xs))" "frame m m1" "\<forall>b. keys m b \<noteq> None \<longrightarrow> keys m1 b \<noteq> None"
    "p = None \<longrightarrow> m1 = m" "\<forall>r. p = Some r \<longrightarrow> r \<in> set xs"
proof -
  from n obtain s where s: "key (metaKey n) = Some s" "s \<noteq> []" "hd s \<noteq> SLASH" "sized (metaKey n)" by (rule mname_facts)
  note b = bsearch_name [OF ks l ok s(4)]
  have "metaFind m (metaKey n) ''callback'' = None" by (simp add: metaFind_def)
  moreover have "\<not> test_bit KDB_O_POP KDB_O_WITHOWNER" "\<not> test_bit KDB_O_POP KDB_O_NOCASE" "test_bit KDB_O_POP KDB_O_POP"
    by (simp_all add: test_bit_def)
  ultimately have eq: "metaLookup m ks (metaKey n) KDB_O_POP =
      (case bsearch (keyCompareByName (metaKey n)) (map (\<lambda>b. the (keys m b)) xs) of
         Some i \<Rightarrow> elektraKsPopAtCursor m ks (int i)
       | None \<Rightarrow> do { ks' \<leftarrow> ksSetCursor ks (ksGetCursor (Some ks)); Some (None, m, ks') })"
    using s b(2) ptrs_repr [OF ks_okD(1) [OF ks]]
    by (cases "bsearch (keyCompareByName (metaKey n)) (map (\<lambda>b. the (keys m b)) xs)")
      (simp_all add: metaLookup_def elektraLookupBinarySearch_def Let_def)
  show thesis
  proof (cases "bsearch (keyCompareByName (metaKey n)) (map (\<lambda>b. the (keys m b)) xs)")
    case (Some i)
    then have i: "i < length xs" "unameA m (xs ! i) = munique n" using b(1) by (auto simp: munique_def)
    obtain m1 ks' where pop: "elektraKsPopAtCursor m ks (int i) = Some (Some (xs ! i), m1, ks')"
      "ks_ok m1 ks' (take i xs @ drop (Suc i) xs)" "heap_ok m1 (E + mset (take i xs @ drop (Suc i) xs))"
      "frame m m1" "\<forall>b. keys m b \<noteq> None \<longrightarrow> keys m1 b \<noteq> None" "cursor_ok ks' (take i xs @ drop (Suc i) xs)"
      using elektraKsPopAtCursor_ok [OF ks ok i(1) len] by metis
    have o: "others m n xs = take i xs @ drop (Suc i) xs"
      using filter_uname_out [OF leafs_sorted_uname [OF ks l] i(1)] i(2) by simp
    have "leafs m1 (others m n xs)"
      unfolding leafs_def
    proof
      fix c assume "c \<in> set (others m n xs)"
      then have c: "c \<in> set xs" by simp
      obtain k where k: "keys m c = Some k" "meta k = None" using leafsD [OF l c] by blast
      then have "keys m1 c \<noteq> None" using pop(5) by blast
      then obtain k1 where k1: "keys m1 c = Some k1" by auto
      then show "\<exists>k. keys m1 c = Some k \<and> meta k = None" using frameD(1) [OF pop(4) k(1) k1] core_eqD(7) k by metis
    qed
    moreover have "cursor_in ks' (others m n xs)" using pop(6) unfolding o
      by (auto simp: cursor_ok_def cursor_in_def split: option.splits)
    ultimately show thesis using that [of "Some (xs ! i)" m1 ks'] eq Some pop i(1) o by simp
  next
    case None
    have no: "unameA m c \<noteq> munique n" if c: "c \<in> set xs" for c
    proof
      assume u: "unameA m c = munique n"
      from c obtain i where "i < length xs" "c = xs ! i" by (auto simp: in_set_conv_nth)
      then show False using b(1) [of i] None u by (simp add: munique_def)
    qed
    then have o: "others m n xs = xs" by (simp add: filter_id_conv)
    obtain ks' where ks': "ksSetCursor ks (ksGetCursor (Some ks)) = Some ks'" "repr ks' xs" "cursor_in ks' xs"
    proof (cases "cursor ks")
      case None
      then show thesis using that [of "ksRewind ks"] ks_okD(1) [OF ks]
        by (simp add: ksSetCursor_def ksGetCursor_def) (simp add: cursor_in_def ksRewind_def)
    next
      case (Some c)
      then have lt: "current ks < length xs" using cur by (simp add: cursor_in_def)
      then show thesis
        using that [of "ks\<lparr>current := current ks, cursor := Some (xs ! current ks)\<rparr>"] Some ks_okD(1) [OF ks]
          rdArr_repr [OF ks_okD(1) [OF ks] lt] by (simp add: ksSetCursor_def ksGetCursor_def cursor_in_def)
    qed
    have "ks_ok m ks' xs" using ks ks'(2) by (simp add: ks_ok_def)
    then show thesis using that [of None m ks'] eq None ks' o l ok by simp
  qed
qed



text \<open>The keys that are metadata of \<open>k\<close>, and that they are as the invariant wants them.\<close>

definition mlist :: "Key \<Rightarrow> addr list" where
  "mlist k = (case meta k of None \<Rightarrow> [] | Some ks \<Rightarrow> (case ptrs ks of None \<Rightarrow> [] | Some xs \<Rightarrow> xs))"

definition mok :: "mem \<Rightarrow> Key \<Rightarrow> addr list \<Rightarrow> bool" where
  "mok m k ys \<longleftrightarrow> mlist k = ys \<and> (\<forall>ks. meta k = Some ks \<longrightarrow> ks_ok m ks ys \<and> cursor_in ks ys) \<and> leafs m ys"

lemma mlist_repr: "meta k = Some ks \<Longrightarrow> repr ks xs \<Longrightarrow> mlist k = xs"
  by (simp add: mlist_def)

lemma inv_mok: "inv m E \<Longrightarrow> keys m a = Some k \<Longrightarrow> mok m k (mlist k)"
proof (cases "meta k")
  case None
  then show ?thesis by (simp add: mok_def mlist_def leafs_def)
next
  case (Some ks)
  assume iv: "inv m E" and k: "keys m a = Some k"
  obtain xs where xs: "repr ks xs" "ks_ok m ks xs" "cursor_in ks xs" "leafs m xs" using inv_meta [OF iv k Some] by metis
  then show ?thesis using Some mlist_repr [OF Some xs(1)] by (simp add: mok_def)
qed

lemma length_le_fresh:
  assumes "heap_ok m E" "distinct xs" "\<And>b. b \<in> set xs \<Longrightarrow> keys m b \<noteq> None"
  shows "length xs \<le> fresh m"
proof -
  have "b < fresh m" if "b \<in> set xs" for b
  proof -
    from assms(3) [OF that] obtain k where "keys m b = Some k" by auto
    then show ?thesis by (rule heap_okD(1) [OF assms(1)])
  qed
  then have "set xs \<subseteq> {..<fresh m}" by auto
  then have "card (set xs) \<le> fresh m" by (metis card_lessThan card_mono finite_lessThan)
  then show ?thesis using distinct_card [OF assms(2)] by simp
qed

lemma metaRefs_attach:
  assumes "heap_ok m E" "keys m a = Some k" "meta k = None" "b \<in># metaRefs (storeKey m a k')"
  shows "b \<in># metaRefs m \<or> b \<in># metaPtrs (Some k')"
  using assms(4) by (auto simp: metaRefs_iff split: if_splits)

lemma metaRemove_ok:
  assumes iv: "inv m E" and a: "keys m a = Some k" and na: "a \<notin># metaRefs m" and n: "mname n" and small: "fresh m \<le> SSIZE_MAX"
  obtains m' k' where "metaRemove m a n = Some m'" "heap_ok m' E" "flat m'" "upto {a} m m'" "keys m' a = Some k'"
    "core (k'\<lparr>meta := None\<rparr>) = core (k\<lparr>meta := None\<rparr>)" "mok m' k' (others m n (mlist k))"
    "\<forall>b. keys m b \<noteq> None \<longrightarrow> keys m' b = None \<longrightarrow> b \<in># metaRefs m" "fresh m' = fresh m"
    "\<forall>b. b \<in># metaRefs m' \<longrightarrow> b \<in># metaRefs m"
proof -
  from iv have ok: "heap_ok m E" "flat m" by (auto simp: inv_def)
  show thesis
  proof (cases "meta k")
    case None
    have "\<forall>b. keys m b \<noteq> None \<longrightarrow> keys m b = None \<longrightarrow> b \<in># metaRefs m" by blast
    moreover have "metaRemove m a n = Some m" "mok m k (others m n (mlist k))"
      using None a by (simp_all add: metaRemove_def mok_def mlist_def leafs_def)
    ultimately show thesis using that [of m k] a ok by simp
  next
    case (Some ks)
    obtain xs where xs: "repr ks xs" "ks_ok m ks xs" "cursor_in ks xs" "leafs m xs" "\<And>b. b \<in> set xs \<Longrightarrow> b \<in># metaRefs m"
      using inv_meta [OF iv a Some] by metis
    have ml: "mlist k = xs" using Some xs(1) by (rule mlist_repr)
    define m0 where "m0 = storeKey m a (k\<lparr>meta := None\<rparr>)"
    have axs: "a \<notin> set xs" using na xs(5) by blast
    have ok0: "heap_ok m0 (E + mset xs)" unfolding m0_def using ok(1) a Some xs(1) by (rule heap_ok_detach)
    have same0: "keys m0 b = keys m b" if "b \<noteq> a" for b using that by (simp add: m0_def)
    have "\<exists>k k'. keys m b = Some k \<and> keys m0 b = Some k' \<and> core k' = core k" if b: "b \<in> set xs" for b
    proof -
      have "b \<noteq> a" using b axs by blast
      then show ?thesis using leafsD [OF xs(4) b] same0 [of b] by auto
    qed
    note k0 = ks_ok_leafs [OF xs(2,4) this]
    have "length xs \<le> fresh m" using ok(1) ks_okD(4) [OF xs(2)] leafsD [OF xs(4)] by (intro length_le_fresh) auto
    then have len: "length xs \<le> SSIZE_MAX" using small by simp
    have u0: "unameA m0 b = unameA m b" if "b \<in> set xs" for b using that axs same0 [of b] by (cases "b = a") (auto simp: unameA_def)
    then have o0: "others m0 n xs = others m n xs" by (intro filter_cong) auto
    let ?ys = "others m n xs"
    obtain p m1 ks' where p: "metaLookup m0 ks (metaKey n) KDB_O_POP = Some (p, m1, ks')"
      "ks_ok m1 ks' ?ys" "leafs m1 ?ys" "cursor_in ks' ?ys" "heap_ok m1 (E + mset ?ys)" "frame m0 m1"
      "\<forall>b. keys m0 b \<noteq> None \<longrightarrow> keys m1 b \<noteq> None" "p = None \<longrightarrow> m1 = m0" "\<forall>r. p = Some r \<longrightarrow> r \<in> set xs"
      by (rule metaLookup_pop [OF k0 xs(3) ok0 n len, unfolded o0])
    have a0: "keys m0 a = Some (k\<lparr>meta := None\<rparr>)" by (simp add: m0_def)
    then obtain k1 where k1: "keys m1 a = Some k1" using p(7) by fastforce
    note c1 = frameD(1) [OF p(6) a0 k1]
    then have mk1: "meta k1 = None" by (auto dest: core_eqD(7))
    define k2 where "k2 = k1\<lparr>meta := Some ks'\<rparr>"
    define m2 where "m2 = storeKey m1 a k2"
    have ok2: "heap_ok m2 E" unfolding m2_def k2_def using p(5) k1 mk1 ks_okD(1) [OF p(2)] by (rule heap_ok_attach)
    have up2: "upto {a} m m2"
      unfolding m2_def by (rule upto_trans [OF upto_trans]) (auto simp: m0_def intro: upto_frame [OF p(6), unfolded m0_def])
    have ays: "a \<notin> set ?ys" using axs by simp
    have "\<exists>k k'. keys m1 b = Some k \<and> keys m2 b = Some k' \<and> core k' = core k" if b: "b \<in> set ?ys" for b
    proof -
      have "b \<noteq> a" using b ays by blast
      then show ?thesis using leafsD [OF p(3) b] by (auto simp: m2_def)
    qed
    note ks2 = ks_ok_leafs [OF p(2,3) this]
    have mr1: "b \<in># metaRefs m" if "b \<in># metaRefs m1" for b
      using metaRefs_detach [OF ok(1) a] metaRefs_frame [OF p(6) that] unfolding m0_def by blast
    have mr2: "b \<in># metaRefs m" if "b \<in># metaRefs m2" for b
      using metaRefs_attach [OF p(5) k1 mk1, of b k2] that mr1 xs(5)
        metaPtrs_repr [of k2 ks' ?ys] ks_okD(1) [OF p(2)] unfolding m2_def by (auto simp: k2_def)
    have fl2: "flat m2"
      unfolding flat_def
    proof (intro allI impI)
      fix b kb assume b: "b \<in># metaRefs m2" "keys m2 b = Some kb"
      then have "b \<noteq> a" using mr2 na by blast
      then obtain k0 where "keys m b = Some k0" "core kb = core k0" using uptoD [OF up2, of b kb] b(2) by auto
      then show "meta kb = None" using ok(2) mr2 [OF b(1)] core_eqD(7) unfolding flat_def by metis
    qed
    have live2: "keys m2 b \<noteq> None" if "keys m b \<noteq> None" for b
      using that p(7) by (auto simp: m2_def m0_def)
    have fr2: "fresh m2 = fresh m" using p(6) by (simp add: m2_def m0_def frame_def)
    have c2: "core (k2\<lparr>meta := None\<rparr>) = core (k\<lparr>meta := None\<rparr>)"
    proof -
      have "k2\<lparr>meta := None\<rparr> = k1" using mk1 by (simp add: k2_def)
      then show ?thesis using c1 by simp
    qed
    have mok2: "mok m2 k2 ?ys"
      using ks2 p(4) mlist_repr [of k2 ks' ?ys] ks_okD(1) [OF ks2(1)] by (simp add: mok_def k2_def)
    show thesis
    proof (cases p)
      case None
      then have "metaRemove m a n = Some m2"
        using a Some p(1) k1 by (simp add: metaRemove_def m0_def m2_def k2_def)
      moreover have "keys m2 a = Some k2" by (simp add: m2_def)
      moreover have "b \<in># metaRefs m" if "keys m b \<noteq> None" "keys m2 b = None" for b
        using live2 that by blast
      ultimately show thesis using that [of m2 k2, unfolded ml] ok2 fl2 up2 c2 mok2 fr2 mr2 by blast
    next
      case (Some r)
      then have r: "r \<in> set xs" using p(9) by blast
      obtain kr where kr: "keys m2 r = Some kr" using live2 leafsD [OF xs(4) r] by fastforce
      obtain rc m3 where del: "keyDelMem m2 r = Some (rc, m3)" using keyDelMem_returns [OF ok2 fl2 kr] by metis
      note d = del_okD [OF keyDelMem_ok del ok2]
      have "a \<noteq> r" using r axs by blast
      have "a \<notin># metaRefs m2" using mr2 na by blast
      moreover have k2a: "keys m2 a = Some k2" by (simp add: m2_def)
      ultimately have "keys m3 a \<noteq> None" using d(5) \<open>a \<noteq> r\<close> unfolding freed_only_def by blast
      then obtain k3 where k3: "keys m3 a = Some k3" by auto
      note c3 = frameD(1) [OF d(2) k2a k3]
      define k4 where "k4 = k3\<lparr>flags := flags k3 OR KEY_FLAG_SYNC\<rparr>"
      have c4: "core k4 = core k3" "ksReference k4 = ksReference k3" by (simp_all add: k4_def)
      note s = heap_ok_flags [OF d(1) k3 c4]
      let ?m4 = "storeKey m3 a k4"
      have "metaRemove m a n = Some ?m4"
        using a \<open>meta k = Some ks\<close> p(1) k1 Some del k3 by (simp add: metaRemove_def m0_def m2_def k2_def k4_def)
      moreover have mr4: "b \<in># metaRefs m" if "b \<in># metaRefs ?m4" for b
        using that s(3) metaRefs_frame [OF d(2)] mr2 by simp
      moreover have up4: "upto {a} m ?m4"
        by (rule upto_trans [OF upto_trans [OF up2 upto_frame [OF d(2)]]]) simp
      moreover have "flat ?m4"
        unfolding flat_def
      proof (intro allI impI)
        fix b kb assume b: "b \<in># metaRefs ?m4" "keys ?m4 b = Some kb"
        then have "b \<noteq> a" using mr4 na by blast
        then obtain k0 where "keys m b = Some k0" "core kb = core k0" using uptoD [OF up4, of b kb] b(2) by auto
        then show "meta kb = None" using ok(2) mr4 [OF b(1)] core_eqD(7) unfolding flat_def by metis
      qed
      moreover have "core (k4\<lparr>meta := None\<rparr>) = core (k\<lparr>meta := None\<rparr>)"
      proof -
        have "core (x\<lparr>meta := None\<rparr>) = (core x)\<lparr>meta := None\<rparr>" for x by (simp add: core_def)
        then show ?thesis using c2 c3 c4 by metis
      qed
      moreover have "mok ?m4 k4 ?ys"
      proof -
        have mk: "meta k4 = Some ks'" using core_eqD(7) [OF c3] by (simp add: k4_def k2_def)
        have "\<exists>k k'. keys m2 b = Some k \<and> keys ?m4 b = Some k' \<and> core k' = core k" if b: "b \<in> set ?ys" for b
        proof -
          obtain kb where kb: "keys m2 b = Some kb" using leafsD [OF ks2(2) b] by blast
          have "keys ?m4 a = Some k4" by simp
          then obtain kb' where kb': "keys ?m4 b = Some kb'"
            using heap_ok_meta_live [OF s(1) _ mk ks_okD(1) [OF p(2)] b] by metis
          have "b \<noteq> a" using b ays by blast
          then show ?thesis using kb kb' frameD(1) [OF d(2) kb] by simp
        qed
        note x = ks_ok_leafs [OF ks2 this]
        show ?thesis using x p(4) mk mlist_repr [OF mk] ks_okD(1) [OF x(1)] by (simp add: mok_def)
      qed
      moreover have "b \<in># metaRefs m" if "keys m b \<noteq> None" "keys ?m4 b = None" for b
        using d(5) live2 [OF that(1)] that(2) mr2 xs(5) r unfolding freed_only_def
        by (auto split: if_splits)
      moreover have "fresh ?m4 = fresh m" using d(2) fr2 by (simp add: frame_def)
      moreover have "keys ?m4 a = Some k4" by simp
      ultimately show thesis using that [of ?m4 k4, unfolded ml] s(1) by blast
    qed
  qed
qed



lemma metaAppend_ok:
  assumes ok: "heap_ok m E" and fl: "flat m" and a: "keys m a = Some k" and na: "a \<notin># metaRefs m"
    and mk: "mok m k ys" and ays: "a \<notin> set ys"
    and t: "keys m t = Some kt" "key kt \<noteq> None" "meta kt = None" "ksReference kt < SSIZE_MAX" "t \<noteq> a"
    and new: "\<And>b. b \<in> set ys \<Longrightarrow> unameA m b \<noteq> uname kt"
  obtains m' k' zs kt' where "metaAppend m a t = Some m'" "heap_ok m' E" "flat m'" "upto {a} m m'" "keys m' a = Some k'"
    "core (k'\<lparr>meta := None\<rparr>) = core (k\<lparr>meta := None\<rparr>)" "mok m' k' zs" "set zs = insert t (set ys)"
    "\<forall>b. keys m' b = None \<longleftrightarrow> keys m b = None" "\<forall>b. b \<in># metaRefs m' \<longrightarrow> b \<in># metaRefs m \<or> b = t"
proof -
  define m0 where "m0 = storeKey m a (k\<lparr>meta := None\<rparr>)"
  define ks where "ks = (case meta k of None \<Rightarrow> ksVNewEmpty 0 | Some ks \<Rightarrow> ks)"
  have lys: "leafs m ys" using mk by (simp add: mok_def)
  have sub: "b \<in># metaRefs m" if "b \<in> set ys" for b
  proof (cases "meta k")
    case None
    then show ?thesis using mk that by (simp add: mok_def mlist_def)
  next
    case (Some s)
    then have "repr s ys" using mk by (auto simp: mok_def dest: ks_okD(1))
    then show ?thesis using metaPtrs_subset [OF a heap_okD(1) [OF ok a]] metaPtrs_repr [OF Some] that by simp
  qed
  have same0: "keys m0 b = keys m b" if "b \<noteq> a" for b using that by (simp add: m0_def)
  have tr: "\<exists>k k'. keys m b = Some k \<and> keys m0 b = Some k' \<and> core k' = core k" if b: "b \<in> set ys" for b
  proof -
    have "b \<noteq> a" using b ays by blast
    then show ?thesis using leafsD [OF lys b] same0 [of b] by auto
  qed
  have k0: "ks_ok m0 ks ys \<and> leafs m0 ys \<and> cursor_in ks ys \<and> heap_ok m0 (E + mset ys)"
  proof (cases "meta k")
    case None
    then have y: "ys = []" using mk by (simp add: mok_def mlist_def)
    have "m0 = m" using None a by (simp add: m0_def)
    moreover have "cursor_in (ksVNewEmpty 0) []" by (simp add: cursor_in_def ksVNewEmpty_def ksInit_def Let_def)
    ultimately show ?thesis using None y ok ksVNewEmpty_repr(1) by (simp add: ks_def ks_ok_def leafs_def)
  next
    case (Some s)
    then have s: "ks_ok m s ys" "cursor_in s ys" using mk by (simp_all add: mok_def)
    have "heap_ok m0 (E + mset ys)" unfolding m0_def using ok a Some ks_okD(1) [OF s(1)] by (rule heap_ok_detach)
    then show ?thesis using ks_ok_leafs [OF s(1) lys tr] s(2) Some by (simp add: ks_def)
  qed
  then have ks0: "ks_ok m0 ks ys" and l0: "leafs m0 ys" and cur0: "cursor_in ks ys" and ok0: "heap_ok m0 (E + mset ys)" by blast+
  have t0: "keys m0 t = Some kt" using t same0 by simp
  have a0: "keys m0 a = Some (k\<lparr>meta := None\<rparr>)" by (simp add: m0_def)
  have new0: "okeyA m0 b \<noteq> okeyA m0 t" if b: "b \<in> set ys" for b
  proof -
    obtain kb where kb: "keys m0 b = Some kb" "meta kb = None" using leafsD [OF l0 b] by blast
    have "b \<noteq> a" using b ays by blast
    then have "uname kb \<noteq> uname kt" using new [OF b] kb same0 by (simp add: unameA_def)
    then show ?thesis using okeyA_leaf [OF kb] okeyA_leaf [OF t0 t(3)] by simp
  qed
  obtain r m1 ks1 where ap: "ksAppendKey m0 ks (Some t) = Some (r, m1, ks1)" "metaRefs m1 = metaRefs m0"
    "\<And>b. keys m1 b = None \<longleftrightarrow> keys m0 b = None"
    using ksAppendKey_new [OF ks0 ok0 t0 t(2,4) new0] by metis
  define zs where "zs = appended m0 t ys"
  note A = ksAppendKey_ok [OF ks0 ok0 t0 t(2,4) ap(1), folded zs_def]
  have szs: "set zs = insert t (set ys)"
    using new0 by (auto simp: zs_def appended_def) (meson linorder_neqE)
  obtain k1 where k1: "keys m1 a = Some k1" using ap(3) [of a] a0 by auto
  note c1 = keptD [OF A(4) a0 k1]
  have mk1: "meta k1 = None" using core_eqD(7) [OF c1] by simp
  define k2 where "k2 = k1\<lparr>meta := Some ks1\<rparr>"
  define k3 where "k3 = k1\<lparr>meta := Some ks1, flags := flags k1 OR KEY_FLAG_SYNC\<rparr>"
  have ok2: "heap_ok (storeKey m1 a k2) E" unfolding k2_def using A(2) k1 mk1 ks_okD(1) [OF A(1)] by (rule heap_ok_attach)
  have "core k3 = core k2" "ksReference k3 = ksReference k2" by (simp_all add: k2_def k3_def core_def)
  note ok3 = heap_ok_flags [OF ok2 _ this, of a, simplified]
  let ?m' = "storeKey m1 a k3"
  have azs: "a \<notin> set zs" using szs ays t(5) by simp
  have lz: "leafs m1 zs"
    unfolding leafs_def
  proof
    fix b assume b: "b \<in> set zs"
    have "\<exists>k. keys m0 b = Some k \<and> meta k = None" using b szs leafsD [OF l0, of b] t0 t(3) by auto
    then obtain kb where kb: "keys m0 b = Some kb" "meta kb = None" by blast
    then obtain kb1 where kb1: "keys m1 b = Some kb1" using ap(3) [of b] by auto
    then show "\<exists>k. keys m1 b = Some k \<and> meta k = None" using core_eqD(7) [OF keptD [OF A(4) kb(1) kb1]] kb(2) by auto
  qed
  have tr1: "\<exists>k k'. keys m1 b = Some k \<and> keys ?m' b = Some k' \<and> core k' = core k" if b: "b \<in> set zs" for b
  proof -
    have "b \<noteq> a" using b azs by blast
    then show ?thesis using leafsD [OF lz b] by auto
  qed
  note z = ks_ok_leafs [OF A(1) lz tr1]
  have mok3: "mok ?m' k3 zs"
    using z A(6) [OF cur0] mlist_repr [of k3 ks1 zs] ks_okD(1) [OF A(1)] by (simp add: mok_def k3_def)
  have up: "upto {a} m ?m'"
    by (rule upto_trans [OF upto_trans [of _ m m0 m1]])
      (use upto_kept [OF A(4)] ap(3) in \<open>auto simp: m0_def\<close>)
  have mr: "b \<in># metaRefs m \<or> b = t" if "b \<in># metaRefs ?m'" for b
  proof -
    have "b \<in># metaRefs m1 \<or> b \<in># metaPtrs (Some k3)" using metaRefs_attach [OF A(2) k1 mk1 that] .
    moreover have "metaPtrs (Some k3) = mset zs" using metaPtrs_repr [of k3 ks1 zs] ks_okD(1) [OF A(1)] by (simp add: k3_def)
    ultimately show ?thesis using ap(2) metaRefs_detach [OF ok a] szs sub by (auto simp: m0_def)
  qed
  have fl3: "flat ?m'"
    unfolding flat_def
  proof (intro allI impI)
    fix b kb assume b: "b \<in># metaRefs ?m'" "keys ?m' b = Some kb"
    then have ba: "b \<noteq> a" using mr na t(5) by blast
    then obtain kb0 where kb0: "keys m b = Some kb0" "core kb = core kb0" using uptoD [OF up, of b kb] b(2) by auto
    moreover have "meta kb0 = None" using mr [OF b(1)] fl t(1,3) kb0(1) unfolding flat_def by auto
    ultimately show "meta kb = None" using core_eqD(7) by metis
  qed
  have "metaAppend m a t = Some ?m'"
    using a ap(1) k1 unfolding metaAppend_def m0_def ks_def by (simp add: k3_def)
  moreover have "core (k3\<lparr>meta := None\<rparr>) = core (k\<lparr>meta := None\<rparr>)"
  proof -
    have "core (k3\<lparr>meta := None\<rparr>) = (core k1)\<lparr>meta := None\<rparr>" by (simp add: k3_def core_def)
    also have "\<dots> = (core (k\<lparr>meta := None\<rparr>))\<lparr>meta := None\<rparr>" using c1 by simp
    finally show ?thesis by (simp add: core_def)
  qed
  moreover have "keys ?m' b = None \<longleftrightarrow> keys m b = None" for b using ap(3) [of b] a by (auto simp: m0_def)
  moreover have "keys ?m' a = Some k3" by simp
  ultimately show thesis using that [of ?m' k3 zs] ok3(1) fl3 up mok3 szs mr by metis
qed



section \<open>keySetMeta\<close>

text \<open>The value under a name in the metadata of the key at \<open>a\<close>.\<close>

definition metaData :: "mem \<Rightarrow> addr \<Rightarrow> string \<Rightarrow> string option option" where
  "metaData m a n = do { k \<leftarrow> keys m a; kb \<leftarrow> metaFind m k n; Some (data kb) }"

lemma metaFind_mok:
  assumes mk: "mok m k xs" and ok: "heap_ok m E" and n: "mname n"
  shows "b \<in> set xs \<Longrightarrow> unameA m b = munique n \<Longrightarrow> metaFind m k n = keys m b"
    "(\<And>b. b \<in> set xs \<Longrightarrow> unameA m b \<noteq> munique n) \<Longrightarrow> metaFind m k n = None"
proof -
  have "(\<forall>b \<in> set xs. unameA m b = munique n \<longrightarrow> metaFind m k n = keys m b) \<and>
    ((\<forall>b \<in> set xs. unameA m b \<noteq> munique n) \<longrightarrow> metaFind m k n = None)"
  proof (cases "meta k")
    case None
    then show ?thesis using mk by (auto simp: mok_def mlist_def metaFind_def)
  next
    case (Some ks)
    then have k: "ks_ok m ks xs" "leafs m xs" using mk by (auto simp: mok_def)
    show ?thesis using metaFind_leafs [OF k ok Some n] by blast
  qed
  then show "b \<in> set xs \<Longrightarrow> unameA m b = munique n \<Longrightarrow> metaFind m k n = keys m b"
    "(\<And>b. b \<in> set xs \<Longrightarrow> unameA m b \<noteq> munique n) \<Longrightarrow> metaFind m k n = None" by blast+
qed

text \<open>Metadata agrees where the lists of keys agree on a name.\<close>

lemma metaData_agree:
  assumes 1: "heap_ok m E" "keys m a = Some k" "mok m k xs" and 2: "heap_ok m' E'" "keys m' a' = Some k'" "mok m' k' zs"
    and n: "mname n"
    and fwd: "\<And>b. b \<in> set xs \<Longrightarrow> unameA m b = munique n \<Longrightarrow> b \<in> set zs"
    and bwd: "\<And>b. b \<in> set zs \<Longrightarrow> unameA m' b = munique n \<Longrightarrow> b \<in> set xs"
    and same: "\<And>b. b \<in> set xs \<Longrightarrow> b \<in> set zs \<Longrightarrow> \<exists>kb kb'. keys m b = Some kb \<and> keys m' b = Some kb' \<and> core kb' = core kb"
  shows "metaData m' a' n = metaData m a n"
proof (cases "\<exists>b \<in> set xs. unameA m b = munique n")
  case True
  then obtain b where b: "b \<in> set xs" "unameA m b = munique n" by blast
  then obtain kb kb' where kb: "keys m b = Some kb" "keys m' b = Some kb'" "core kb' = core kb" using fwd same by blast
  then have "unameA m' b = munique n" using b core_eqD(4) [OF kb(3)] by (simp add: unameA_def)
  then show ?thesis
    using metaFind_mok(1) [OF 1(3,1) n b] metaFind_mok(1) [OF 2(3,1) n fwd [OF b]] kb core_eqD(1) [OF kb(3)] 1(2) 2(2)
    by (simp add: metaData_def)
next
  case False
  have "unameA m' b \<noteq> munique n" if bz: "b \<in> set zs" for b
  proof
    assume u: "unameA m' b = munique n"
    then have b: "b \<in> set xs" using bwd bz by blast
    obtain kb kb' where "keys m b = Some kb" "keys m' b = Some kb'" "core kb' = core kb" using same [OF b bz] by blast
    then have "unameA m b = munique n" using u core_eqD(4) [of kb' kb] by (simp add: unameA_def)
    then show False using False b by blast
  qed
  then have "metaFind m' k' n = None" by (rule metaFind_mok(2) [OF 2(3,1) n])
  moreover have "metaFind m k n = None" using False by (intro metaFind_mok(2) [OF 1(3,1) n]) blast
  ultimately show ?thesis using 1(2) 2(2) by (simp add: metaData_def)
qed

lemma inv_alloc:
  assumes iv: "inv m E" and k: "sized k" "meta k = None" "ksReference k = 0"
  shows "inv (storeKey (snd (elektraKeyMalloc m)) (fresh m) k) E"
proof -
  let ?m = "storeKey (snd (elektraKeyMalloc m)) (fresh m) k"
  have ok: "heap_ok m E" "flat m" using iv by (auto simp: inv_def)
  note al = heap_ok_alloc [OF ok(1) k]
  have t: "fresh m \<notin># metaRefs m"
    using heap_ok_live [OF ok(1), of "fresh m"] al(3) by (metis option.distinct(1) union_iff)
  have up: "upto {fresh m, fresh m} m ?m" by (auto simp: upto_def elektraKeyMalloc_def)
  show ?thesis
  proof (rule inv_transfer [OF iv al(1) _ up t al(3)])
    show "flat ?m" using ok(2) t unfolding flat_def al(2) by (auto simp: elektraKeyMalloc_def)
  qed (use k in auto)
qed

lemma not_in_refs: "heap_ok m E \<Longrightarrow> keys m t = None \<or> refs m t = 0 \<Longrightarrow> t \<notin># metaRefs m + E"
  using heap_okD(3) [of m E t] by (metis count_eq_zero_iff option.case(1) refs_def)

text \<open>The common part of setting and removing: up to the branch on the new value.\<close>

lemma keySetMeta_start:
  assumes iv: "inv m E" and a: "keys m a = Some k" and na: "a \<notin># metaRefs m" and n: "mname n"
    and small: "fresh m < SSIZE_MAX"
  obtains m2 k2 t where "metaRemove (storeKey (snd (elektraKeyMalloc m)) (fresh m) (metaKey n)) a n = Some m2"
    "heap_ok m2 E" "flat m2" "upto {a, fresh m} m m2" "keys m2 a = Some k2" "core (k2\<lparr>meta := None\<rparr>) = core (k\<lparr>meta := None\<rparr>)"
    "mok m2 k2 (others m n (mlist k))" "keys m2 (fresh m) = Some t" "core t = core (metaKey n)" "ksReference t = 0"
    "fresh m \<notin># metaRefs m2 + E" "\<forall>b. b \<in># metaRefs m2 \<longrightarrow> b \<in># metaRefs m" "keys m (fresh m) = None"
    "fresh m \<notin> set (mlist k)" "a \<notin> set (mlist k)"
proof -
  let ?t = "fresh m" and ?m1 = "storeKey (snd (elektraKeyMalloc m)) (fresh m) (metaKey n)"
  have ok: "heap_ok m E" "flat m" using iv by (auto simp: inv_def)
  from n obtain s where s: "sized (metaKey n)" by (rule mname_facts)
  note al = heap_ok_alloc [OF ok(1) s metaKey_meta]
  have iv1: "inv ?m1 E" by (rule inv_alloc [OF iv s metaKey_meta])
  have at: "a \<noteq> ?t" using a al(3) by auto
  have k1: "keys ?m1 b = keys m b" if "b \<noteq> ?t" for b using that by (simp add: elektraKeyMalloc_def)
  have a1: "keys ?m1 a = Some k" using a at k1 by simp
  have small1: "fresh ?m1 \<le> SSIZE_MAX" using small by (simp add: elektraKeyMalloc_def)
  have tr: "?t \<notin># metaRefs m + E" using not_in_refs [OF ok(1)] al(3) by blast
  have mk: "mok m k (mlist k)" by (rule inv_mok [OF iv a])
  have sub: "b \<in># metaRefs m \<and> keys m b \<noteq> None" if "b \<in> set (mlist k)" for b
  proof -
    from that obtain ks where ks: "meta k = Some ks" by (cases "meta k") (auto simp: mlist_def)
    then obtain xs where xs: "repr ks xs" "leafs m xs" "\<And>b. b \<in> set xs \<Longrightarrow> b \<in># metaRefs m" using inv_meta [OF iv a ks] by metis
    then show ?thesis using that mlist_repr [OF ks xs(1)] leafsD [OF xs(2)] by fastforce
  qed
  have tn: "?t \<notin> set (mlist k)" using sub al(3) by blast
  have o: "others ?m1 n (mlist k) = others m n (mlist k)"
  proof (rule filter_cong)
    fix b assume "b \<in> set (mlist k)"
    then have "b \<noteq> ?t" using tn by blast
    then show "(unameA ?m1 b \<noteq> munique n) = (unameA m b \<noteq> munique n)" using k1 by (simp add: unameA_def)
  qed simp
  obtain m2 k2 where r: "metaRemove ?m1 a n = Some m2" "heap_ok m2 E" "flat m2" "upto {a} ?m1 m2" "keys m2 a = Some k2"
    "core (k2\<lparr>meta := None\<rparr>) = core (k\<lparr>meta := None\<rparr>)" "mok m2 k2 (others m n (mlist k))"
    "\<forall>b. keys ?m1 b \<noteq> None \<longrightarrow> keys m2 b = None \<longrightarrow> b \<in># metaRefs ?m1" "fresh m2 = fresh ?m1"
    "\<forall>b. b \<in># metaRefs m2 \<longrightarrow> b \<in># metaRefs ?m1"
    by (rule metaRemove_ok [OF iv1 a1 na [folded al(2)] n small1, unfolded o])
  have "keys ?m1 ?t \<noteq> None" by simp
  moreover have "?t \<notin># metaRefs ?m1" using tr al(2) by simp
  ultimately have "keys m2 ?t \<noteq> None" using r(8) by metis
  then obtain t where t: "keys m2 ?t = Some t" by auto
  have ct: "core t = core (metaKey n)" using uptoD [OF r(4) _ t] at by auto
  have tr2: "?t \<notin># metaRefs m2 + E" using r(10) tr al(2) by auto
  then have "ksReference t = 0" using heap_okD(3) [OF r(2), of ?t] t by (simp add: refs_def not_in_iff)
  moreover have "upto {a, ?t} m m2"
    by (rule upto_trans [of _ m ?m1]) (use r(4) in \<open>auto simp: upto_def elektraKeyMalloc_def\<close>)
  moreover have "a \<notin> set (mlist k)" using sub na by blast
  moreover have "\<forall>b. b \<in># metaRefs m2 \<longrightarrow> b \<in># metaRefs m" using r(10) al(2) by simp
  ultimately show thesis using that [of m2 k2 t] r(1-3,5-7) t ct tr2 al(3) tn by blast
qed

theorem keySetMeta_set:
  assumes iv: "inv m E" and a: "keys m a = Some k" "flags k AND KEY_FLAG_RO_META = 0" and na: "a \<notin># metaRefs m"
    and n: "mname n" and small: "fresh m < SSIZE_MAX"
  obtains m' k' where "keySetMeta m (Some a) (Some n) (Some s) = Some (int (elektraStrLen s), m')" "inv m' E"
    "keys m' a = Some k'" "core (k'\<lparr>meta := None\<rparr>) = core (k\<lparr>meta := None\<rparr>)" "a \<notin># metaRefs m'"
    "metaData m' a n = Some (Some (s @ [NUL]))"
    "\<forall>n'. mname n' \<longrightarrow> munique n' \<noteq> munique n \<longrightarrow> metaData m' a n' = metaData m a n'"
    "upto {a, fresh m} m m'"
proof -
  let ?t = "fresh m" and ?ys = "others m n (mlist k)"
  obtain m2 k2 t where r: "metaRemove (storeKey (snd (elektraKeyMalloc m)) (fresh m) (metaKey n)) a n = Some m2"
    "heap_ok m2 E" "flat m2" "upto {a, fresh m} m m2" "keys m2 a = Some k2" "core (k2\<lparr>meta := None\<rparr>) = core (k\<lparr>meta := None\<rparr>)"
    "mok m2 k2 ?ys" "keys m2 ?t = Some t" "core t = core (metaKey n)" "ksReference t = 0"
    "?t \<notin># metaRefs m2 + E" "\<forall>b. b \<in># metaRefs m2 \<longrightarrow> b \<in># metaRefs m" "keys m ?t = None"
    "?t \<notin> set (mlist k)" "a \<notin> set (mlist k)"
    by (rule keySetMeta_start [OF iv a(1) na n small])
  from n obtain nm where nm: "key (metaKey n) = Some nm" "sized (metaKey n)" "metaOwner n = None" by (rule mname_facts)
  have at: "a \<noteq> ?t" using a r(13) by auto
  define t1 where "t1 = metaString s t"
  have t1: "meta t1 = None" "ksReference t1 = 0" "key t1 = Some nm" "uname t1 = munique n" "data t1 = Some (s @ [NUL])" "sized t1"
    using core_eqD [OF r(9)] r(10) nm by (simp_all add: t1_def metaString_def munique_def sized_def)
  define m3 where "m3 = storeKey m2 ?t t1"
  have mt: "meta t = None" using core_eqD(7) [OF r(9)] by simp
  have ok3: "heap_ok m3 E"
    unfolding m3_def using t1 r(10) mt by (intro heap_ok_store [OF r(2,8)]) (simp_all add: wf_key_def)
  have mr3: "metaRefs m3 = metaRefs m2"
    using metaRefs_upd [OF heap_okD(1) [OF r(2,8)], of "Some t1"] t1(1) mt r(8) by (simp add: m3_def storeKey_def)
  have s3: "keys m3 b = keys m2 b" if "b \<noteq> ?t" for b using that by (simp add: m3_def)
  have fl3: "flat m3" using r(3,11) unfolding flat_def mr3 by (auto simp: m3_def)
  have tys: "b \<noteq> ?t \<and> b \<noteq> a" if "b \<in> set ?ys" for b using that r(14,15) by auto
  have lys: "leafs m2 ?ys" using r(7) by (simp add: mok_def)
  have tr3: "\<exists>k k'. keys m2 b = Some k \<and> keys m3 b = Some k' \<and> core k' = core k" if "b \<in> set ?ys" for b
    using leafsD [OF lys that] s3 tys [OF that] by auto
  have leafs3: "leafs m3 ?ys" using lys s3 tys unfolding leafs_def by metis
  have mk3: "mok m3 k2 ?ys"
    using r(7) ks_ok_leafs [OF _ lys tr3] leafs3 unfolding mok_def by blast
  have un3: "unameA m3 b \<noteq> uname t1" if b: "b \<in> set ?ys" for b
  proof -
    have live: "keys m2 b \<noteq> None" using leafsD [OF lys b] by auto
    then obtain kb kb2 where kb: "keys m b = Some kb" "keys m2 b = Some kb2" "core kb2 = core kb"
      using uptoD [OF r(4), of b] tys [OF b] by auto
    have "keys m3 b = Some kb2" using s3 kb(2) tys [OF b] by simp
    then have "unameA m3 b = unameA m b" using core_eqD(4) [OF kb(3)] kb(1) by (simp add: unameA_def)
    then show ?thesis using b t1(4) by simp
  qed
  have na3: "a \<notin># metaRefs m3" using na r(12) mr3 by auto
  have a3: "keys m3 a = Some k2" using r(5) s3 at by simp
  have ays: "a \<notin> set ?ys" using r(15) by simp
  have tt: "keys m3 ?t = Some t1" "key t1 \<noteq> None" "ksReference t1 < SSIZE_MAX" using t1(2,3) small by (simp_all add: m3_def)
  obtain m' k' zs where ap: "metaAppend m3 a ?t = Some m'" "heap_ok m' E" "flat m'" "upto {a} m3 m'" "keys m' a = Some k'"
    "core (k'\<lparr>meta := None\<rparr>) = core (k2\<lparr>meta := None\<rparr>)" "mok m' k' zs" "set zs = insert ?t (set ?ys)"
    "\<forall>b. keys m' b = None \<longleftrightarrow> keys m3 b = None" "\<forall>b. b \<in># metaRefs m' \<longrightarrow> b \<in># metaRefs m3 \<or> b = ?t"
    using metaAppend_ok [OF ok3 fl3 a3 na3 mk3 ays tt(1,2) t1(1) tt(3) at [symmetric] un3] by metis
  have up: "upto {a, ?t} m m'"
    by (rule upto_trans [OF upto_trans [OF r(4), of m3]])
      (use upto_mono [OF ap(4)] in \<open>auto simp: m3_def\<close>)
  have iv': "inv m' E"
  proof (rule inv_transfer [OF iv ap(2,3) up na r(13)])
    fix kt assume "keys m' ?t = Some kt"
    then have "core kt = core t1" using uptoD [OF ap(4), of ?t kt] at by (auto simp: m3_def)
    then show "?t = a \<or> meta kt = None" using core_eqD(7) t1(1) by metis
  next
    fix kk ks xs assume "keys m' a = Some kk" "meta kk = Some ks" "repr ks xs"
    then show "ks_ok m' ks xs \<and> cursor_in ks xs" using ap(5,7) mlist_repr by (auto simp: mok_def)
  qed
  have "keys m' ?t \<noteq> None" using ap(9) tt(1) by (metis option.distinct(1))
  then obtain t' where t': "keys m' ?t = Some t'" by auto
  then have ct': "core t' = core t1" using uptoD [OF ap(4), of ?t t'] at by (auto simp: m3_def)
  have tz: "?t \<in> set zs" using ap(8) by simp
  have "metaFind m' k' n = keys m' ?t"
    using metaFind_mok(1) [OF ap(7,2) n tz] t' core_eqD(4) [OF ct'] t1(4) by (simp add: unameA_def)
  then have md: "metaData m' a n = Some (Some (s @ [NUL]))"
    using t' core_eqD(1) [OF ct'] t1(5) ap(5) by (simp add: metaData_def)
  have other: "metaData m' a n' = metaData m a n'" if n': "mname n'" and d: "munique n' \<noteq> munique n" for n'
  proof (rule metaData_agree [OF _ a(1) inv_mok [OF iv a(1)] ap(2,5,7) n'])
    show "heap_ok m E" using iv by (simp add: inv_def)
    show "b \<in> set zs" if "b \<in> set (mlist k)" "unameA m b = munique n'" for b using that d ap(8) by simp
    show "b \<in> set (mlist k)" if "b \<in> set zs" "unameA m' b = munique n'" for b
    proof -
      have "b \<noteq> ?t" using that d t' core_eqD(4) [OF ct'] t1(4) by (auto simp: unameA_def)
      then show ?thesis using that ap(8) by simp
    qed
    show "\<exists>kb kb'. keys m b = Some kb \<and> keys m' b = Some kb' \<and> core kb' = core kb" if bx: "b \<in> set (mlist k)" and bz: "b \<in> set zs" for b
    proof -
      have "leafs m' zs" using ap(7) by (simp add: mok_def)
      then obtain kb' where kb': "keys m' b = Some kb'" using leafsD bz by blast
      have "b \<notin> {a, ?t}" using bx r(14,15) by auto
      then show ?thesis using uptoD [OF up _ kb'] kb' by auto
    qed
  qed
  have "keySetMeta m (Some a) (Some n) (Some s) = Some (int (elektraStrLen s), m')"
    using a nm(3) r(1,8) ap(1) unfolding keySetMeta_def
    by (simp add: elektraKeyMalloc_def Let_def m3_def t1_def)
  moreover have "core (k'\<lparr>meta := None\<rparr>) = core (k\<lparr>meta := None\<rparr>)" using ap(6) r(6) by simp
  moreover have "a \<notin># metaRefs m'" using ap(10) mr3 r(12) na at by metis
  ultimately show thesis using that iv' ap(5) md other up by blast
qed


theorem keySetMeta_unset:
  assumes iv: "inv m E" and a: "keys m a = Some k" "flags k AND KEY_FLAG_RO_META = 0" and na: "a \<notin># metaRefs m"
    and n: "mname n" and small: "fresh m < SSIZE_MAX"
  obtains m' k' where "keySetMeta m (Some a) (Some n) None = Some (0, m')" "inv m' E"
    "keys m' a = Some k'" "core (k'\<lparr>meta := None\<rparr>) = core (k\<lparr>meta := None\<rparr>)" "a \<notin># metaRefs m'" "metaData m' a n = None"
    "\<forall>n'. mname n' \<longrightarrow> munique n' \<noteq> munique n \<longrightarrow> metaData m' a n' = metaData m a n'"
    "upto {a, fresh m} m m'"
proof (cases "meta k = None")
  case True
  then show thesis using that [of m k] iv a na by (simp add: keySetMeta_def metaData_def metaFind_def)
next
  case False
  let ?t = "fresh m" and ?ys = "others m n (mlist k)"
  obtain m2 k2 t where r: "metaRemove (storeKey (snd (elektraKeyMalloc m)) (fresh m) (metaKey n)) a n = Some m2"
    "heap_ok m2 E" "flat m2" "upto {a, fresh m} m m2" "keys m2 a = Some k2" "core (k2\<lparr>meta := None\<rparr>) = core (k\<lparr>meta := None\<rparr>)"
    "mok m2 k2 ?ys" "keys m2 ?t = Some t" "core t = core (metaKey n)" "ksReference t = 0"
    "?t \<notin># metaRefs m2 + E" "\<forall>b. b \<in># metaRefs m2 \<longrightarrow> b \<in># metaRefs m" "keys m ?t = None"
    "?t \<notin> set (mlist k)" "a \<notin> set (mlist k)"
    by (rule keySetMeta_start [OF iv a(1) na n small])
  from n obtain nm where nm: "key (metaKey n) = Some nm" "sized (metaKey n)" "metaOwner n = None" by (rule mname_facts)
  have at: "a \<noteq> ?t" using a r(13) by auto
  obtain rc m3 where del: "keyDelMem m2 ?t = Some (rc, m3)" using keyDelMem_returns [OF r(2,3,8)] by metis
  note d = del_okD [OF keyDelMem_ok del r(2)]
  have "refs m2 ?t = 0" using r(8,10) by (simp add: refs_def)
  then have t3: "keys m3 ?t = None" by (rule d(4))
  have "a \<notin># metaRefs m2" using na r(12) by blast
  then have "keys m3 a \<noteq> None" using d(5) r(5) at unfolding freed_only_def by blast
  then obtain k3 where k3: "keys m3 a = Some k3" by auto
  note c3 = frameD(1) [OF d(2) r(5) k3]
  have up: "upto {a, ?t} m m3" by (rule upto_trans [OF r(4) upto_frame [OF d(2)]])
  have lys: "leafs m2 ?ys" using r(7) by (simp add: mok_def)
  have ok3: "ks_ok m3 ks ?ys \<and> leafs m3 ?ys" if ks: "meta k3 = Some ks" for ks
  proof -
    have ks2: "meta k2 = Some ks" using core_eqD(7) [OF c3] ks by simp
    then have o2: "ks_ok m2 ks ?ys" using r(7) by (simp add: mok_def)
    have "\<exists>k k'. keys m2 b = Some k \<and> keys m3 b = Some k' \<and> core k' = core k" if b: "b \<in> set ?ys" for b
    proof -
      obtain kb where kb: "keys m2 b = Some kb" using leafsD [OF lys b] by blast
      obtain kb' where kb': "keys m3 b = Some kb'" using heap_ok_meta_live [OF d(1) k3 ks ks_okD(1) [OF o2] b] by metis
      then show ?thesis using kb frameD(1) [OF d(2) kb kb'] by simp
    qed
    then show ?thesis using ks_ok_leafs [OF o2 lys] by blast
  qed
  have mk3: "mok m3 k3 ?ys"
  proof (cases "meta k3")
    case None
    then have "?ys = []" using r(7) core_eqD(7) [OF c3] by (simp add: mok_def mlist_def)
    then show ?thesis using None by (simp add: mok_def mlist_def leafs_def)
  next
    case (Some ks)
    then have "meta k2 = Some ks" using core_eqD(7) [OF c3] by simp
    then show ?thesis using ok3 [OF Some] Some r(7) by (simp add: mok_def mlist_def)
  qed
  have fl3: "flat m3"
    unfolding flat_def
  proof (intro allI impI)
    fix b kb assume b: "b \<in># metaRefs m3" "keys m3 b = Some kb"
    then have b2: "b \<in># metaRefs m2" using metaRefs_frame [OF d(2)] by blast
    obtain kb0 where "keys m2 b = Some kb0" "core kb = core kb0" using uptoD [OF upto_frame [OF d(2)], of b "{}"] b(2) by auto
    then show "meta kb = None" using r(3) b2 core_eqD(7) unfolding flat_def by metis
  qed
  have iv': "inv m3 E"
  proof (rule inv_transfer [OF iv d(1) fl3 up na r(13)])
    show "?t = a \<or> meta kt = None" if "keys m3 ?t = Some kt" for kt using that t3 by simp
    show "ks_ok m3 ks xs \<and> cursor_in ks xs" if "keys m3 a = Some kk" "meta kk = Some ks" "repr ks xs" for kk ks xs
      using that k3 mk3 mlist_repr by (auto simp: mok_def)
  qed
  have u: "unameA m3 b = unameA m b \<and> (\<exists>kb kb'. keys m b = Some kb \<and> keys m3 b = Some kb' \<and> core kb' = core kb)"
    if b: "b \<in> set ?ys" for b
  proof -
    have "leafs m3 ?ys" using mk3 by (simp add: mok_def)
    then obtain kb' where kb': "keys m3 b = Some kb'" using leafsD [OF _ b] by blast
    have "b \<notin> {a, ?t}" using b r(14,15) by auto
    then obtain kb where kb: "keys m b = Some kb" "core kb' = core kb" using uptoD [OF up _ kb'] by auto
    then show ?thesis using kb' core_eqD(4) [OF kb(2)] by (simp add: unameA_def)
  qed
  have "unameA m3 b \<noteq> munique n" if "b \<in> set ?ys" for b using u [OF that] that by simp
  then have "metaFind m3 k3 n = None" by (rule metaFind_mok(2) [OF mk3 d(1) n])
  then have md: "metaData m3 a n = None" using k3 by (simp add: metaData_def)
  have other: "metaData m3 a n' = metaData m a n'" if n': "mname n'" and dn: "munique n' \<noteq> munique n" for n'
  proof (rule metaData_agree [OF _ a(1) inv_mok [OF iv a(1)] d(1) k3 mk3 n'])
    show "heap_ok m E" using iv by (simp add: inv_def)
    show "b \<in> set ?ys" if "b \<in> set (mlist k)" "unameA m b = munique n'" for b using that dn by simp
    show "b \<in> set (mlist k)" if "b \<in> set ?ys" for b using that by simp
    show "\<exists>kb kb'. keys m b = Some kb \<and> keys m3 b = Some kb' \<and> core kb' = core kb" if "b \<in> set ?ys" for b
      using u [OF that] by blast
  qed
  obtain ks where ks: "meta k = Some ks" using False by auto
  have "keySetMeta m (Some a) (Some n) None = Some (0, m3)"
    using a nm(3) r(1,8) ks del unfolding keySetMeta_def
    by (simp add: elektraKeyMalloc_def Let_def)
  moreover have "core (k3\<lparr>meta := None\<rparr>) = core (k\<lparr>meta := None\<rparr>)"
  proof -
    have "core (x\<lparr>meta := None\<rparr>) = (core x)\<lparr>meta := None\<rparr>" for x by (simp add: core_def)
    then show ?thesis using c3 r(6) by metis
  qed
  moreover have "a \<notin># metaRefs m3" using metaRefs_frame [OF d(2)] r(12) na by blast
  ultimately show thesis using that iv' k3 md other up by blast
qed

end
