(* ===== verification/NameProperties.thy ===== *)
theory NameProperties
  imports KeyTest
begin

text \<open>
  The properties of key names (\<open>keyname.c\<close>, \<open>internal.c\<close>, \<open>keyhelpers.c\<close>) and of the
  tests on them (\<open>keytest.c\<close>), each with a witness at a concrete key.
\<close>

section \<open>The unescaped name determines the name\<close>

lemma mkuname_inj:
  assumes r: "root \<in> set plain_roots" "root' \<in> set plain_roots" and g: "good_levels root ls" "good_levels root' ls'"
    and e: "mkuname root ls = mkuname root' ls'"
  shows "root = root' \<and> ls = ls'"
proof -
  have parts: "concat (map (\<lambda>l. unescPart l @ [NUL]) xs) = concat (map (\<lambda>l. unescPart l @ [NUL]) ys) \<Longrightarrow>
    list_all good_level xs \<Longrightarrow> list_all good_level ys \<Longrightarrow> xs = ys" for xs ys
  proof (induction xs arbitrary: ys)
    case Nil
    then show ?case by (cases ys) auto
  next
    case (Cons x xs)
    then obtain y ys' where ys: "ys = y # ys'" by (cases ys) auto
    have c: "cstring (unescPart x)" "cstring (unescPart y)"
      using Cons.prems ys by (auto intro: cstring_unescPart simp: good_level_def)
    have eq: "unescPart x @ NUL # concat (map (\<lambda>l. unescPart l @ [NUL]) xs) = unescPart y @ NUL # concat (map (\<lambda>l. unescPart l @ [NUL]) ys')"
      using Cons.prems(1) ys by simp
    have "takeWhile (\<lambda>c. c \<noteq> NUL) (u @ NUL # v) = u" if "cstring u" for u v
      using that by (auto simp: cstring_def takeWhile_append)
    then have "unescPart x = unescPart y" using eq c by metis
    moreover from this have "concat (map (\<lambda>l. unescPart l @ [NUL]) xs) = concat (map (\<lambda>l. unescPart l @ [NUL]) ys')" using eq by simp
    ultimately show ?case using Cons ys unescPart_inj [of x y] by auto
  qed
  have z: False if "NUL # v = unescPart t @ w" "t \<in> {''spec'', ''proc'', ''dir'', ''user'', ''system''}" for v t w
  proof -
    have "hd (unescPart t) \<noteq> NUL \<and> unescPart t \<noteq> []" using that(2) by (elim insertE) (simp_all add: unescPart_def unescBegin_def)
    then show ?thesis using that(1) by (cases "unescPart t") auto
  qed
  show ?thesis
  proof (cases "root = None"; cases "root' = None")
    show ?thesis if "root = None" "root' = None" using that parts [of ls ls'] e g by (simp add: mkuname_def)
  next
    assume n: "root = None" "root' \<noteq> None"
    then obtain t where "root' = Some t" and that: "t \<in> {''spec'', ''proc'', ''dir'', ''user'', ''system''}"
      using r(2) by (auto simp: plain_roots_def)
    then show ?thesis using z [OF _ that] n e by (simp add: mkuname_def) blast
  next
    assume n: "root \<noteq> None" "root' = None"
    then obtain t where "root = Some t" and that: "t \<in> {''spec'', ''proc'', ''dir'', ''user'', ''system''}"
      using r(1) by (auto simp: plain_roots_def)
    then show ?thesis using z [OF _ that] n e [symmetric] by (simp add: mkuname_def) blast
  next
    assume n: "root \<noteq> None" "root' \<noteq> None"
    then obtain t t' where t: "root = Some t" "root' = Some t'" by auto
    then have "t # ls = t' # ls'" using parts [of "t # ls" "t' # ls'"] e g by (simp add: mkuname_def)
    then show ?thesis using t by simp
  qed
qed

lemma mkname_inj: "good_levels (Some r) ls \<Longrightarrow> good_levels (Some c) cs \<Longrightarrow> mkname (Some r) ls = mkname (Some c) cs \<longleftrightarrow> r = c \<and> ls = cs"
  by (metis levels_mkname(1) root_levels_simps(2) append_Cons append_Nil list.inject)

text \<open>A key of the given name, for the witnesses.\<close>

definition exKey :: "string \<Rightarrow> Key" where
  "exKey n = fst (snd (setNameCore keyInit (Some n) 0))"

lemma exKey_named: "named (exKey ''user/a'') (Some ''user'') [''a'']" "named (exKey ''user/a/b'') (Some ''user'') [''a'', ''b'']"
  "named (exKey ''/a'') None [''a'']"
  by code_simp+

lemma exKey_open: "\<not> test_bit (flags (exKey ''user/a'')) KEY_FLAG_RO_NAME"
  by code_simp

section \<open>Escaping\<close>

text \<open>C12: escaping any string as a name part and unescaping the result as a name gives the string
  back, as one part closed by a null byte.\<close>

theorem unescape_escape:
  "elektraUnescapeKeyName (elektraEscapeKeyNamePart s) = s @ [NUL]"
proof -
  have one: "one_level (elektraEscapeKeyNamePart s)" by (rule one_level_escape)
  then have "levels (elektraEscapeKeyNamePart s) = [elektraEscapeKeyNamePart s]"
    using levels_app_join [of "elektraEscapeKeyNamePart s" "[]"] by (auto simp: one_level_def)
  moreover have "elektraEscapeKeyNamePart s \<noteq> [] \<and> hd (elektraEscapeKeyNamePart s) \<noteq> SLASH"
    using one by (auto simp: one_level_def)
  ultimately show ?thesis by (simp add: elektraUnescapeKeyName_def unescapeNameLoop_levels)
qed

text \<open>C13: a level of a canonical name is the escaped form of what it unescapes to, so that names are
  in one normal form.\<close>

theorem escape_unescape:
  assumes "good_level l"
  shows "elektraEscapeKeyNamePart (butlast (elektraUnescapeKeyName l)) = l"
proof -
  have "levels l = [l]" using levels_app_join [of l "[]"] assms by (auto simp: good_level_def one_level_def)
  moreover have "l \<noteq> [] \<and> hd l \<noteq> SLASH"
    using assms by (auto simp: good_level_def one_level_def)
  ultimately have "elektraUnescapeKeyName l = unescPart l @ [NUL]"
    by (simp add: elektraUnescapeKeyName_def unescapeNameLoop_levels)
  then show ?thesis using assms by simp
qed

theorem escape_unescape_witness:
  "elektraEscapeKeyNamePart (butlast (elektraUnescapeKeyName (''a'' @ [BSL, SLASH] @ ''b''))) = ''a'' @ [BSL, SLASH] @ ''b''"
  by (rule escape_unescape) code_simp

text \<open>C18: two keys with canonical names whose unescaped names agree, as the order of keys sees
  them, have the same escaped name: the comparison of unescaped names separates all names.\<close>

theorem unescaped_name_unique:
  assumes "root \<in> set plain_roots" "root' \<in> set plain_roots" "named k root ls" "named k' root' ls'"
    "keyUnescapedName (Some k) = keyUnescapedName (Some k')"
  shows "keyName (Some k) = keyName (Some k')"
proof -
  have "mkuname root ls = mkuname root' ls'" using assms(3-5) by (simp add: named_def keyUnescapedName_def)
  then show ?thesis using mkuname_inj [of root root' ls ls'] assms by (simp add: named_def keyName_def)
qed

theorem unescaped_name_unique_witness:
  "keyName (Some (exKey ''user/a'')) = keyName (Some (exKey ''user//a/.''))"
  by (rule unescaped_name_unique [of "Some ''user''" "Some ''user''" _ "[''a'']" _ "[''a'']"]) code_simp+

text \<open>\<open>elektraValidateKeyName\<close> accepts exactly the strings that end in an even number of
  backslashes, when some character after the first is not a backslash.\<close>

theorem validate_name:
  assumes "s = u @ c # replicate n BSL" "u \<noteq> []" "c \<noteq> BSL"
  shows "elektraValidateKeyName s (elektraStrLen s) \<longleftrightarrow> even n"
proof -
  have "escst (u @ c # replicate n BSL) e mod 2 = n mod 2" for e
  proof (induction u arbitrary: e)
    case Nil
    have "escst (replicate n BSL) j = j + n" for j by (induction n arbitrary: j) simp_all
    then show ?case using assms(3) by simp
  next
    case (Cons x u)
    then show ?case by simp
  qed
  then have "even (escst s 0) = even n" unfolding assms(1) by (metis even_iff_mod_2_eq_zero)
  moreover have "tl s \<noteq> replicate (length s - 1) BSL"
  proof
    assume "tl s = replicate (length s - 1) BSL"
    moreover have "c \<in> set (tl s)" using assms(1,2) by (cases u) auto
    ultimately have "c \<in> set (replicate (length s - 1) BSL)" by simp
    then show False using assms(3) by (simp split: if_splits)
  qed
  ultimately show ?thesis using elektraValidateKeyName_eq [of s] assms(1) by simp
qed

theorem validate_name_witness:
  "\<not> elektraValidateKeyName (''ab'' @ [BSL]) (elektraStrLen (''ab'' @ [BSL]))"
  using validate_name [of "''ab'' @ [BSL]" "''a''" "CHR ''b''" 1] by simp

section \<open>Operations on names\<close>

text \<open>C17: \<open>keyAddBaseName\<close> appends exactly one part to the name, whatever the base name
  contains, and \<open>keyBaseName\<close> then returns that base name unchanged.\<close>

theorem add_base_name:
  assumes "named k root ls" "\<not> test_bit (flags k) KEY_FLAG_RO_NAME" "cstring b"
  shows "\<exists>k'. keyAddBaseName (Some k) (Some b) = (int (keySize k'), Some k')
     \<and> named k' root (ls @ [elektraEscapeKeyNamePart b]) \<and> keyBaseName (Some k') = Some b
     \<and> data k' = data k \<and> meta k' = meta k \<and> ksReference k' = ksReference k"
proof -
  obtain k' where k': "keyAddBaseName (Some k) (Some b) = (int (keySize k'), Some k')"
    "named k' root (ls @ [elektraEscapeKeyNamePart b])" "data k' = data k" "meta k' = meta k" "ksReference k' = ksReference k"
    by (rule keyAddBaseName_named [OF assms])
  moreover have "keyBaseName (Some k') = Some b" using keyBaseName_named [OF k'(2)] by simp
  ultimately show ?thesis by blast
qed

theorem add_base_name_witness:
  "\<exists>k'. keyAddBaseName (Some (exKey ''user/a'')) (Some ''x/..'') = (int (keySize k'), Some k')
     \<and> named k' (Some ''user'') ([''a''] @ [elektraEscapeKeyNamePart ''x/..'']) \<and> keyBaseName (Some k') = Some ''x/..''"
  using add_base_name [OF exKey_named(1) exKey_open, of "''x/..''"] by (auto simp: cstring_def)

text \<open>\<open>keySetBaseName\<close> replaces the last part and leaves the others.\<close>

theorem set_base_name:
  assumes "named k root (ls @ [l])" "\<not> test_bit (flags k) KEY_FLAG_RO_NAME" "cstring b"
  shows "\<exists>k'. keySetBaseName (Some k) (Some b) = (int (keySize k'), Some k')
     \<and> named k' root (ls @ [elektraEscapeKeyNamePart b]) \<and> keyBaseName (Some k') = Some b"
proof -
  obtain k' where k': "keySetBaseName (Some k) (Some b) = (int (keySize k'), Some k')"
    "named k' root (ls @ [elektraEscapeKeyNamePart b])"
    by (rule keySetBaseName_named [OF assms])
  moreover have "keyBaseName (Some k') = Some b" using keyBaseName_named [OF k'(2)] by simp
  ultimately show ?thesis by blast
qed

theorem set_base_name_witness:
  "\<exists>k'. keySetBaseName (Some (exKey ''user/a'')) (Some ''b'') = (int (keySize k'), Some k')
     \<and> named k' (Some ''user'') ([] @ [elektraEscapeKeyNamePart ''b'']) \<and> keyBaseName (Some k') = Some ''b''"
  by (rule set_base_name [of _ _ _ "''a''"]) (simp_all add: exKey_named exKey_open cstring_def)

text \<open>C14: \<open>keyAddName\<close> resolves the added levels one by one against those of the key (dots are
  dropped, two dots remove a level, never the root) and the name stays canonical.\<close>

theorem add_name:
  assumes "named k root ls" "\<not> test_bit (flags k) KEY_FLAG_RO_NAME"
    "new \<noteq> []" "cstring new" "even (escst new 0)" "\<forall>n. new \<noteq> replicate n BSL"
  shows "\<exists>k'. keyAddName (Some k) (Some new) = (if keySize k' = keySize k then 0 else int (keySize k'), Some k')
     \<and> named k' root (resolve ls (levels new))"
proof -
  have n: "good_levels root ls" "key k = Some (mkname root ls)" "keySize k = length (mkname root ls) + 1"
    using assms(1) by (simp_all add: named_def)
  have "\<not> (\<exists>n. new = replicate n BSL)" using assms(6) by blast
  then show ?thesis using keyAddName_levels [OF n assms(2-5)] by metis
qed

theorem add_name_witness:
  "\<exists>k'. keyAddName (Some (exKey ''user/a'')) (Some ''../b//./c'') = (if keySize k' = keySize (exKey ''user/a'') then 0 else int (keySize k'), Some k')
     \<and> named k' (Some ''user'') (resolve [''a''] (levels ''../b//./c''))"
proof -
  have "''../b//./c'' \<noteq> replicate n BSL" for n by (cases n) simp_all
  then show ?thesis by (intro add_name exKey_named exKey_open) (simp_all add: cstring_def)
qed

text \<open>C15: setting a name below one of the roots gives the canonical name of the resolved levels,
  whatever mixture of slashes, dots and parent references was written.\<close>

theorem set_name:
  assumes "root \<in> set plain_roots" "\<not> test_bit (flags k) KEY_FLAG_RO_NAME"
    "cstring rest" "even (escst rest 0)" "rest = [] \<or> (\<forall>n. rest \<noteq> replicate n BSL)"
  shows "\<exists>r k'. setNameCore k (Some (root_name root @ SLASH # rest)) options = (r, k', None) \<and> 0 < r
     \<and> named k' root (resolve [] (levels rest)) \<and> data k' = data k \<and> meta k' = meta k"
proof -
  have "rest \<noteq> [] \<Longrightarrow> \<not> (\<exists>n. rest = replicate n BSL)" using assms(5) by blast
  then show ?thesis using setNameCore_named [OF assms(1-4), of options] by metis
qed

theorem set_name_witness:
  "\<exists>r k'. setNameCore keyInit (Some (root_name (Some ''system'') @ SLASH # ''x/../y'')) 0 = (r, k', None) \<and> 0 < r
     \<and> named k' (Some ''system'') (resolve [] (levels ''x/../y'')) \<and> data k' = data keyInit \<and> meta k' = meta keyInit"
proof -
  have "''x/../y'' \<noteq> replicate n BSL" for n by (cases n) simp_all
  then show ?thesis by (intro set_name) (simp_all add: plain_roots_def cstring_def keyInit_def test_bit_def)
qed

section \<open>The hierarchy\<close>

text \<open>C16: \<open>keyIsBelow\<close> decides, on byte buffers, whether the levels of the key are a proper prefix
  of those of the other and their roots are the same or one of them is cascading.\<close>

theorem is_below:
  assumes "named k kr ks" "named c cr cs" "\<forall>r. cr = Some r \<longrightarrow> SLASH \<notin> set r"
  shows "keyIsBelow (Some k) (Some c) = Some (if (kr = None \<or> cr = None \<or> kr = cr) \<and> strict_prefix ks cs then 1 else 0)"
  by (rule keyIsBelow_named [OF assms(1,2)]) (use assms(3) in blast)

theorem is_below_witness:
  "keyIsBelow (Some (exKey ''/a'')) (Some (exKey ''user/a/b''))
     = Some 1"
  using is_below [OF exKey_named(3,2)] by (simp add: strict_prefix_def prefix_def)

text \<open>\<open>keyIsDirectBelow\<close> decides whether the other key has exactly one level more, unless the
  key has a namespace and the other is cascading.\<close>

theorem is_direct_below:
  assumes "named k kr ks" "named c cr cs" "\<forall>r. cr = Some r \<longrightarrow> SLASH \<notin> set r" "kr = None \<or> cr \<noteq> None"
  shows "keyIsDirectBelow (Some k) (Some c) = Some (if (kr = None \<or> kr = cr) \<and> (\<exists>x. cs = ks @ [x]) then 1 else 0)"
  by (rule keyIsDirectBelow_named [OF assms(1,2) _ assms(4)]) (use assms(3) in blast)

theorem is_direct_below_witness:
  "keyIsDirectBelow (Some (exKey ''user/a'')) (Some (exKey ''user/a/b''))
     = Some (if (Some ''user'' = None \<or> Some ''user'' = Some ''user'') \<and> (\<exists>x. [''a'', ''b''] = [''a''] @ [x]) then 1 else 0)"
  by (rule is_direct_below [OF exKey_named(1,2)]) simp_all

end
