(* ===== verification/KeySetProperties.thy ===== *)
theory KeySetProperties
  imports KeyMetaFacts NameProperties
begin

text \<open>
  The properties of keysets (\<open>keyset.c\<close>), of the lifetime of keys (\<open>key.c\<close>) and of metadata
  (\<open>keymeta.c\<close>), each with a witness on a concrete memory.
\<close>

section \<open>Concrete memories for the witnesses\<close>

definition exMem :: "Key list \<Rightarrow> mem" where
  "exMem ks = \<lparr>keys = (\<lambda>a. if a < length ks then Some (ks ! a) else None), fresh = length ks\<rparr>"

definition plain :: "Key list \<Rightarrow> bool" where
  "plain ks \<longleftrightarrow> list_all (\<lambda>k. meta k = None \<and> sized k) ks"

lemma metaRefs_exMem: "plain ks \<Longrightarrow> metaRefs (exMem ks) = {#}"
  by (auto simp: metaRefs_iff exMem_def plain_def list_all_length metaPtrs_simps simp flip: set_mset_eq_empty_iff)

lemma heap_ok_exMem:
  assumes "plain ks" "\<forall>a \<in># E. a < length ks" "\<forall>a < length ks. count E a = ksReference (ks ! a)"
  shows "heap_ok (exMem ks) E" "flat (exMem ks)" "inv (exMem ks) E"
proof -
  have "wf_key k" "meta k = None" if "keys (exMem ks) a = Some k" for a k
    using that assms(1) by (auto simp: exMem_def wf_key_def plain_def list_all_length split: if_splits)
  moreover have "count E a = refs (exMem ks) a" for a
    using assms(2,3) by (cases "a < length ks") (auto simp: refs_def exMem_def count_eq_zero_iff)
  moreover have "a < fresh (exMem ks)" if "keys (exMem ks) a = Some k" for a k
    using that by (simp add: exMem_def split: if_splits)
  ultimately show "heap_ok (exMem ks) E" "flat (exMem ks)" "inv (exMem ks) E"
    by (auto simp: heap_ok_def metaRefs_exMem [OF assms(1)] flat_def inv_def)
qed

lemma okeyA_exMem: "plain ks \<Longrightarrow> a < length ks \<Longrightarrow> okeyA (exMem ks) a = (uname (ks ! a), None)"
  using ownerOf_leaf [of "ks ! a" "exMem ks"] by (simp add: okeyA_def okey_def exMem_def plain_def list_all_length)

text \<open>Two keys in a keyset, \<open>user/a\<close> and \<open>user/b\<close>, and a third, \<open>user/ab\<close>, outside.\<close>

definition exA :: Key where "exA = (exKey ''user/a'')\<lparr>ksReference := 1\<rparr>"
definition exB :: Key where "exB = (exKey ''user/b'')\<lparr>ksReference := 1\<rparr>"
definition exN :: Key where "exN = exKey ''user/ab''"
definition exKs :: KeySet where
  "exKs = ksInit\<lparr>array := Some [Ptr 0, Ptr 1, Null, Junk], ks_size := 2, alloc := 4\<rparr>"

abbreviation exM :: mem where "exM \<equiv> exMem [exA, exB, exN]"

lemma ex_fields:
  "uname exA = ''user'' @ NUL # ''a'' @ [NUL]" "uname exB = ''user'' @ NUL # ''b'' @ [NUL]"
  "uname exN = ''user'' @ NUL # ''ab'' @ [NUL]" "key exA = Some ''user/a''" "key exB = Some ''user/b''" "key exN = Some ''user/ab''"
  "meta exA = None" "meta exB = None" "meta exN = None" "ksReference exA = 1" "ksReference exB = 1" "ksReference exN = 0"
  "sized exA" "sized exB" "sized exN" "flags exN = KEY_FLAG_SYNC"
  by code_simp+

lemma ex_plain: "plain [exA, exB, exN]"
  by (simp add: plain_def ex_fields)

lemma exKs_repr: "repr exKs [0, 1]"
  by (rule reprI [of _ _ "[Junk]"]) (simp_all add: exKs_def)

lemma ex_keys [simp]: "keys exM 0 = Some exA" "keys exM (Suc 0) = Some exB" "keys exM 1 = Some exB" "keys exM 2 = Some exN"
  by (simp_all add: exMem_def)

lemma ex_okey [simp]:
  "okeyA exM 0 = (uname exA, None)" "okeyA exM (Suc 0) = (uname exB, None)" "okeyA exM 2 = (uname exN, None)"
  by (simp_all add: okeyA_exMem [OF ex_plain])

lemma exKs_ok: "ks_ok exM exKs [0, 1]"
  unfolding ks_ok_def
  using exKs_repr by (simp add: ex_fields)

lemma ex_heap: "heap_ok exM {#0, 1#}" "flat exM" "inv exM {#0, 1#}"
proof -
  have "\<forall>a < 3. count {#0, 1#} a = ksReference ([exA, exB, exN] ! a)"
    by (auto simp: less_Suc_eq numeral_3_eq_3 ex_fields)
  then show "heap_ok exM {#0, 1#}" "flat exM" "inv exM {#0, 1#}"
    using heap_ok_exMem [OF ex_plain, of "{#0, 1#}"] by (simp_all add: numeral_3_eq_3)
qed

lemma ex_mname: "mname ''type''"
proof -
  have "named (metaKey ''type'') (Some ''type'') []" "metaOwner ''type'' = None" by code_simp+
  then show ?thesis unfolding mname_def by blast
qed

text \<open>A key with metadata \<open>type\<close>.\<close>

definition exTypeKs :: KeySet where
  "exTypeKs = ksInit\<lparr>array := Some [Ptr 0, Null], ks_size := 1, alloc := 2\<rparr>"

definition exType :: Key where "exType = (metaString ''long'' (metaKey ''type''))\<lparr>ksReference := 1\<rparr>"

definition exMM :: mem where "exMM = exMem [exType, exN\<lparr>meta := Some exTypeKs\<rparr>]"

lemma exType_fields: "meta exType = None" "ksReference exType = 1" "sized exType" "key exType = Some ''type''"
  by code_simp+

lemma exMM_inv: "inv exMM {#}" "metaRefs exMM = {#0#}"
proof -
  have r: "repr exTypeKs [0]" by (rule reprI [of _ _ "[]"]) (simp_all add: exTypeKs_def)
  have k: "keys exMM 0 = Some exType" "keys exMM 1 = Some (exN\<lparr>meta := Some exTypeKs\<rparr>)"
    "keys exMM a = Some kk \<Longrightarrow> a = 0 \<or> a = 1" "fresh exMM = 2" for a kk
    by (auto simp: exMM_def exMem_def split: if_splits)
  have "{..<2} = {0, 1 :: nat}" by auto
  then have "metaRefs exMM = metaPtrs (keys exMM 0) + metaPtrs (keys exMM 1)" by (simp add: metaRefs_def k)
  also have "\<dots> = {#0#}" using metaPtrs_repr [of "exN\<lparr>meta := Some exTypeKs\<rparr>" exTypeKs "[0]"] r k exType_fields by simp
  finally show mr: "metaRefs exMM = {#0#}" .
  have "refs exMM a = (if a = 0 then 1 else 0)" for a
    using exType_fields(2) ex_fields by (simp add: refs_def exMM_def exMem_def less_Suc_eq)
  moreover have "wf_key kk" if "keys exMM a = Some kk" for a kk
    using k(1,2) k(3) [OF that] that r exType_fields ex_fields by (auto simp: wf_key_def sized_def)
  moreover have "a < fresh exMM" if "keys exMM a = Some kk" for a kk using k(3) [OF that] k(4) by auto
  ultimately have ok: "heap_ok exMM {#}" unfolding heap_ok_def mr by auto
  have "ks_ok exMM exTypeKs [0]" using r k(1) exType_fields by (simp add: ks_ok_def)
  moreover have "cursor_in exTypeKs [0]" by (simp add: cursor_in_def exTypeKs_def ksInit_def)
  ultimately have "ks_ok exMM ks xs \<and> cursor_in ks xs" if kk: "keys exMM a = Some kk" "meta kk = Some ks" and rx: "repr ks xs" for a kk ks xs
  proof -
    have "ks = exTypeKs" using k(1,2) k(3) [OF kk(1)] kk exType_fields(1) by auto
    moreover from this have "xs = [0]" using repr_unique [OF r] rx by simp
    ultimately show ?thesis using \<open>ks_ok exMM exTypeKs [0]\<close> \<open>cursor_in exTypeKs [0]\<close> by simp
  qed
  moreover have "flat exMM" using k exType_fields unfolding flat_def mr by simp
  ultimately show "inv exMM {#}" using ok unfolding inv_def by blast
qed

section \<open>Keysets\<close>

text \<open>C5: \<open>ksAppendKey\<close> always returns; it keeps the keyset sorted without duplicates and every
  reference count exact, it changes no other part of any key that stays alive, and as a map from
  names to keys the keyset is updated at the name of the key.\<close>

theorem append_key:
  assumes "ks_ok m ks xs" "heap_ok m (E + mset xs)" "flat m"
    "keys m a = Some k" "key k \<noteq> None" "ksReference k < SSIZE_MAX" "a \<notin># metaRefs m"
  shows "\<exists>m' ks' ys. ksAppendKey m ks (Some a) = Some (int (length ys), m', ks') \<and> ks_ok m' ks' ys
     \<and> heap_ok m' (E + mset ys) \<and> kept m m' \<and> ksMap m' ys = (ksMap m xs)(okeyA m a \<mapsto> a)"
proof -
  obtain r m' ks' where res: "ksAppendKey m ks (Some a) = Some (r, m', ks')"
    using ksAppendKey_returns [OF assms(1-6)] assms(7) by fastforce
  note ok = ksAppendKey_ok [OF assms(1,2,4-6) res]
  have "okeyA m' b = okeyA m b" if "b \<in> set (appended m a xs)" for b
    using okeyA_kept [OF assms(2) ok(2,4)] ok(5) [of b] ks_okD(2) [OF ok(1) that] by (metis option.distinct(1))
  then have "ksMap m' (appended m a xs) = (ksMap m xs)(okeyA m a \<mapsto> a)"
    using ksMap_cong [of "appended m a xs" m' m] ksMap_appended by simp
  then show ?thesis using res ok by blast
qed

theorem append_key_witness:
  "\<exists>m' ks' ys. ksAppendKey exM exKs (Some 2) = Some (int (length ys), m', ks') \<and> ks_ok m' ks' ys
     \<and> heap_ok m' ({#} + mset ys) \<and> kept exM m' \<and> ksMap m' ys = (ksMap exM [0, 1])(okeyA exM 2 \<mapsto> 2)"
  by (rule append_key [of _ _ _ _ _ exN])
    (use exKs_ok ex_heap ex_plain in \<open>simp_all add: ex_fields SSIZE_MAX_def metaRefs_exMem add_mset_commute\<close>)

text \<open>\<open>ksSearchInternal\<close> finds the position of the key with the same name and owner, or else
  encodes the only position at which the keyset stays sorted.\<close>

theorem search_internal:
  assumes "ks_ok m ks xs" "heap_ok m E" "sized k"
  shows "(\<exists>i < length xs. ksSearchInternal m ks k = Some (int i) \<and> okeyA m (xs ! i) = okey m k)
    \<or> (\<exists>p \<le> length xs. ksSearchInternal m ks k = Some (- int p - 1)
        \<and> (\<forall>a \<in> set (take p xs). okeyA m a < okey m k) \<and> (\<forall>a \<in> set (drop p xs). okey m k < okeyA m a))"
  using ksSearchInternal_ok [OF assms] by metis

theorem search_internal_witness:
  "\<exists>p \<le> 2. ksSearchInternal exM exKs exN = Some (- int p - 1)
     \<and> (\<forall>a \<in> set (take p [0, 1]). okeyA exM a < okey exM exN) \<and> (\<forall>a \<in> set (drop p [0, 1]). okey exM exN < okeyA exM a)"
proof -
  have "okey exM exN = (uname exN, None)" using ex_okey(3) by (simp add: okeyA_def)
  then have "okeyA exM ([0, 1] ! i) \<noteq> okey exM exN" if "i < length [0, 1]" for i
    using that by (cases i) (auto simp: ex_fields)
  then show ?thesis using search_internal [OF exKs_ok ex_heap(1), of exN] by (auto simp: ex_fields)
qed

text \<open>C19: \<open>elektraKsPopAtCursor\<close> takes exactly the key at the position out of the keyset, keeps the
  others in order, and gives up exactly one reference to it.\<close>

theorem pop_at_cursor:
  assumes "ks_ok m ks xs" "heap_ok m (E + mset xs)" "c < length xs" "length xs \<le> SSIZE_MAX"
  shows "\<exists>m' ks'. elektraKsPopAtCursor m ks (int c) = Some (Some (xs ! c), m', ks')
     \<and> ks_ok m' ks' (take c xs @ drop (Suc c) xs) \<and> heap_ok m' (E + mset (take c xs @ drop (Suc c) xs))
     \<and> frame m m' \<and> (\<forall>b. keys m b \<noteq> None \<longrightarrow> keys m' b \<noteq> None)"
  using elektraKsPopAtCursor_ok [OF assms] by metis

theorem pop_at_cursor_witness:
  "\<exists>m' ks'. elektraKsPopAtCursor exM exKs (int 0) = Some (Some ([0, 1] ! 0), m', ks')
     \<and> ks_ok m' ks' (take 0 [0, 1] @ drop (Suc 0) [0, 1]) \<and> heap_ok m' ({#} + mset (take 0 [0, 1] @ drop (Suc 0) [0, 1]))
     \<and> frame exM m' \<and> (\<forall>b. keys exM b \<noteq> None \<longrightarrow> keys m' b \<noteq> None)"
  by (rule pop_at_cursor [OF exKs_ok]) (use ex_heap in \<open>simp_all add: SSIZE_MAX_def add_mset_commute\<close>)

text \<open>copying a keyset to a plain array with its internal cursor visits every key once, in
  order, and leaves the keyset with its cursor as it was.\<close>

theorem iterate_all:
  assumes "repr ks xs" "cursor_ok ks xs"
  shows "elektraKsToMemArray ks = Some (int (length xs), xs, ks)"
  using assms by (rule elektraKsToMemArray_repr)

theorem iterate_all_witness: "elektraKsToMemArray exKs = Some (2, [0, 1], exKs)"
  using iterate_all [OF exKs_repr] by (simp add: cursor_ok_def exKs_def ksInit_def)

text \<open>\<open>ksCopyInternal\<close> moves the tail of the keyset over the keys in between, which cuts them out,
  and keeps the array terminated.\<close>

theorem copy_internal:
  assumes "repr ks xs" "to \<le> from" "from \<le> length xs"
  shows "\<exists>ks'. ksCopyInternal ks to from = Some ks' \<and> repr ks' (take to xs @ drop from xs)"
  using ksCopyInternal_repr [OF assms] by metis

theorem copy_internal_witness:
  "\<exists>ks'. ksCopyInternal exKs 0 1 = Some ks' \<and> repr ks' (take 0 [0, 1] @ drop 1 [0, 1])"
  by (rule copy_internal [OF exKs_repr]) simp_all

text \<open>\<open>ksResize\<close> to room for the keys it has keeps them, and afterwards the array is larger than
  the size asked for, so that the terminator always fits.\<close>

theorem resize_keeps:
  assumes "repr ks xs" "length xs \<le> a"
  shows "\<exists>r ks'. ksResize (Some ks) a = (r, Some ks') \<and> repr ks' xs \<and> a < alloc ks'"
proof -
  obtain r ks' where "ksResize (Some ks) a = (r, Some ks')" "repr ks' xs" "alloc ks' \<ge> a + 1"
    by (rule ksResize_repr [OF assms])
  then show ?thesis by (metis Suc_eq_plus1 Suc_le_lessD)
qed

theorem resize_keeps_witness: "\<exists>r ks'. ksResize (Some exKs) 20 = (r, Some ks') \<and> repr ks' [0, 1] \<and> 20 < alloc ks'"
  by (rule resize_keeps [OF exKs_repr]) simp

section \<open>Lifetime\<close>

text \<open>C11: \<open>keyDel\<close> returns on every key of a heap with flat metadata. A key that is referenced stays
  as it is; an unreferenced key is freed with the metadata only it refers to, all reference counts
  stay exact, and nothing of any surviving key changes but its counter.\<close>

theorem key_del:
  assumes "heap_ok m E" "flat m" "keys m a = Some k"
  shows "\<exists>r m'. keyDel m (Some a) = Some (r, m') \<and> heap_ok m' E \<and> frame m m' \<and> freed_only m m' {a}
     \<and> (if ksReference k > 0 then m' = m else keys m' a = None)"
proof -
  obtain r m' where d: "keyDelMem m a = Some (r, m')" by (rule keyDelMem_returns [OF assms])
  have "refs m a = ksReference k" using assms(3) by (simp add: refs_def)
  then show ?thesis using del_okD [OF keyDelMem_ok d assms(1)] d by (auto simp: keyDel_def)
qed

theorem key_del_witness:
  "\<exists>r m'. keyDel exM (Some 2) = Some (r, m') \<and> heap_ok m' {#0, 1#} \<and> frame exM m' \<and> freed_only exM m' {2}
     \<and> (if ksReference exN > 0 then m' = exM else keys m' 2 = None)"
  by (rule key_del [OF ex_heap(1,2)]) simp

section \<open>Metadata\<close>

text \<open>C6: \<open>keySetMeta\<close> with a value returns the length of the stored value; afterwards the key has that
  value under that name, its metadata under every other name is as before, no other key is
  changed but by being freed, and the invariant of the heap holds again.\<close>

theorem set_meta:
  assumes "inv m E" "keys m a = Some k" "flags k AND KEY_FLAG_RO_META = 0" "a \<notin># metaRefs m"
    "mname n" "fresh m < SSIZE_MAX"
  shows "\<exists>m'. keySetMeta m (Some a) (Some n) (Some s) = Some (int (elektraStrLen s), m') \<and> inv m' E
     \<and> metaData m' a n = Some (Some (s @ [NUL]))
     \<and> (\<forall>n'. mname n' \<longrightarrow> munique n' \<noteq> munique n \<longrightarrow> metaData m' a n' = metaData m a n') \<and> upto {a, fresh m} m m'"
  using keySetMeta_set [OF assms, of s] by metis

theorem set_meta_witness:
  "\<exists>m'. keySetMeta exM (Some 2) (Some ''type'') (Some ''long'') = Some (int (elektraStrLen ''long''), m') \<and> inv m' {#0, 1#}
     \<and> metaData m' 2 ''type'' = Some (Some (''long'' @ [NUL]))
     \<and> (\<forall>n'. mname n' \<longrightarrow> munique n' \<noteq> munique ''type'' \<longrightarrow> metaData m' 2 n' = metaData exM 2 n') \<and> upto {2, fresh exM} exM m'"
proof (rule set_meta [OF ex_heap(3)])
  show "flags exN AND KEY_FLAG_RO_META = 0" by code_simp
  show "mname ''type''" by (rule ex_mname)
qed (simp_all add: metaRefs_exMem [OF ex_plain], simp add: exMem_def SSIZE_MAX_def)

text \<open>C10: \<open>keySetMeta\<close> without a value removes the metadata of that name, if there is any, and keeps the rest.\<close>

theorem unset_meta:
  assumes "inv m E" "keys m a = Some k" "flags k AND KEY_FLAG_RO_META = 0" "a \<notin># metaRefs m"
    "mname n" "fresh m < SSIZE_MAX"
  shows "\<exists>m'. keySetMeta m (Some a) (Some n) None = Some (0, m') \<and> inv m' E \<and> metaData m' a n = None
     \<and> (\<forall>n'. mname n' \<longrightarrow> munique n' \<noteq> munique n \<longrightarrow> metaData m' a n' = metaData m a n') \<and> upto {a, fresh m} m m'"
  using keySetMeta_unset [OF assms] by metis

theorem unset_meta_witness:
  "\<exists>m'. keySetMeta exMM (Some 1) (Some ''type'') None = Some (0, m') \<and> inv m' {#} \<and> metaData m' 1 ''type'' = None
     \<and> (\<forall>n'. mname n' \<longrightarrow> munique n' \<noteq> munique ''type'' \<longrightarrow> metaData m' 1 n' = metaData exMM 1 n') \<and> upto {1, fresh exMM} exMM m'"
proof (rule unset_meta [OF exMM_inv(1)])
  show "flags (exN\<lparr>meta := Some exTypeKs\<rparr>) AND KEY_FLAG_RO_META = 0" by code_simp
  show "mname ''type''" by (rule ex_mname)
qed (simp_all add: exMM_inv(2), simp_all add: exMM_def exMem_def SSIZE_MAX_def)

end
