(* ===== verification/KeyFrames.thy ===== *)
theory KeyFrames
  imports KeyMeta
begin

text \<open>
  What the operations on memory do to the keys they are not about: their flags change by the
  synchronisation flag only, and their reference counters never grow. These facts need no invariant;
  they follow the code of every operation.
\<close>

definition calm :: "Key \<Rightarrow> Key \<Rightarrow> bool" where
  "calm k k' \<longleftrightarrow> flags k' OR KEY_FLAG_SYNC = flags k OR KEY_FLAG_SYNC \<and> ksReference k' \<le> ksReference k"

definition quiet :: "addr set \<Rightarrow> mem \<Rightarrow> mem \<Rightarrow> bool" where
  "quiet A m m' \<longleftrightarrow> (\<forall>b k'. b \<notin> A \<longrightarrow> keys m' b = Some k' \<longrightarrow> (\<exists>k. keys m b = Some k \<and> calm k k'))"

lemma calm_refl [simp]: "calm k k"
  by (simp add: calm_def)

lemma calm_trans: "calm k k' \<Longrightarrow> calm k' k'' \<Longrightarrow> calm k k''"
  by (auto simp: calm_def)

lemma calm_updates [simp]:
  "calm k (k\<lparr>meta := s\<rparr>)" "calm k (k\<lparr>flags := flags k OR KEY_FLAG_SYNC\<rparr>)" "calm k (k\<lparr>meta := s, flags := flags k OR KEY_FLAG_SYNC\<rparr>)"
  by (simp_all add: calm_def or.assoc)

lemma quietD: "quiet A m m' \<Longrightarrow> b \<notin> A \<Longrightarrow> keys m' b = Some k' \<Longrightarrow> \<exists>k. keys m b = Some k \<and> calm k k'"
  by (simp add: quiet_def)

lemma quiet_refl [simp]: "quiet A m m"
  by (auto simp: quiet_def)

lemma quiet_trans: "quiet A m m' \<Longrightarrow> quiet A m' m'' \<Longrightarrow> quiet A m m''"
proof -
  assume 1: "quiet A m m'" and 2: "quiet A m' m''"
  have "\<exists>k. keys m b = Some k \<and> calm k k''" if "b \<notin> A" "keys m'' b = Some k''" for b k''
    using quietD [OF 2 that] quietD [OF 1 that(1)] calm_trans by blast
  then show "quiet A m m''" unfolding quiet_def by blast
qed

lemma quiet_mono: "quiet A m m' \<Longrightarrow> A \<subseteq> B \<Longrightarrow> quiet B m m'"
  unfolding quiet_def by blast

lemma quiet_store: "keys m a = Some k \<Longrightarrow> calm k k' \<Longrightarrow> quiet A m (storeKey m a k')"
  by (auto simp: quiet_def)

lemma quiet_free [simp]: "quiet A m (freeKey m a)"
  by (auto simp: quiet_def)

lemma quiet_incRef: "incRef m a = Some m' \<Longrightarrow> a \<in> A \<Longrightarrow> quiet A m m'"
  by (auto simp: incRef_def keyIncRef_def bind_Some_iff quiet_def split: if_splits)

lemma quiet_decRef: "decRef m a = Some m' \<Longrightarrow> quiet A m m'"
  by (auto simp: decRef_def keyDecRef_def bind_Some_iff calm_def intro!: quiet_store split: if_splits)

lemma quiet_closeLoop:
  "(\<And>m a r m'. del m a = Some (r, m') \<Longrightarrow> quiet A m m') \<Longrightarrow> closeLoop del m xs = Some m' \<Longrightarrow> quiet A m m'"
proof (induction xs arbitrary: m)
  case (Cons x xs)
  then obtain m1 m2 r where "decRef m x = Some m1" "del m1 x = Some (r, m2)" "closeLoop del m2 xs = Some m'"
    by (auto simp: bind_Some_iff)
  then show ?case using Cons quiet_decRef quiet_trans by metis
qed simp

lemma quiet_keyDelFuel: "keyDelFuel n m a = Some (r, m') \<Longrightarrow> quiet A m m'"
proof (induction n arbitrary: m a r m' A)
  case (Suc n)
  obtain k where k: "keys m a = Some k" using Suc.prems by (auto simp: bind_Some_iff)
  show ?case
  proof (cases "ksReference k > 0")
    case True
    then show ?thesis using Suc.prems k by simp
  next
    case False
    then obtain m1 where m1: "clearMetaWith (keyDelFuel n) (storeKey m a (k\<lparr>meta := None\<rparr>)) k = Some m1" "m' = freeKey m1 a"
      using Suc.prems k by (auto simp: bind_Some_iff)
    have "quiet A (storeKey m a (k\<lparr>meta := None\<rparr>)) m1"
      using m1(1) quiet_closeLoop [of "keyDelFuel n", OF Suc.IH]
      by (auto simp: clearMetaWith_def ksCloseWith_def bind_Some_iff split: option.splits)
    moreover have "quiet A m (storeKey m a (k\<lparr>meta := None\<rparr>))" using k by (rule quiet_store) simp_all
    ultimately show ?thesis using m1(2) quiet_trans quiet_free by metis
  qed
qed simp

lemma quiet_keyDelMem: "keyDelMem m a = Some (r, m') \<Longrightarrow> quiet A m m'"
  unfolding keyDelMem_def by (rule quiet_keyDelFuel)

lemma quiet_ksPop: "ksPop m ks = Some (r, m', ks') \<Longrightarrow> quiet A m m'"
  by (auto simp: ksPop_def Let_def bind_Some_iff quiet_decRef split: if_splits option.splits)

lemma quiet_popAt: "elektraKsPopAtCursor m ks c = Some (r, m', ks') \<Longrightarrow> quiet A m m'"
  by (auto simp: elektraKsPopAtCursor_def Let_def bind_Some_iff intro: quiet_ksPop split: if_splits)

lemma quiet_metaLookup: "metaLookup m ks k opt = Some (r, m', ks') \<Longrightarrow> quiet A m m'"
  unfolding metaLookup_def elektraLookupBinarySearch_def
  by (auto simp: bind_Some_iff Let_def intro: quiet_popAt split: if_splits option.splits)

lemma quiet_append: "ksAppendKey m ks (Some t) = Some (r, m', ks') \<Longrightarrow> quiet {t} m m'"
proof -
  assume ap: "ksAppendKey m ks (Some t) = Some (r, m', ks')"
  obtain k where k: "keys m t = Some k" using ap by (auto simp: ksAppendKey_def bind_Some_iff)
  have lock: "quiet {t} m (storeKey m t k1)" for k1 by (auto simp: quiet_def)
  have rep: "quiet {t} m1 m2" if r: "appendReplace m1 ks t i = Some (m2, ks2)" for m1 m2 ks2 i
  proof (cases "m2 = m1")
    case False
    then obtain b m3 rc m4 where "decRef m1 b = Some m3" "keyDelMem m3 b = Some (rc, m4)" "incRef m4 t = Some m2"
      using r by (auto simp: appendReplace_def bind_Some_iff split: if_splits)
    then show ?thesis using quiet_trans [OF quiet_trans] quiet_decRef quiet_keyDelMem quiet_incRef by blast
  qed simp
  have ins: "quiet {t} m1 m2" if "appendInsert m1 ks t i = Some (m2, ks2)" for m1 m2 ks2 i
    using that by (auto simp: appendInsert_def bind_Some_iff intro: quiet_incRef)
  show ?thesis
  proof (cases "key k")
    case None
    then show ?thesis using ap k by (auto simp: ksAppendKey_def bind_Some_iff intro: quiet_keyDelMem)
  next
    case (Some n)
    then obtain k1 i m2 ks2 where "m' = m2"
      "(if i \<ge> 0 then appendReplace (storeKey m t k1) ks t (nat i) else appendInsert (storeKey m t k1) ks t (nat (- i - 1))) = Some (m2, ks2)"
      using ap k by (auto simp: ksAppendKey_def bind_Some_iff Let_def)
    then have "quiet {t} (storeKey m t k1) m'" using rep ins by (metis (full_types))
    then show ?thesis using lock quiet_trans by blast
  qed
qed

lemma quiet_metaRemove: "metaRemove m a n = Some m' \<Longrightarrow> quiet A m m'"
proof -
  assume rm: "metaRemove m a n = Some m'"
  obtain k where k: "keys m a = Some k" using rm by (auto simp: metaRemove_def bind_Some_iff)
  show ?thesis
  proof (cases "meta k")
    case None
    then show ?thesis using rm k by (simp add: metaRemove_def)
  next
    case (Some ks)
    then obtain ret m1 ks' k1 where l: "metaLookup (storeKey m a (k\<lparr>meta := None\<rparr>)) ks (metaKey n) KDB_O_POP = Some (ret, m1, ks')"
      "keys m1 a = Some k1"
      using rm k by (auto simp: metaRemove_def bind_Some_iff)
    have "quiet A m (storeKey m a (k\<lparr>meta := None\<rparr>))" using k by (rule quiet_store) simp_all
    moreover have "quiet A m1 (storeKey m1 a (k1\<lparr>meta := Some ks'\<rparr>))" using l(2) by (rule quiet_store) simp_all
    ultimately have 2: "quiet A m (storeKey m1 a (k1\<lparr>meta := Some ks'\<rparr>))" using quiet_metaLookup [OF l(1)] quiet_trans by blast
    show ?thesis
    proof (cases ret)
      case None
      then show ?thesis using rm k Some l 2 by (simp add: metaRemove_def)
    next
      case (Some r)
      then obtain rc m3 k3 where d: "keyDelMem (storeKey m1 a (k1\<lparr>meta := Some ks'\<rparr>)) r = Some (rc, m3)" "keys m3 a = Some k3"
        "m' = storeKey m3 a (k3\<lparr>flags := flags k3 OR KEY_FLAG_SYNC\<rparr>)"
        using rm k \<open>meta k = Some ks\<close> l by (auto simp: metaRemove_def bind_Some_iff)
      have "quiet A m3 m'" unfolding d(3) using d(2) by (rule quiet_store) simp
      then show ?thesis using 2 quiet_keyDelMem [OF d(1)] quiet_trans by blast
    qed
  qed
qed

lemma quiet_metaAppend: "metaAppend m a t = Some m' \<Longrightarrow> quiet {t} m m'"
proof -
  assume ap: "metaAppend m a t = Some m'"
  then obtain k r m1 ks1 k1 where k: "keys m a = Some k" "keys m1 a = Some k1"
    "ksAppendKey (storeKey m a (k\<lparr>meta := None\<rparr>)) (case meta k of None \<Rightarrow> ksVNewEmpty 0 | Some ks \<Rightarrow> ks) (Some t) = Some (r, m1, ks1)"
    "m' = storeKey m1 a (k1\<lparr>meta := Some ks1, flags := flags k1 OR KEY_FLAG_SYNC\<rparr>)"
    by (auto simp: metaAppend_def bind_Some_iff Let_def)
  have "quiet {t} m (storeKey m a (k\<lparr>meta := None\<rparr>))" using k(1) by (rule quiet_store) simp_all
  moreover have "quiet {t} m1 m'" unfolding k(4) using k(2) by (rule quiet_store) simp
  ultimately show ?thesis using quiet_append [OF k(3)] quiet_trans by blast
qed

lemma quiet_keySetMeta: "keySetMeta m (Some a) n s = Some (r, m') \<Longrightarrow> quiet {fresh m} m m'"
proof -
  assume sm: "keySetMeta m (Some a) n s = Some (r, m')"
  let ?t = "fresh m"
  show ?thesis
  proof (cases "m' = m")
    case False
    then obtain k nm where k: "keys m a = Some k" "n = Some nm" "flags k AND KEY_FLAG_RO_META = 0" "metaOwner nm = None"
      "\<not> (meta k = None \<and> s = None)"
      using sm by (auto simp: keySetMeta_def bind_Some_iff split: if_splits option.splits)
    then obtain m2 where m2: "metaRemove (storeKey (snd (elektraKeyMalloc m)) ?t (metaKey nm)) a nm = Some m2"
      using sm by (auto simp: keySetMeta_def bind_Some_iff elektraKeyMalloc_def Let_def split: if_splits)
    have 1: "quiet {?t} m (storeKey (snd (elektraKeyMalloc m)) ?t (metaKey nm))" by (auto simp: quiet_def elektraKeyMalloc_def)
    have 2: "quiet {?t} m m2" using 1 quiet_metaRemove [OF m2] quiet_trans by blast
    show ?thesis
    proof (cases s)
      case None
      then obtain rc where "keyDelMem m2 ?t = Some (rc, m')"
        using sm k m2 by (auto simp: keySetMeta_def bind_Some_iff elektraKeyMalloc_def Let_def)
      then show ?thesis using 2 quiet_keyDelMem quiet_trans by blast
    next
      case (Some v)
      then obtain t where t: "keys m2 ?t = Some t" "metaAppend (storeKey m2 ?t (metaString v t)) a ?t = Some m'"
        using sm k m2 by (auto simp: keySetMeta_def bind_Some_iff elektraKeyMalloc_def Let_def)
      have "quiet {?t} m2 (storeKey m2 ?t (metaString v t))" by (auto simp: quiet_def)
      then show ?thesis using 2 quiet_metaAppend [OF t(2)] quiet_trans by blast
    qed
  qed simp
qed

end
