(* ===== verification/KeyValue.thy ===== *)
theory KeyValue
  imports KeySetProperties KeyFrames
begin

text \<open>
  \<open>src/libs/elektra/keyvalue.c\<close>: reading and writing the value of a key, as a string or as bytes. The metadata
  \<open>binary\<close> tells the two kinds apart, so the operations work on the memory. The destination buffer
  of a reader is the string written to it.
\<close>

section \<open>The operations\<close>

text \<open>\<open>returnedString\<close> is whether the buffer is not \<open>NULL\<close>; the result is the bytes written to it.\<close>

definition keyGetString :: "mem \<Rightarrow> Key option \<Rightarrow> bool \<Rightarrow> nat \<Rightarrow> int \<times> string option" where
  "keyGetString m k returnedString maxSize = (case k of None \<Rightarrow> (-1, None)
     | Some kk \<Rightarrow>
         if maxSize = 0 then (-1, None)
         else if \<not> returnedString then (-1, None)
         else if maxSize > SSIZE_MAX then (-1, None)
         else if keyIsString m k = 0 then (-1, None)
         else (case data kk of None \<Rightarrow> (1, Some [])
           | Some d \<Rightarrow> if dataSize kk > maxSize then (-1, None)
                       else (int (dataSize kk), Some (take maxSize (upto_nul d)))))"

definition keyGetBinary :: "mem \<Rightarrow> Key option \<Rightarrow> bool \<Rightarrow> nat \<Rightarrow> int \<times> string option" where
  "keyGetBinary m k returnedBinary maxSize = (case k of None \<Rightarrow> (-1, None)
     | Some kk \<Rightarrow>
         if \<not> returnedBinary then (-1, None)
         else if maxSize = 0 then (-1, None)
         else if maxSize > SSIZE_MAX then (-1, None)
         else if keyIsBinary m k = 0 then (-1, None)
         else (case data kk of None \<Rightarrow> (0, None)
           | Some d \<Rightarrow> if dataSize kk > maxSize then (-1, None)
                       else (int (dataSize kk), Some (take (dataSize kk) d))))"

text \<open>\<open>newBinary\<close> are the bytes at the pointer; \<open>dataSize\<close> of them are copied, and there must be so many.\<close>

definition keySetRaw :: "mem \<Rightarrow> addr option \<Rightarrow> string option \<Rightarrow> nat \<Rightarrow> (int \<times> mem) option" where
  "keySetRaw m a newBinary sz = (case a of None \<Rightarrow> Some (-1, m)
     | Some a \<Rightarrow> do { k \<leftarrow> keys m a;
         if flags k AND KEY_FLAG_RO_VALUE \<noteq> 0 then Some (-1, m)
         else if sz = 0 \<or> newBinary = None then
           let k1 = k\<lparr>data := None, dataSize := 0, flags := set_bit_flag (flags k) KEY_FLAG_SYNC\<rparr> in
           Some (if keyIsBinary m (Some k1) \<noteq> 0 then 0 else 1, storeKey m a k1)
         else do {
           b \<leftarrow> newBinary;
           if length b < sz then None
           else
             let k1 = k\<lparr>dataSize := sz, data := Some (take sz b), flags := set_bit_flag (flags k) KEY_FLAG_SYNC\<rparr> in
             Some (keyGetValueSize m (Some k1), storeKey m a k1) } })"

definition keySetString :: "mem \<Rightarrow> addr option \<Rightarrow> string option \<Rightarrow> (int \<times> mem) option" where
  "keySetString m a newStringValue = (case a of None \<Rightarrow> Some (-1, m)
     | Some _ \<Rightarrow> do {
         (_, m1) \<leftarrow> keySetMeta m a (Some ''binary'') None;
         case newStringValue of
           None \<Rightarrow> keySetRaw m1 a None 0
         | Some s \<Rightarrow> if s = [] then keySetRaw m1 a None 0 else keySetRaw m1 a (Some (s @ [NUL])) (elektraStrLen s) })"

definition keySetBinary :: "mem \<Rightarrow> addr option \<Rightarrow> string option \<Rightarrow> nat \<Rightarrow> (int \<times> mem) option" where
  "keySetBinary m a newBinary sz = (case a of None \<Rightarrow> Some (-1, m)
     | Some a' \<Rightarrow>
         if sz = 0 \<and> newBinary \<noteq> None then Some (-1, m)
         else if sz > SSIZE_MAX then Some (-1, m)
         else do { k \<leftarrow> keys m a';
           if flags k AND KEY_FLAG_RO_VALUE \<noteq> 0 then Some (-1, m)
           else do {
             (_, m1) \<leftarrow> keySetMeta m a (Some ''binary'') (Some []);
             keySetRaw m1 a newBinary sz } })"

section \<open>The value of a key in the invariant\<close>

text \<open>Storing a value at a key that is no metadata changes nothing else.\<close>

lemma inv_value:
  assumes iv: "inv m E" and a: "keys m a = Some k" and na: "a \<notin># metaRefs m"
    and k': "meta k' = meta k" "ksReference k' = ksReference k" "sized k'"
  shows "inv (storeKey m a k') E" "upto {a} m (storeKey m a k')"
    "mname n \<Longrightarrow> metaData (storeKey m a k') a n = metaData m a n"
proof -
  let ?m = "storeKey m a k'"
  have ok: "heap_ok m E" "flat m" using iv by (simp_all add: inv_def)
  have wf: "wf_key k'" using heap_okD(2) [OF ok(1) a] k' by (simp add: wf_key_def)
  have mp: "metaPtrs (Some k') = metaPtrs (Some k)" using k'(1) by (simp add: metaPtrs_def)
  have ok': "heap_ok ?m E" by (rule heap_ok_store [OF ok(1) a wf]) (simp add: mp k'(2))
  have mr: "metaRefs ?m = metaRefs m"
    using metaRefs_upd [OF heap_okD(1) [OF ok(1) a], of "Some k'"] mp a by (simp add: storeKey_def)
  have fl: "flat ?m" using ok(2) na unfolding flat_def mr by auto
  show up: "upto {a} m ?m" by simp
  have mk: "mok m k (mlist k)" by (rule inv_mok [OF iv a])
  have al: "a \<notin> set (mlist k)"
  proof
    assume "a \<in> set (mlist k)"
    then obtain ks where ks: "meta k = Some ks" by (cases "meta k") (auto simp: mlist_def)
    obtain xs where "repr ks xs" "\<And>b. b \<in> set xs \<Longrightarrow> b \<in># metaRefs m" using inv_meta [OF iv a ks] by metis
    then show False using \<open>a \<in> set (mlist k)\<close> mlist_repr [OF ks] na by blast
  qed
  have tr: "\<exists>kb kb'. keys m b = Some kb \<and> keys ?m b = Some kb' \<and> core kb' = core kb" if b: "b \<in> set (mlist k)" for b
    using leafsD [of m "mlist k" b] mk b al by (auto simp: mok_def)
  have lf: "leafs m (mlist k)" using mk by (simp add: mok_def)
  have lf': "leafs ?m (mlist k)"
    unfolding leafs_def
  proof
    fix b assume b: "b \<in> set (mlist k)"
    then have "b \<noteq> a" using al by blast
    then show "\<exists>k. keys ?m b = Some k \<and> meta k = None" using leafsD [OF lf b] by simp
  qed
  have mk': "mok ?m k' (mlist k)"
  proof -
    have "mlist k' = mlist k" using k'(1) by (simp add: mlist_def)
    then show ?thesis using mk lf' ks_ok_leafs(1) [OF _ lf tr] k'(1) by (simp add: mok_def)
  qed
  have t: "keys m (fresh m) = None" using heap_okD(1) [OF ok(1), of "fresh m"] by (cases "keys m (fresh m)") auto
  show "inv ?m E"
  proof (rule inv_transfer [OF iv ok' fl _ na t])
    show "upto {a, fresh m} m ?m" using up by (rule upto_mono) simp
    show "fresh m = a \<or> meta kk = None" if "keys ?m (fresh m) = Some kk" for kk using that t by (auto split: if_splits)
    show "ks_ok ?m ks xs \<and> cursor_in ks xs" if "keys ?m a = Some kk" "meta kk = Some ks" "repr ks xs" for kk ks xs
      using that mk' mlist_repr [of k' ks xs] by (simp add: mok_def)
  qed
  show "metaData ?m a n = metaData m a n" if "mname n"
    by (rule metaData_agree [OF ok(1) a mk ok' _ mk' that])
      (use tr al in \<open>auto simp: unameA_def\<close>)
qed

lemma metaData_metaFind: "keys m a = Some k \<Longrightarrow> metaData m a n = map_option data (metaFind m k n)"
  by (cases "metaFind m k n") (simp_all add: metaData_def)

lemma binary_mname: "mname ''binary''"
proof -
  have "named (metaKey ''binary'') (Some ''binary'') []" "metaOwner ''binary'' = None" by code_simp+
  then show ?thesis unfolding mname_def by blast
qed

lemma ro_value_sync: "f' OR KEY_FLAG_SYNC = f OR KEY_FLAG_SYNC \<Longrightarrow> f' AND KEY_FLAG_RO_VALUE = f AND KEY_FLAG_RO_VALUE"
proof -
  assume a: "f' OR KEY_FLAG_SYNC = f OR KEY_FLAG_SYNC"
  have "(x OR 1) AND 4 = x AND (4 :: flags_t)" for x by (simp add: bit.conj_disj_distrib2)
  then show ?thesis using a by metis
qed

text \<open>The result of writing \<open>d\<close>, no bytes for \<open>None\<close>.\<close>

lemma keySetRaw_ok:
  assumes iv: "inv m E" and a: "keys m a = Some k" and na: "a \<notin># metaRefs m" and ro: "flags k AND KEY_FLAG_RO_VALUE = 0"
    and d: "d = None \<or> d \<noteq> Some []" and sz: "sz = (case d of None \<Rightarrow> 0 | Some b \<Rightarrow> length b)"
  obtains m' k' where "keySetRaw m (Some a) d sz = Some (if d = None then (if metaData m a ''binary'' = None then 1 else 0) else int sz, m')"
    "inv m' E" "upto {a} m m'" "keys m' a = Some k'" "data k' = d" "dataSize k' = sz" "key k' = key k" "uname k' = uname k"
    "\<forall>n. mname n \<longrightarrow> metaData m' a n = metaData m a n"
proof -
  define k' where "k' = k\<lparr>data := d, dataSize := sz, flags := set_bit_flag (flags k) KEY_FLAG_SYNC\<rparr>"
  have s: "sized k'" using heap_okD(2) [of m E a k] iv a by (simp add: inv_def wf_key_def sized_def k'_def)
  have v: "meta k' = meta k" "ksReference k' = ksReference k" by (simp_all add: k'_def)
  note i = inv_value [OF iv a na v s]
  have "metaFind m (k\<lparr>data := None, dataSize := 0, flags := f\<rparr>) n = metaFind m k n" for f n by (simp add: metaFind_def)
  moreover have alt: "k' = k\<lparr>dataSize := sz, data := d, flags := set_bit_flag (flags k) KEY_FLAG_SYNC\<rparr>" by (simp add: k'_def)
  ultimately have "keySetRaw m (Some a) d sz = Some (if d = None then (if metaData m a ''binary'' = None then 1 else 0) else int sz, storeKey m a k')"
    using a ro d sz
    by (cases d, simp add: keySetRaw_def Let_def k'_def keyIsBinary_def metaData_metaFind [OF a])
      (simp add: keySetRaw_def Let_def alt keyGetValueSize_def)
  then show thesis using that [of "storeKey m a k'" k'] i by (simp add: k'_def)
qed

section \<open>Writing and reading back\<close>

lemma upto_sub: "upto {a, t} m m1 \<Longrightarrow> upto {a} m1 m' \<Longrightarrow> upto {a, t} m m'"
  using upto_trans upto_mono [of "{a}" m1 m' "{a, t}"] by blast

lemma core_key: "core (k'\<lparr>meta := None\<rparr>) = core (k\<lparr>meta := None\<rparr>) \<Longrightarrow> key k' = key k \<and> uname k' = uname k"
  using core_eqD(3,4) [of "k'\<lparr>meta := None\<rparr>" "k\<lparr>meta := None\<rparr>"] by simp

lemma ro_value_kept:
  assumes "keySetMeta m (Some a) n s = Some (r, m1)" "keys m a = Some k" "keys m1 a = Some k1" "heap_ok m E"
  shows "flags k1 AND KEY_FLAG_RO_VALUE = flags k AND KEY_FLAG_RO_VALUE"
proof -
  have "a \<noteq> fresh m" using heap_okD(1) [OF assms(4,2)] by simp
  then show ?thesis using quietD [OF quiet_keySetMeta [OF assms(1)] _ assms(3)] assms(2) by (auto simp: calm_def intro: ro_value_sync)
qed

text \<open>Both ways to write a value: the metadata \<open>binary\<close> is removed or set, and the bytes are stored.\<close>

lemma set_value:
  assumes iv: "inv m E" and a: "keys m a = Some k" "flags k AND KEY_FLAG_RO_META = 0" "flags k AND KEY_FLAG_RO_VALUE = 0"
    and na: "a \<notin># metaRefs m" and small: "fresh m < SSIZE_MAX"
    and d: "d = None \<or> d \<noteq> Some []" and sz: "sz = (case d of None \<Rightarrow> 0 | Some b \<Rightarrow> length b)"
  obtains r m1 m' k' where "keySetMeta m (Some a) (Some ''binary'') ty = Some (r, m1)"
    "keySetRaw m1 (Some a) d sz = Some (if d = None then (if ty = None then 1 else 0) else int sz, m')"
    "inv m' E" "keys m' a = Some k'" "metaFind m' k' ''binary'' = None \<longleftrightarrow> ty = None" "data k' = d" "dataSize k' = sz" "key k' = key k \<and> uname k' = uname k"
    "\<forall>n. mname n \<and> munique n \<noteq> munique ''binary'' \<longrightarrow> metaData m' a n = metaData m a n" "upto {a, fresh m} m m'"
proof -
  obtain r m1 k1 where m1: "keySetMeta m (Some a) (Some ''binary'') ty = Some (r, m1)" "inv m1 E" "keys m1 a = Some k1"
    "core (k1\<lparr>meta := None\<rparr>) = core (k\<lparr>meta := None\<rparr>)" "a \<notin># metaRefs m1" "metaData m1 a ''binary'' = None \<longleftrightarrow> ty = None"
    "\<forall>n. mname n \<longrightarrow> munique n \<noteq> munique ''binary'' \<longrightarrow> metaData m1 a n = metaData m a n" "upto {a, fresh m} m m1"
  proof (cases ty)
    case None
    obtain m1 k1 where x: "keySetMeta m (Some a) (Some ''binary'') None = Some (0, m1)" "inv m1 E" "keys m1 a = Some k1"
      "core (k1\<lparr>meta := None\<rparr>) = core (k\<lparr>meta := None\<rparr>)" "a \<notin># metaRefs m1" "metaData m1 a ''binary'' = None"
      "\<forall>n. mname n \<longrightarrow> munique n \<noteq> munique ''binary'' \<longrightarrow> metaData m1 a n = metaData m a n" "upto {a, fresh m} m m1"
      by (rule keySetMeta_unset [OF iv a(1,2) na binary_mname small])
    show thesis by (rule that [OF _ x(2-5) _ x(7,8)]) (use x(1,6) None in simp_all)
  next
    case (Some t)
    obtain m1 k1 where x: "keySetMeta m (Some a) (Some ''binary'') (Some t) = Some (int (elektraStrLen t), m1)" "inv m1 E"
      "keys m1 a = Some k1" "core (k1\<lparr>meta := None\<rparr>) = core (k\<lparr>meta := None\<rparr>)" "a \<notin># metaRefs m1"
      "metaData m1 a ''binary'' = Some (Some (t @ [NUL]))"
      "\<forall>n. mname n \<longrightarrow> munique n \<noteq> munique ''binary'' \<longrightarrow> metaData m1 a n = metaData m a n" "upto {a, fresh m} m m1"
      by (rule keySetMeta_set [OF iv a(1,2) na binary_mname small])
    show thesis by (rule that [OF _ x(2-5) _ x(7,8)]) (use x(1,6) Some in simp_all)
  qed
  have "heap_ok m E" using iv by (simp add: inv_def)
  then have ro: "flags k1 AND KEY_FLAG_RO_VALUE = 0" using ro_value_kept [OF m1(1) a(1) m1(3)] a(3) by simp
  obtain m' k' where m': "keySetRaw m1 (Some a) d sz = Some (if d = None then (if metaData m1 a ''binary'' = None then 1 else 0) else int sz, m')"
    "inv m' E" "upto {a} m1 m'" "keys m' a = Some k'" "data k' = d" "dataSize k' = sz" "key k' = key k1" "uname k' = uname k1"
    "\<forall>n. mname n \<longrightarrow> metaData m' a n = metaData m1 a n"
    by (rule keySetRaw_ok [OF m1(2,3,5) ro d sz])
  have "metaFind m' k' ''binary'' = None \<longleftrightarrow> ty = None"
    using m'(9) binary_mname m1(6) metaData_metaFind [OF m'(4), of "''binary''"] by (metis option.map_disc_iff)
  moreover have "upto {a, fresh m} m m'" using m1(8) m'(3) by (rule upto_sub)
  moreover have "\<forall>n. mname n \<and> munique n \<noteq> munique ''binary'' \<longrightarrow> metaData m' a n = metaData m a n" using m'(9) m1(7) by simp
  moreover have "key k' = key k \<and> uname k' = uname k" using m'(7,8) core_key [OF m1(4)] by simp
  ultimately show thesis using that [OF m1(1), of m' k'] m' m1(6) by simp
qed

lemma keySetString_ok:
  assumes iv: "inv m E" and a: "keys m a = Some k" "flags k AND KEY_FLAG_RO_META = 0" "flags k AND KEY_FLAG_RO_VALUE = 0"
    and na: "a \<notin># metaRefs m" and small: "fresh m < SSIZE_MAX" and s: "cstring s"
  shows "\<exists>m' k'. keySetString m (Some a) (Some s) = Some (int (length s) + 1, m') \<and> inv m' E \<and> keys m' a = Some k'
     \<and> data k' = (if s = [] then None else Some (s @ [NUL])) \<and> dataSize k' = (if s = [] then 0 else length s + 1)
     \<and> keyIsString m' (Some k') = 1 \<and> keyString m' (Some k') = s
     \<and> (\<forall>n. length s < n \<and> n \<le> SSIZE_MAX \<longrightarrow> keyGetString m' (Some k') True n = (int (length s) + 1, Some s))
     \<and> key k' = key k \<and> uname k' = uname k \<and> (\<forall>n. mname n \<and> munique n \<noteq> munique ''binary'' \<longrightarrow> metaData m' a n = metaData m a n)
     \<and> upto {a, fresh m} m m'"
proof -
  let ?d = "if s = [] then None else Some (s @ [NUL])" and ?sz = "if s = [] then 0 else length s + 1"
  obtain r m1 m' k' where v: "keySetMeta m (Some a) (Some ''binary'') None = Some (r, m1)"
    "keySetRaw m1 (Some a) ?d ?sz = Some (if ?d = None then (if (None :: string option) = None then 1 else 0) else int ?sz, m')"
    "inv m' E" "keys m' a = Some k'" "metaFind m' k' ''binary'' = None \<longleftrightarrow> (None :: string option) = None" "data k' = ?d" "dataSize k' = ?sz" "key k' = key k \<and> uname k' = uname k"
    "\<forall>n. mname n \<and> munique n \<noteq> munique ''binary'' \<longrightarrow> metaData m' a n = metaData m a n" "upto {a, fresh m} m m'"
    by (rule set_value [OF iv a na small, of ?d ?sz None]) simp_all
  have "keySetString m (Some a) (Some s) = Some (int (length s) + 1, m')"
    using v(1,2) by (simp add: keySetString_def elektraStrLen_def split: if_splits)
  moreover have "upto_nul (s @ [NUL]) = s" using s by (rule upto_nul_cstring)
  then have "keyString m' (Some k') = s" "\<forall>n. length s < n \<and> n \<le> SSIZE_MAX \<longrightarrow> keyGetString m' (Some k') True n = (int (length s) + 1, Some s)"
    using v(5-7) by (simp_all add: keyString_def keyIsBinary_def keyGetString_def keyIsString_def split: if_splits)
  moreover have "keyIsString m' (Some k') = 1" using v(5) by (simp add: keyIsString_def)
  ultimately show ?thesis using v(3,4,6-10) by blast
qed

text \<open>C27: after \<open>keySetString\<close> the key holds the bytes of the string and its terminator (nothing for the empty string) and is a string, \<open>keyString\<close> and \<open>keyGetString\<close> give back the string that was
  written, its name and its other metadata are unchanged, and the heap is well-formed again.\<close>

theorem set_string:
  assumes iv: "inv m E" and a: "keys m a = Some k" "flags k AND KEY_FLAG_RO_META = 0" "flags k AND KEY_FLAG_RO_VALUE = 0"
    and na: "a \<notin># metaRefs m" and small: "fresh m < SSIZE_MAX" and s: "cstring s"
  shows "\<exists>m' k'. keySetString m (Some a) (Some s) = Some (int (length s) + 1, m') \<and> inv m' E \<and> keys m' a = Some k'
     \<and> data k' = (if s = [] then None else Some (s @ [NUL])) \<and> dataSize k' = (if s = [] then 0 else length s + 1)
     \<and> keyIsString m' (Some k') = 1 \<and> keyString m' (Some k') = s
     \<and> (\<forall>n. length s < n \<and> n \<le> SSIZE_MAX \<longrightarrow> keyGetString m' (Some k') True n = (int (length s) + 1, Some s))
     \<and> key k' = key k \<and> uname k' = uname k \<and> (\<forall>n. mname n \<and> munique n \<noteq> munique ''binary'' \<longrightarrow> metaData m' a n = metaData m a n)
     \<and> upto {a, fresh m} m m'"
  by (rule keySetString_ok [OF assms])

theorem set_string_witness:
  "\<exists>m' k'. keySetString exM (Some 2) (Some ''v'') = Some (int (length ''v'') + 1, m') \<and> inv m' {#0, 1#} \<and> keys m' 2 = Some k'
     \<and> data k' = (if ''v'' = [] then None else Some (''v'' @ [NUL])) \<and> dataSize k' = (if ''v'' = [] then 0 else length ''v'' + 1)
     \<and> keyIsString m' (Some k') = 1 \<and> keyString m' (Some k') = ''v''
     \<and> (\<forall>n. length ''v'' < n \<and> n \<le> SSIZE_MAX \<longrightarrow> keyGetString m' (Some k') True n = (int (length ''v'') + 1, Some ''v''))
     \<and> key k' = key exN \<and> uname k' = uname exN \<and> (\<forall>n. mname n \<and> munique n \<noteq> munique ''binary'' \<longrightarrow> metaData m' 2 n = metaData exM 2 n)
     \<and> upto {2, fresh exM} exM m'"
proof (rule set_string [OF ex_heap(3)])
  show "flags exN AND KEY_FLAG_RO_META = 0" "flags exN AND KEY_FLAG_RO_VALUE = 0" by code_simp+
qed (simp_all add: metaRefs_exMem [OF ex_plain] cstring_def, simp add: exMem_def SSIZE_MAX_def)

text \<open>after \<open>keySetBinary\<close> with any bytes, null bytes included, the key is binary and \<open>keyGetBinary\<close> gives back
  exactly these bytes; the reader for strings refuses the key.\<close>

theorem set_binary:
  assumes iv: "inv m E" and a: "keys m a = Some k" "flags k AND KEY_FLAG_RO_META = 0" "flags k AND KEY_FLAG_RO_VALUE = 0"
    and na: "a \<notin># metaRefs m" and small: "fresh m < SSIZE_MAX" and b: "b \<noteq> []" "length b \<le> SSIZE_MAX"
  shows "\<exists>m' k'. keySetBinary m (Some a) (Some b) (length b) = Some (int (length b), m') \<and> inv m' E \<and> keys m' a = Some k'
     \<and> keyIsBinary m' (Some k') = 1 \<and> keyGetValueSize m' (Some k') = int (length b)
     \<and> (\<forall>n. length b \<le> n \<and> n \<le> SSIZE_MAX \<longrightarrow> keyGetBinary m' (Some k') True n = (int (length b), Some b))
     \<and> (\<forall>n. keyGetString m' (Some k') True n = (-1, None))
     \<and> key k' = key k \<and> (\<forall>n. mname n \<and> munique n \<noteq> munique ''binary'' \<longrightarrow> metaData m' a n = metaData m a n)
     \<and> upto {a, fresh m} m m'"
proof -
  obtain r m1 m' k' where v: "keySetMeta m (Some a) (Some ''binary'') (Some []) = Some (r, m1)"
    "keySetRaw m1 (Some a) (Some b) (length b) = Some (if Some b = None then (if Some ([] :: string) = None then 1 else 0) else int (length b), m')"
    "inv m' E" "keys m' a = Some k'" "metaFind m' k' ''binary'' = None \<longleftrightarrow> Some ([] :: string) = None" "data k' = Some b" "dataSize k' = length b" "key k' = key k \<and> uname k' = uname k"
    "\<forall>n. mname n \<and> munique n \<noteq> munique ''binary'' \<longrightarrow> metaData m' a n = metaData m a n" "upto {a, fresh m} m m'"
    by (rule set_value [OF iv a na small, of "Some b" "length b" "Some []"]) (use b in simp_all)
  have "keySetBinary m (Some a) (Some b) (length b) = Some (int (length b), m')"
    using v(1,2) a b by (simp add: keySetBinary_def)
  moreover have "keyIsBinary m' (Some k') = 1" "keyGetValueSize m' (Some k') = int (length b)"
    using v(5-7) by (auto simp: keyIsBinary_def keyGetValueSize_def)
  moreover from this have "\<forall>n. length b \<le> n \<and> n \<le> SSIZE_MAX \<longrightarrow> keyGetBinary m' (Some k') True n = (int (length b), Some b)"
    "\<forall>n. keyGetString m' (Some k') True n = (-1, None)"
    using v(5-7) b by (auto simp: keyGetBinary_def keyGetString_def keyIsString_def)
  ultimately show ?thesis using v(3,4,8-10) by blast
qed

theorem set_binary_witness:
  "\<exists>m' k'. keySetBinary exM (Some 2) (Some [NUL, CHR ''x'']) (length [NUL, CHR ''x'']) = Some (int (length [NUL, CHR ''x'']), m')
     \<and> inv m' {#0, 1#} \<and> keys m' 2 = Some k'
     \<and> keyIsBinary m' (Some k') = 1 \<and> keyGetValueSize m' (Some k') = int (length [NUL, CHR ''x''])
     \<and> (\<forall>n. length [NUL, CHR ''x''] \<le> n \<and> n \<le> SSIZE_MAX \<longrightarrow>
          keyGetBinary m' (Some k') True n = (int (length [NUL, CHR ''x'']), Some [NUL, CHR ''x'']))
     \<and> (\<forall>n. keyGetString m' (Some k') True n = (-1, None))
     \<and> key k' = key exN \<and> (\<forall>n. mname n \<and> munique n \<noteq> munique ''binary'' \<longrightarrow> metaData m' 2 n = metaData exM 2 n)
     \<and> upto {2, fresh exM} exM m'"
proof (rule set_binary [OF ex_heap(3)])
  show "flags exN AND KEY_FLAG_RO_META = 0" "flags exN AND KEY_FLAG_RO_VALUE = 0" by code_simp+
qed (simp_all add: metaRefs_exMem [OF ex_plain], simp_all add: exMem_def SSIZE_MAX_def)

text \<open>C28: writing to a key with a read-only value fails; \<open>keySetBinary\<close> then changes nothing, whereas
  \<open>keySetString\<close> has removed the metadata \<open>binary\<close> before it notices.\<close>

theorem set_value_locked:
  assumes iv: "inv m E" and a: "keys m a = Some k" "flags k AND KEY_FLAG_RO_META = 0" "flags k AND KEY_FLAG_RO_VALUE \<noteq> 0"
    and na: "a \<notin># metaRefs m" and small: "fresh m < SSIZE_MAX"
  shows "keySetBinary m (Some a) b sz = Some (-1, m)
     \<and> (\<exists>m'. keySetString m (Some a) s = Some (-1, m') \<and> inv m' E \<and> metaData m' a ''binary'' = None)"
proof
  show "keySetBinary m (Some a) b sz = Some (-1, m)" using a by (simp add: keySetBinary_def)
  obtain m1 k1 where m1: "keySetMeta m (Some a) (Some ''binary'') None = Some (0, m1)" "inv m1 E" "keys m1 a = Some k1"
    "metaData m1 a ''binary'' = None"
    using keySetMeta_unset [OF iv a(1,2) na binary_mname small] by metis
  have "heap_ok m E" using iv by (simp add: inv_def)
  then have "flags k1 AND KEY_FLAG_RO_VALUE \<noteq> 0" using ro_value_kept [OF m1(1) a(1) m1(3)] a(3) by simp
  then have "keySetString m (Some a) s = Some (-1, m1)"
    using m1(1,3) by (cases s) (simp_all add: keySetString_def keySetRaw_def)
  then show "\<exists>m'. keySetString m (Some a) s = Some (-1, m') \<and> inv m' E \<and> metaData m' a ''binary'' = None" using m1(2,4) by blast
qed

text \<open>A key with a read-only value.\<close>

definition exRo :: mem where
  "exRo = exMem [exN\<lparr>flags := KEY_FLAG_RO_VALUE\<rparr>]"

theorem set_value_locked_witness:
  "keySetBinary exRo (Some 0) (Some ''x'') 1 = Some (-1, exRo)
     \<and> (\<exists>m'. keySetString exRo (Some 0) (Some ''x'') = Some (-1, m') \<and> inv m' {#} \<and> metaData m' 0 ''binary'' = None)"
proof -
  have p: "plain [exN\<lparr>flags := KEY_FLAG_RO_VALUE\<rparr>]" using ex_fields by (simp add: plain_def sized_def)
  show ?thesis
  proof (rule set_value_locked)
    show "inv exRo {#}" unfolding exRo_def by (rule heap_ok_exMem(3) [OF p]) (simp_all add: ex_fields)
    show "keys exRo 0 = Some (exN\<lparr>flags := KEY_FLAG_RO_VALUE\<rparr>)" by (simp add: exRo_def exMem_def)
  qed (simp_all add: exRo_def metaRefs_exMem [OF p], simp add: exMem_def SSIZE_MAX_def)
qed

end
