(* ===== verification/KeySetUnion.thy ===== *)
theory KeySetUnion
  imports KeySetProperties KeyFrames
begin

text \<open>
  \<open>ksAppend\<close> and \<open>ksDup\<close> of \<open>src/libs/elektra/keyset.c\<close>: appending a whole keyset is the union of the two
  maps from names to keys, in which the appended keyset wins, and a duplicate holds the same keys in the same
  order. Both keep every reference counter exact.
\<close>

section \<open>Appending several keys\<close>

lemma metaRefs_kept:
  assumes k: "kept m m'" "\<And>b. keys m b = None \<Longrightarrow> keys m' b = None" and ok: "heap_ok m E" and b: "b \<in># metaRefs m'"
  shows "b \<in># metaRefs m"
proof -
  from b obtain c where c: "b \<in># metaPtrs (keys m' c)" by (auto simp: metaRefs_iff)
  then obtain k' where k': "keys m' c = Some k'" by (cases "keys m' c") auto
  then obtain k0 where k0: "keys m c = Some k0" using k(2) [of c] by fastforce
  then have "metaPtrs (keys m' c) = metaPtrs (keys m c)" using metaPtrs_core [OF keptD [OF k(1) k0 k']] k' by simp
  then show ?thesis using c heap_okD(1) [OF ok k0] by (auto simp: metaRefs_iff)
qed

lemma flat_kept:
  assumes k: "kept m m'" "\<And>b. keys m b = None \<Longrightarrow> keys m' b = None" and ok: "heap_ok m E" and fl: "flat m"
  shows "flat m'"
  unfolding flat_def
proof (intro allI impI)
  fix b k' assume b: "b \<in># metaRefs m'" "keys m' b = Some k'"
  obtain k0 where k0: "keys m b = Some k0" using k(2) [of b] b(2) by fastforce
  have "meta k0 = None" using fl metaRefs_kept [OF k ok b(1)] k0 unfolding flat_def by blast
  then show "meta k' = None" using core_eqD(7) [OF keptD [OF k(1) k0 b(2)]] by simp
qed

lemma kept_trans: "kept m m1 \<Longrightarrow> kept m1 m2 \<Longrightarrow> (\<And>b. keys m1 b = None \<Longrightarrow> keys m2 b = None) \<Longrightarrow> kept m m2"
  unfolding kept_def by (metis option.exhaust)

definition appendable :: "mem \<Rightarrow> addr \<Rightarrow> bool" where
  "appendable m a \<longleftrightarrow> (\<exists>k. keys m a = Some k \<and> key k \<noteq> None \<and> ksReference k < SSIZE_MAX)"

lemma appendLoop_ok:
  "ks_ok m ks xs \<Longrightarrow> heap_ok m (F + mset xs) \<Longrightarrow> flat m \<Longrightarrow> \<forall>a \<in> set as. appendable m a \<and> a \<in># F \<Longrightarrow> distinct as \<Longrightarrow>
   \<exists>m' ks' ys. appendLoop m ks as = Some (m', ks') \<and> ks_ok m' ks' ys \<and> heap_ok m' (F + mset ys) \<and> flat m' \<and> kept m m'
     \<and> (\<forall>b. keys m b = None \<longrightarrow> keys m' b = None) \<and> quiet (set as) m m' \<and> (cursor_in ks xs \<longrightarrow> cursor_in ks' ys)
     \<and> ksMap m' ys = ksMap m xs ++ ksMap m (rev as) \<and> set ys \<subseteq> set xs \<union> set as"
proof (induction as arbitrary: m ks xs)
  case Nil
  then show ?case by (auto simp: ksMap_def kept_def)
next
  case (Cons a as)
  obtain k where a: "keys m a = Some k" "key k \<noteq> None" "ksReference k < SSIZE_MAX" "a \<in># F"
    using Cons.prems(4) by (auto simp: appendable_def)
  obtain r m1 ks1 where ap: "ksAppendKey m ks (Some a) = Some (r, m1, ks1)"
    using ksAppendKey_returns [OF Cons.prems(1-3) a(1-3)] a(4) by fastforce
  note A = ksAppendKey_ok [OF Cons.prems(1,2) a(1-3) ap]
  have q: "quiet {a} m m1" by (rule quiet_append [OF ap])
  have live: "keys m1 b \<noteq> None" if "b \<in> set (a # as) \<or> b \<in> set (appended m a xs)" for b
    by (rule heap_ok_live [OF A(2), of b]) (use that Cons.prems(4) in auto)
  have kk: "okeyA m1 b = okeyA m b" if "keys m1 b \<noteq> None" for b
    using okeyA_kept [OF Cons.prems(2) A(2,4)] A(5) that by metis
  have apb: "appendable m1 b \<and> b \<in># F" if b: "b \<in> set as" for b
  proof -
    obtain kb where kb: "keys m b = Some kb" "key kb \<noteq> None" "ksReference kb < SSIZE_MAX" "b \<in># F"
      using Cons.prems(4) b by (auto simp: appendable_def)
    obtain kb' where kb': "keys m1 b = Some kb'" using live [of b] b by fastforce
    have "b \<noteq> a" using Cons.prems(5) b by auto
    then have "ksReference kb' \<le> ksReference kb" using quietD [OF q _ kb'] kb(1) by (auto simp: calm_def)
    then show ?thesis using kb kb' core_eqD(3) [OF keptD [OF A(4) kb(1) kb']] by (simp add: appendable_def)
  qed
  have fl: "flat m1" by (rule flat_kept [OF A(4,5) Cons.prems(2,3)])
  have "\<forall>b \<in> set as. appendable m1 b \<and> b \<in># F" using apb by blast
  then obtain m' ks' ys where IH: "appendLoop m1 ks1 as = Some (m', ks')" "ks_ok m' ks' ys" "heap_ok m' (F + mset ys)" "flat m'" "kept m1 m'"
    "\<forall>b. keys m1 b = None \<longrightarrow> keys m' b = None" "quiet (set as) m1 m'" "cursor_in ks1 (appended m a xs) \<longrightarrow> cursor_in ks' ys"
    "ksMap m' ys = ksMap m1 (appended m a xs) ++ ksMap m1 (rev as)" "set ys \<subseteq> set (appended m a xs) \<union> set as"
    using Cons.IH [OF A(1,2) fl] Cons.prems(5) by auto
  have "ksMap m1 (appended m a xs) = (ksMap m xs)(okeyA m a \<mapsto> a)"
    using ksMap_cong [of "appended m a xs" m1 m] kk live ksMap_appended by simp
  moreover have "ksMap m1 (rev as) = ksMap m (rev as)" using kk live by (intro ksMap_cong) simp
  moreover have "ksMap m (rev (a # as)) = [okeyA m a \<mapsto> a] ++ ksMap m (rev as)" by (simp add: ksMap_def map_add_def fun_eq_iff split: option.split)
  ultimately have mp: "ksMap m' ys = ksMap m xs ++ ksMap m (rev (a # as))"
    using IH(9) by (simp add: map_add_assoc [symmetric] map_add_upd)
  have "kept m m'" using A(4) IH(5) by (rule kept_trans) (use IH(6) in blast)
  moreover have "quiet (set (a # as)) m m'"
    by (rule quiet_trans [OF quiet_mono [OF q] quiet_mono [OF IH(7)]]) auto
  moreover have "set ys \<subseteq> set xs \<union> set (a # as)" using IH(10) set_appended by fastforce
  moreover have "\<forall>b. keys m b = None \<longrightarrow> keys m' b = None" using A(5) IH(6) by blast
  ultimately show ?case using ap IH(1-4,8) A(6) mp by auto
qed

section \<open>Appending a keyset\<close>

lemma growAlloc_Some: "0 < a \<Longrightarrow> \<exists>t. growAlloc need a = Some t \<and> need < t \<and> a \<le> t"
proof (induction need a rule: growAlloc.induct)
  case (1 need a)
  show ?case
  proof (cases "need < a")
    case True
    then show ?thesis by (subst growAlloc.simps) simp
  next
    case False
    then obtain t where "growAlloc need (a * 2) = Some t" "need < t" "a * 2 \<le> t" using 1 by auto
    then show ?thesis using False 1 by (subst growAlloc.simps) auto
  qed
qed

lemma map_of_rev_distinct: "distinct (map fst l) \<Longrightarrow> map_of (rev l) = map_of l"
proof
  fix w assume d: "distinct (map fst l)"
  then have d': "distinct (map fst (rev l))" by (simp flip: rev_map)
  have "map_of (rev l) w = Some b \<longleftrightarrow> map_of l w = Some b" for b
    using map_of_eq_Some_iff [OF d, of w b] map_of_eq_Some_iff [OF d', of w b] by simp
  then show "map_of (rev l) w = map_of l w" by (cases "map_of l w"; cases "map_of (rev l) w") auto
qed

lemma ksMap_rev: "ks_ok m ks as \<Longrightarrow> ksMap m (rev as) = ksMap m as"
proof -
  assume "ks_ok m ks as"
  then have "distinct (map (okeyA m) as)" by (simp add: ks_ok_def strict_sorted_iff)
  then have "distinct (map fst (map (\<lambda>b. (okeyA m b, b)) as))" by (simp add: comp_def)
  from map_of_rev_distinct [OF this] show ?thesis by (simp add: ksMap_def rev_map)
qed

lemma ksAppend_ok:
  assumes ks: "ks_ok m ks xs" and src: "ks_ok m src as" and ok: "heap_ok m (F + mset xs)" "flat m"
    and ap: "\<forall>a \<in> set as. appendable m a \<and> a \<in># F"
  obtains m' ks' ys where "ksAppend m ks (Some src) = Some (int (length ys), m', ks')" "ks_ok m' ks' ys" "ks_ok m' src as"
    "heap_ok m' (F + mset ys)" "flat m'" "kept m m'" "\<forall>b. keys m b = None \<longrightarrow> keys m' b = None" "quiet (set as) m m'"
    "cursor_in ks xs \<longrightarrow> cursor_in ks' ys" "ksMap m' ys = ksMap m xs ++ ksMap m as" "set ys \<subseteq> set xs \<union> set as"
proof (cases "as = []")
  case True
  have "ks_size src = 0" "ks_size ks = length xs" using repr_size ks_okD(1) [OF src] ks_okD(1) [OF ks] True by fastforce+
  then have "ksAppend m ks (Some src) = Some (int (length xs), m, ks)" by (simp add: ksAppend_def)
  moreover have "kept m m" by (simp add: kept_def)
  moreover have "ksMap m xs = ksMap m xs ++ ksMap m as" using True by (simp add: ksMap_def)
  ultimately show thesis using that ks src ok by auto
next
  case False
  note rk = ks_okD(1) [OF ks] and rs = ks_okD(1) [OF src]
  have sz: "ks_size src = length as" "ks_size ks = length xs" using repr_size [OF rs] repr_size [OF rk] by simp_all
  have "0 < alloc ks" using repr_alloc [OF rk] by simp
  then obtain t where t: "growAlloc (length xs + length as) (alloc ks) = Some t" "length xs + length as < t"
    using growAlloc_Some by blast
  have "length xs \<le> t - 1" using t(2) by linarith
  then obtain r ks1 where r1: "ksResize (Some ks) (t - 1) = (r, Some ks1)" "repr ks1 xs" "cursor ks1 = cursor ks" "current ks1 = current ks"
    by (rule ksResize_repr [OF rk])
  have ks1: "ks_ok m ks1 xs" using ks_ok_sub [OF ks r1(2)] ks_okD(3) [OF ks] by simp
  obtain m' ks' ys where l: "appendLoop m ks1 as = Some (m', ks')" "ks_ok m' ks' ys" "heap_ok m' (F + mset ys)" "flat m'" "kept m m'"
    "\<forall>b. keys m b = None \<longrightarrow> keys m' b = None" "quiet (set as) m m'" "cursor_in ks1 xs \<longrightarrow> cursor_in ks' ys"
    "ksMap m' ys = ksMap m xs ++ ksMap m (rev as)" "set ys \<subseteq> set xs \<union> set as"
    using appendLoop_ok [OF ks1 ok ap ks_okD(4) [OF src]] by blast
  have "ksAppend m ks (Some src) = Some (int (length ys), m', ks')"
    using False sz t(1) r1(1) l(1) ptrs_repr [OF rs] repr_size [OF ks_okD(1) [OF l(2)]] by (simp add: ksAppend_def)
  moreover have "ks_ok m' src as"
  proof (rule ks_ok_kept [OF src ok(1) l(3,5) rs])
    show "keys m' a \<noteq> None" if "a \<in> set as" for a by (rule heap_ok_live [OF l(3), of a]) (use ap that in auto)
  qed
  moreover have "cursor_in ks xs \<longrightarrow> cursor_in ks' ys" using l(8) r1(3,4) by (simp add: cursor_in_def)
  ultimately show thesis using that l ksMap_rev [OF src] by simp
qed

text \<open>Two keysets with the same map hold the same keys in the same order.\<close>

lemma ksMap_unique:
  assumes "ks_ok m ks xs" "ks_ok m ks' ys" "ksMap m xs = ksMap m ys"
  shows "xs = ys"
proof -
  have s: "set xs = set ys"
    using ksMap_Some [OF assms(1)] ksMap_Some [OF assms(2)] assms(3) by (metis subsetI subset_antisym)
  have srt: "sorted_wrt (<) (map (okeyA m) xs)" "sorted_wrt (<) (map (okeyA m) ys)" using assms(1,2) by (simp_all add: ks_ok_def)
  have "map (okeyA m) xs = map (okeyA m) ys"
    using strict_sorted_equal [OF srt] s by simp
  moreover have "inj_on (okeyA m) (set xs \<union> set ys)"
    using srt(1) s by (auto simp: strict_sorted_iff distinct_map)
  ultimately show ?thesis by (rule map_inj_on)
qed

section \<open>Duplicating a keyset\<close>

text \<open>Appending keys in ascending order, all after those that are there: nothing is replaced.\<close>

lemma appendLoop_new:
  "ks_ok m ks xs \<Longrightarrow> heap_ok m (F + mset xs) \<Longrightarrow> \<forall>a \<in> set as. appendable m a \<Longrightarrow> sorted_wrt (<) (map (okeyA m) (xs @ as)) \<Longrightarrow>
   \<exists>m' ks'. appendLoop m ks as = Some (m', ks') \<and> ks_ok m' ks' (xs @ as) \<and> heap_ok m' (F + mset (xs @ as)) \<and> kept m m'
     \<and> (\<forall>b. keys m' b = None \<longleftrightarrow> keys m b = None) \<and> quiet (set as) m m' \<and> metaRefs m' = metaRefs m \<and> (cursor_in ks xs \<longrightarrow> cursor_in ks' (xs @ as))"
proof (induction as arbitrary: m ks xs)
  case Nil
  then show ?case by (auto simp: kept_def)
next
  case (Cons a as)
  obtain k where a: "keys m a = Some k" "key k \<noteq> None" "ksReference k < SSIZE_MAX"
    using Cons.prems(3) by (auto simp: appendable_def)
  have lt: "okeyA m b < okeyA m a" if "b \<in> set xs" for b using Cons.prems(4) that by (simp add: sorted_wrt_append)
  have gt: "okeyA m a < okeyA m b" if "b \<in> set as" for b using Cons.prems(4) that by (simp add: sorted_wrt_append)
  have "okeyA m b \<noteq> okeyA m a" if "b \<in> set xs" for b using lt [OF that] by simp
  then obtain r m1 ks1 where ap: "ksAppendKey m ks (Some a) = Some (r, m1, ks1)" "metaRefs m1 = metaRefs m"
    "\<And>b. keys m1 b = None \<longleftrightarrow> keys m b = None"
    using ksAppendKey_new [OF Cons.prems(1,2) a] by metis
  note A = ksAppendKey_ok [OF Cons.prems(1,2) a ap(1)]
  have "filter (\<lambda>b. okeyA m b < okeyA m a) xs = xs" "filter (\<lambda>b. okeyA m a < okeyA m b) xs = []"
    using lt by (auto simp: filter_id_conv filter_empty_conv dest: less_not_sym)
  then have xa: "appended m a xs = xs @ [a]" by (simp add: appended_def)
  have q: "quiet {a} m m1" by (rule quiet_append [OF ap(1)])
  have kk: "okeyA m1 b = okeyA m b" if "keys m b \<noteq> None" for b
    using okeyA_kept [OF Cons.prems(2) A(2,4)] ap(3) that by metis
  have "appendable m1 b" if b: "b \<in> set as" for b
  proof -
    obtain kb where kb: "keys m b = Some kb" "key kb \<noteq> None" "ksReference kb < SSIZE_MAX"
      using Cons.prems(3) b by (auto simp: appendable_def)
    obtain kb' where kb': "keys m1 b = Some kb'" using ap(3) [of b] kb(1) by fastforce
    have "b \<noteq> a" using gt [OF b] by auto
    then have "ksReference kb' \<le> ksReference kb" using quietD [OF q _ kb'] kb(1) by (auto simp: calm_def)
    then show ?thesis using kb kb' core_eqD(3) [OF keptD [OF A(4) kb(1) kb']] by (simp add: appendable_def)
  qed
  moreover have "map (okeyA m1) ((xs @ [a]) @ as) = map (okeyA m) (xs @ a # as)"
  proof (simp, intro conjI ballI)
    show "okeyA m1 b = okeyA m b" if "b \<in> set xs" for b using ks_okD(2) [OF Cons.prems(1) that] kk by auto
    show "okeyA m1 a = okeyA m a" using a(1) kk by simp
    show "okeyA m1 b = okeyA m b" if "b \<in> set as" for b using Cons.prems(3) that kk by (auto simp: appendable_def)
  qed
  then have "sorted_wrt (<) (map (okeyA m1) ((xs @ [a]) @ as))" using Cons.prems(4) by (simp only:)
  ultimately obtain m' ks' where IH: "appendLoop m1 ks1 as = Some (m', ks')" "ks_ok m' ks' ((xs @ [a]) @ as)" "heap_ok m' (F + mset ((xs @ [a]) @ as))"
    "kept m1 m'" "\<forall>b. keys m' b = None \<longleftrightarrow> keys m1 b = None" "quiet (set as) m1 m'" "metaRefs m' = metaRefs m1"
    "cursor_in ks1 (xs @ [a]) \<longrightarrow> cursor_in ks' ((xs @ [a]) @ as)"
    using Cons.IH [OF A(1,2) [unfolded xa]] by blast
  have "kept m m'" using A(4) IH(4) by (rule kept_trans) (use IH(5) in blast)
  moreover have "quiet (set (a # as)) m m'"
    by (rule quiet_trans [OF quiet_mono [OF q] quiet_mono [OF IH(6)]]) auto
  ultimately show ?case using ap IH A(6) xa by auto
qed

lemma ksDup_ok:
  assumes src: "ks_ok m src as" and ok: "heap_ok m F" and ap: "\<forall>a \<in> set as. appendable m a"
  obtains m' ks' where "ksDup m (Some src) = Some (Some ks', m')" "ks_ok m' ks' as" "heap_ok m' (F + mset as)"
    "kept m m'" "\<forall>b. keys m' b = None \<longleftrightarrow> keys m b = None" "quiet (set as) m m'" "metaRefs m' = metaRefs m" "cursor_in ks' as"
proof -
  define sz where "sz = (if alloc src < KEYSET_SIZE then KEYSET_SIZE else alloc src)"
  define new where "new = ksRewind (ksVNewEmpty sz)"
  note rs = ks_okD(1) [OF src]
  have new: "ks_ok m new []" "cursor_in new []" "alloc new = sz + 1" "0 < sz"
    using ksVNewEmpty_repr(1) by (auto simp: new_def ks_ok_def cursor_in_def ksRewind_def ksVNewEmpty_def Let_def sz_def KEYSET_SIZE_def)
  have n: "ksNew m sz [] = Some (m, new)" by (simp add: ksNew_def ksVNew_def new_def)
  have dup: "ksDup m (Some src) = (case ksAppend m new (Some src) of None \<Rightarrow> None | Some (_, m2, ks2) \<Rightarrow> Some (Some ks2, m2))"
    using n by (simp add: ksDup_def Let_def sz_def [symmetric] split: option.split)
  have srt: "sorted_wrt (<) (map (okeyA m) as)" using src by (simp add: ks_ok_def)
  show thesis
  proof (cases "as = []")
    case True
    have "ks_size src = 0" "ks_size new = 0" using repr_size [OF rs] repr_size [OF ks_okD(1) [OF new(1)]] True by simp_all
    then have "ksDup m (Some src) = Some (Some new, m)" by (simp add: dup ksAppend_def)
    moreover have "kept m m" by (simp add: kept_def)
    ultimately show thesis using that new(1,2) ok True by simp
  next
    case False
    have ss: "ks_size src = length as" "ks_size new = 0" using repr_size [OF rs] repr_size [OF ks_okD(1) [OF new(1)]] by simp_all
    obtain t where t: "growAlloc (length as) (alloc new) = Some t" "length as < t"
      using growAlloc_Some [of "alloc new" "length as"] new(3) by auto
    obtain r ks1 where r1: "ksResize (Some new) (t - 1) = (r, Some ks1)" "repr ks1 []" "cursor ks1 = cursor new" "current ks1 = current new"
      using ksResize_repr [OF ks_okD(1) [OF new(1)], of "t - 1"] by (metis le0 list.size(3))
    have ks1: "ks_ok m ks1 []" using r1(2) by (simp add: ks_ok_def)
    obtain m' ks' where l: "appendLoop m ks1 as = Some (m', ks')" "ks_ok m' ks' ([] @ as)" "heap_ok m' (F + mset ([] @ as))"
      "kept m m'" "\<forall>b. keys m' b = None \<longleftrightarrow> keys m b = None" "quiet (set as) m m'" "metaRefs m' = metaRefs m"
      "cursor_in ks1 [] \<longrightarrow> cursor_in ks' ([] @ as)"
      using appendLoop_new [OF ks1 _ ap, of F] ok srt by auto
    have "ksAppend m new (Some src) = Some (int (ks_size ks'), m', ks')"
      using ss False t(1) r1(1) l(1) ptrs_repr [OF rs] by (simp add: ksAppend_def)
    moreover have "cursor_in ks1 []" using r1(3) new(2) by (simp add: cursor_in_def)
    ultimately show thesis using that l by (simp add: dup)
  qed
qed

section \<open>Deleting a keyset\<close>

lemma closeLoop_frees:
  "heap_ok m (E + mset xs) \<Longrightarrow> flat m \<Longrightarrow> \<exists>m'. closeLoop keyDelMem m xs = Some m' \<and> heap_ok m' E \<and> frame m m' \<and> freed_only m m' (set xs)
     \<and> (\<forall>a \<in> set xs. a \<notin># metaRefs m + E \<longrightarrow> keys m' a = None)"
proof (induction xs arbitrary: m)
  case Nil
  then show ?case by (auto simp: freed_only_def)
next
  case (Cons x xs)
  then have "heap_ok m (add_mset x (E + mset xs))" by simp
  then obtain m1 where m1: "decRef m x = Some m1" "heap_ok m1 (E + mset xs)" "frame m m1" "keys m1 x \<noteq> None"
    "\<forall>b. keys m b \<noteq> None \<longrightarrow> keys m1 b \<noteq> None"
    by (rule heap_ok_decRef)
  note fl1 = flat_frame [OF Cons.prems(2) m1(3)]
  obtain k1 where "keys m1 x = Some k1" using m1(4) by auto
  then obtain r m2 where m2: "keyDelMem m1 x = Some (r, m2)" by (rule keyDelMem_returns [OF m1(2) fl1])
  note d = del_okD [OF keyDelMem_ok m2 m1(2)]
  obtain m' where m': "closeLoop keyDelMem m2 xs = Some m'" "heap_ok m' E" "frame m2 m'" "freed_only m2 m' (set xs)"
    "\<forall>a \<in> set xs. a \<notin># metaRefs m2 + E \<longrightarrow> keys m' a = None"
    using Cons.IH [OF d(1) flat_frame [OF fl1 d(2)]] by blast
  have fr: "frame m m2" using m1(3) d(2) by (rule frame_trans)
  have loop: "closeLoop keyDelMem m (x # xs) = Some m'" using m1(1) m2 m'(1) by simp
  moreover have "frame m m'" using fr m'(3) by (rule frame_trans)
  moreover have "freed_only m m' (set (x # xs))" using closeLoop_ok [OF keyDelMem_ok loop Cons.prems(1)] by simp
  moreover have "keys m' a = None" if a: "a \<in> set (x # xs)" "a \<notin># metaRefs m + E" for a
  proof (cases "a \<in> set xs")
    case True
    then show ?thesis using m'(5) a(2) metaRefs_frame [OF fr] by auto
  next
    case False
    then have ax: "a = x" using a(1) by simp
    have "a \<notin># metaRefs m1 + (E + mset xs)" using a(2) False metaRefs_frame [OF m1(3)] by auto
    then have "refs m1 a = 0" using heap_okD(3) [OF m1(2), of a] by (metis count_eq_zero_iff)
    then have "keys m2 a = None" using d(4) ax by simp
    then show ?thesis by (rule frame_dead [OF m'(3)])
  qed
  ultimately show ?case using m'(2) by blast
qed

section \<open>Properties\<close>

text \<open>C30: \<open>ksAppend\<close> implements the union of maps from names to keys, in which the appended keyset wins; the
  appended keyset stays as it is, and all reference counters are exact.\<close>

theorem append_keyset:
  assumes "ks_ok m ks xs" "ks_ok m src as" "heap_ok m (E + mset as + mset xs)" "flat m"
    "\<forall>a \<in> set as. \<exists>k. keys m a = Some k \<and> ksReference k < SSIZE_MAX"
  shows "\<exists>m' ks' ys. ksAppend m ks (Some src) = Some (int (length ys), m', ks') \<and> ks_ok m' ks' ys \<and> ks_ok m' src as
     \<and> heap_ok m' (E + mset as + mset ys) \<and> kept m m' \<and> ksMap m' ys = ksMap m xs ++ ksMap m as"
proof -
  have "\<forall>a \<in> set as. appendable m a \<and> a \<in># E + mset as"
    using assms(5) ks_okD(2) [OF assms(2)] by (fastforce simp: appendable_def)
  then show ?thesis using ksAppend_ok [OF assms(1-4)] by metis
qed

theorem append_keyset_witness:
  "\<exists>m' ks' ys. ksAppend exM (ksInit\<lparr>array := Some [Null], alloc := 1\<rparr>) (Some exKs) = Some (int (length ys), m', ks') \<and> ks_ok m' ks' ys
     \<and> ks_ok m' exKs [0, 1] \<and> heap_ok m' ({#} + mset [0, 1] + mset ys) \<and> kept exM m' \<and> ksMap m' ys = ksMap exM [] ++ ksMap exM [0, 1]"
proof (rule append_keyset [OF _ exKs_ok])
  have "repr (ksInit\<lparr>array := Some [Null], alloc := 1\<rparr>) []" by (rule reprI [of _ _ "[]"]) (simp_all add: ksInit_def)
  then show "ks_ok exM (ksInit\<lparr>array := Some [Null], alloc := 1\<rparr>) []" by (simp add: ks_ok_def)
qed (use ex_heap in \<open>simp_all add: ex_fields SSIZE_MAX_def add_mset_commute\<close>)

text \<open>C31: \<open>ksDup\<close> gives a keyset with the same keys in the same order, and every one of them has one reference
  more; deleting a keyset with \<open>ksDel\<close> takes them back.\<close>

theorem dup_keyset:
  assumes "ks_ok m src as" "heap_ok m (E + mset as)" "flat m" "\<forall>a \<in> set as. \<exists>k. keys m a = Some k \<and> ksReference k < SSIZE_MAX"
  shows "\<exists>m' ks' m''. ksDup m (Some src) = Some (Some ks', m') \<and> ks_ok m' ks' as \<and> heap_ok m' (E + mset as + mset as) \<and> kept m m'
     \<and> ksDel m' (Some ks') = Some (0, m'') \<and> heap_ok m'' (E + mset as) \<and> frame m' m''
     \<and> (\<forall>a \<in> set as. keys m'' a \<noteq> None)"
proof -
  have "\<forall>a \<in> set as. appendable m a" using assms(4) ks_okD(2) [OF assms(1)] by (fastforce simp: appendable_def)
  then obtain m' ks' where d: "ksDup m (Some src) = Some (Some ks', m')" "ks_ok m' ks' as" "heap_ok m' (E + mset as + mset as)" "kept m m'"
    "\<forall>b. keys m' b = None \<longleftrightarrow> keys m b = None" "quiet (set as) m m'" "metaRefs m' = metaRefs m"
    using ksDup_ok [OF assms(1,2)] by metis
  have fl: "flat m'" by (rule flat_kept [OF d(4) _ assms(2,3)]) (use d(5) in blast)
  obtain m'' where c: "closeLoop keyDelMem m' as = Some m''" "heap_ok m'' (E + mset as)" "frame m' m''" "freed_only m' m'' (set as)"
    using closeLoop_frees [OF d(3) fl] by blast
  have "ksDel m' (Some ks') = Some (0, m'')"
    using c(1) ptrs_repr [OF ks_okD(1) [OF d(2)]] by (simp add: ksDel_def ksClose_def ksCloseWith_def)
  moreover have "keys m'' a \<noteq> None" if "a \<in> set as" for a
    by (rule heap_ok_live [OF c(2), of a]) (use that in auto)
  ultimately show ?thesis using d c(2,3) by blast
qed

theorem dup_keyset_witness:
  "\<exists>m' ks' m''. ksDup exM (Some exKs) = Some (Some ks', m') \<and> ks_ok m' ks' [0, 1] \<and> heap_ok m' ({#} + mset [0, 1] + mset [0, 1]) \<and> kept exM m'
     \<and> ksDel m' (Some ks') = Some (0, m'') \<and> heap_ok m'' ({#} + mset [0, 1]) \<and> frame m' m''
     \<and> (\<forall>a \<in> set [0, 1]. keys m'' a \<noteq> None)"
  by (rule dup_keyset [OF exKs_ok]) (use ex_heap in \<open>simp_all add: ex_fields SSIZE_MAX_def add_mset_commute\<close>)

text \<open>C32: \<open>ksDel\<close> always returns, gives up one reference for every key of the keyset, and frees exactly those keys of
  it that nothing else holds; no other key is freed, except metadata.\<close>

theorem del_keyset:
  assumes "repr ks xs" "heap_ok m (E + mset xs)" "flat m"
  shows "\<exists>m'. ksDel m (Some ks) = Some (0, m') \<and> heap_ok m' E \<and> frame m m' \<and> freed_only m m' (set xs)
     \<and> (\<forall>a \<in> set xs. a \<notin># metaRefs m + E \<longrightarrow> keys m' a = None) \<and> (\<forall>a. a \<in># E \<longrightarrow> keys m' a \<noteq> None)"
proof -
  obtain m' where c: "closeLoop keyDelMem m xs = Some m'" "heap_ok m' E" "frame m m'" "freed_only m m' (set xs)"
    "\<forall>a \<in> set xs. a \<notin># metaRefs m + E \<longrightarrow> keys m' a = None"
    using closeLoop_frees [OF assms(2,3)] by blast
  have "ksDel m (Some ks) = Some (0, m')"
    using c(1) ptrs_repr [OF assms(1)] by (simp add: ksDel_def ksClose_def ksCloseWith_def)
  moreover have "keys m' a \<noteq> None" if "a \<in># E" for a
    by (rule heap_ok_live [OF c(2), of a]) (use that in auto)
  ultimately show ?thesis using c by blast
qed

theorem del_keyset_witness:
  "\<exists>m'. ksDel exM (Some exKs) = Some (0, m') \<and> heap_ok m' {#} \<and> frame exM m' \<and> freed_only exM m' (set [0, 1])
     \<and> (\<forall>a \<in> set [0, 1]. a \<notin># metaRefs exM + {#} \<longrightarrow> keys m' a = None) \<and> (\<forall>a. a \<in># {#} \<longrightarrow> keys m' a \<noteq> None)"
  by (rule del_keyset [OF exKs_repr]) (use ex_heap in \<open>simp_all add: add_mset_commute\<close>)

end
