(* ===== verification/KeyLife.thy ===== *)
theory KeyLife
  imports KeyValue KeySetUnion
begin

text \<open>
  Making and copying keys: \<open>keyNew\<close>, \<open>keyVNew\<close>, \<open>keyDup\<close> and \<open>keyCopy\<close> of \<open>src/libs/elektra/key.c\<close>, \<open>keyVInit\<close> of
  \<open>keyhelpers.c\<close>, and \<open>ksDeepDup\<close> of \<open>keyset.c\<close>.

  The variable arguments of \<open>keyNew\<close> are a list of \<open>VaArg\<close>, one constructor for each action with its
  arguments. A pointer to a value is the bytes behind it, the null byte of a string included.
\<close>

section \<open>Copying\<close>

definition keyCopy :: "mem \<Rightarrow> addr option \<Rightarrow> addr option \<Rightarrow> (int \<times> mem) option" where
  "keyCopy m dest source = (case dest of None \<Rightarrow> Some (-1, m)
     | Some d \<Rightarrow> do { kd \<leftarrow> keys m d;
         if test_bit (flags kd) KEY_FLAG_RO_NAME \<or> test_bit (flags kd) KEY_FLAG_RO_VALUE \<or> test_bit (flags kd) KEY_FLAG_RO_META
         then Some (-1, m)
         else (case source of
           None \<Rightarrow> do { (_, m1) \<leftarrow> keyClear m dest; Some (0, m1) }
         | Some s \<Rightarrow> do {
             k \<leftarrow> keys m s;
             (newMeta, m1) \<leftarrow> ksDup m (meta k);
             kd1 \<leftarrow> keys m1 d;
             let destMeta = meta kd1;
             let m2 = storeKey m1 d (kd1\<lparr>key := key k, uname := uname k,
               data := map_option (take (dataSize k)) (data k), meta := newMeta,
               flags := set_bit_flag (flags kd1) KEY_FLAG_SYNC,
               keySize := keySize k, keyUSize := keyUSize k, dataSize := dataSize k\<rparr>);
             (_, m3) \<leftarrow> ksDel m2 destMeta;
             Some (1, m3) }) })"

definition keyDup :: "mem \<Rightarrow> addr option \<Rightarrow> (addr option \<times> mem) option" where
  "keyDup m source = (case source of None \<Rightarrow> Some (None, m)
     | Some s \<Rightarrow> do {
         k \<leftarrow> keys m s;
         let (d, m1) = elektraKeyMalloc m;
         let m2 = storeKey m1 d (k\<lparr>ksReference := 0, flags := KEY_FLAG_SYNC, key := None, data := None, meta := None\<rparr>);
         (r, m3) \<leftarrow> keyCopy m2 (Some d) source;
         if r = -1 then do { (_, m4) \<leftarrow> keyDelMem m3 d; Some (None, m4) }
         else Some (Some d, m3) })"

fun deepDupLoop :: "mem \<Rightarrow> KeySet \<Rightarrow> addr list \<Rightarrow> (mem \<times> KeySet) option" where
  "deepDupLoop m keyset [] = Some (m, keyset)"
| "deepDupLoop m keyset (a # as) = do {
     k \<leftarrow> keys m a;
     (dup, m1) \<leftarrow> keyDup m (Some a);
     d \<leftarrow> dup;
     kd \<leftarrow> keys m1 d;
     let m2 = (if \<not> test_bit (flags k) KEY_FLAG_SYNC
               then (case snd (keyClearSync (Some kd)) of None \<Rightarrow> m1 | Some kd' \<Rightarrow> storeKey m1 d kd') else m1);
     (_, m3, ks') \<leftarrow> ksAppendKey m2 keyset (Some d);
     deepDupLoop m3 ks' as }"

definition ksDeepDup :: "mem \<Rightarrow> KeySet option \<Rightarrow> (KeySet option \<times> mem) option" where
  "ksDeepDup m source = (case source of None \<Rightarrow> Some (None, m)
     | Some src \<Rightarrow> do {
         (m1, keyset) \<leftarrow> ksNew m (alloc src) [];
         xs \<leftarrow> ptrs src;
         (m2, ks') \<leftarrow> deepDupLoop m1 keyset xs;
         Some (Some ks', m2) })"

section \<open>Making\<close>

datatype VaArg =
  VA_SIZE nat | VA_VALUE "string option" | VA_FUNC string | VA_META "string option" "string option"
| VA_FLAGS flags_t | VA_OPTION flags_t
| VA_NAME "string option" | VA_OWNER "string option" | VA_COMMENT "string option" | VA_UID int | VA_GID int
| VA_DIR | VA_MODE nat | VA_ATIME int | VA_MTIME int | VA_CTIME int

text \<open>\<open>VA_OPTION\<close> is one of the actions from \<open>KEY_BINARY\<close> to \<open>KEY_EMPTY_NAME\<close>, whose number is its flag.\<close>

abbreviation KEY_BINARY :: flags_t where "KEY_BINARY \<equiv> 0x10"

abbreviation KDB_FILE_MODE :: nat where "KDB_FILE_MODE \<equiv> 384"
abbreviation KDB_DIR_MODE :: nat where "KDB_DIR_MODE \<equiv> 64"

text \<open>The formats \<open>%o\<close> and \<open>%d\<close>.\<close>

fun showBase :: "nat \<Rightarrow> nat \<Rightarrow> string" where
  "showBase b n = (if n < b \<or> b < 2 then [char_of (48 + n)] else showBase b (n div b) @ [char_of (48 + n mod b)])"

declare showBase.simps [simp del]

definition showInt :: "int \<Rightarrow> string" where
  "showInt i = (if i < 0 then ''-'' @ showBase 10 (nat (- i)) else showBase 10 (nat i))"

definition elektraSetMetaInt :: "mem \<Rightarrow> addr \<Rightarrow> string \<Rightarrow> int \<Rightarrow> (int \<times> mem) option" where
  "elektraSetMetaInt m a name i = do { (_, m1) \<leftarrow> keySetMeta m (Some a) (Some name) (Some (showInt i)); Some (0, m1) }"

definition elektraSetMode :: "mem \<Rightarrow> addr option \<Rightarrow> nat \<Rightarrow> (int \<times> mem) option" where
  "elektraSetMode m a mode = (case a of None \<Rightarrow> Some (-1, m)
     | Some _ \<Rightarrow> do { (_, m1) \<leftarrow> keySetMeta m a (Some ''mode'') (Some (showBase 8 mode)); Some (0, m1) })"

record VaState =
  va_size :: nat
  va_flags :: flags_t
  va_name :: "string option"
  va_owner :: "string option"
  va_mode :: nat
  va_hasMode :: bool

text \<open>The string at a pointer, which must be terminated.\<close>

definition cstrAt :: "string option \<Rightarrow> string option option" where
  "cstrAt p = (case p of None \<Rightarrow> Some None | Some b \<Rightarrow> if NUL \<in> set b then Some (Some (upto_nul b)) else None)"

definition lockAt :: "mem \<Rightarrow> addr \<Rightarrow> flags_t \<Rightarrow> flags_t \<Rightarrow> mem option" where
  "lockAt m a fl what = (if test_bit fl what
     then do { k \<leftarrow> keys m a; k' \<leftarrow> snd (elektraKeyLock (Some k) what); Some (storeKey m a k') } else Some m)"

definition vaFlags :: "mem \<Rightarrow> addr \<Rightarrow> flags_t \<Rightarrow> mem option" where
  "vaFlags m a fl = do {
     m1 \<leftarrow> (if test_bit fl KEY_BINARY then do { (_, m1) \<leftarrow> keySetMeta m (Some a) (Some ''binary'') (Some []); Some m1 } else Some m);
     m2 \<leftarrow> lockAt m1 a fl KEY_LOCK_NAME;
     m3 \<leftarrow> lockAt m2 a fl KEY_LOCK_VALUE;
     lockAt m3 a fl KEY_LOCK_META }"
fun vaStep :: "mem \<Rightarrow> addr \<Rightarrow> VaArg \<Rightarrow> VaState \<Rightarrow> (mem \<times> VaState) option" where
  "vaStep m a (VA_SIZE n) st = Some (m, st\<lparr>va_size := n\<rparr>)"
| "vaStep m a (VA_VALUE v) st = do {
     k \<leftarrow> keys m a;
     (_, m1) \<leftarrow> (if va_size st \<noteq> 0 \<and> keyIsBinary m (Some k) \<noteq> 0 then keySetBinary m (Some a) v (va_size st)
       else if keyIsBinary m (Some k) \<noteq> 0 then do { s \<leftarrow> cstrAt v; s' \<leftarrow> s; keySetBinary m (Some a) v (elektraStrLen s') }
       else do { s \<leftarrow> cstrAt v; keySetString m (Some a) s });
     Some (m1, st) }"
| "vaStep m a (VA_FUNC f) st = do { (_, m1) \<leftarrow> keySetBinary m (Some a) (Some f) (length f); Some (m1, st) }"
| "vaStep m a (VA_META n v) st = do {
     n' \<leftarrow> cstrAt n; v' \<leftarrow> cstrAt v;
     (_, m1) \<leftarrow> keySetMeta m (Some a) n' v'; Some (m1, st) }"
| "vaStep m a (VA_FLAGS f) st = (let fl = va_flags st OR f in do { m1 \<leftarrow> vaFlags m a fl; Some (m1, st\<lparr>va_flags := fl\<rparr>) })"
| "vaStep m a (VA_OPTION f) st = (let fl = va_flags st OR f in do { m1 \<leftarrow> vaFlags m a fl; Some (m1, st\<lparr>va_flags := fl\<rparr>) })"
| "vaStep m a (VA_NAME n) st = do { n' \<leftarrow> cstrAt n; Some (m, st\<lparr>va_name := n'\<rparr>) }"
| "vaStep m a (VA_OWNER n) st = do { n' \<leftarrow> cstrAt n; Some (m, st\<lparr>va_owner := n'\<rparr>) }"
| "vaStep m a (VA_COMMENT c) st = do { c' \<leftarrow> cstrAt c; (_, m1) \<leftarrow> keySetMeta m (Some a) (Some ''comment'') c'; Some (m1, st) }"
| "vaStep m a (VA_UID i) st = do { (_, m1) \<leftarrow> elektraSetMetaInt m a ''uid'' i; Some (m1, st) }"
| "vaStep m a (VA_GID i) st = do { (_, m1) \<leftarrow> elektraSetMetaInt m a ''gid'' i; Some (m1, st) }"
| "vaStep m a VA_DIR st = Some (m, st\<lparr>va_mode := va_mode st OR KDB_DIR_MODE\<rparr>)"
| "vaStep m a (VA_MODE n) st = Some (m, st\<lparr>va_hasMode := True, va_mode := va_mode st OR n\<rparr>)"
| "vaStep m a (VA_ATIME t) st = do { (_, m1) \<leftarrow> elektraSetMetaInt m a ''atime'' (toInt t); Some (m1, st) }"
| "vaStep m a (VA_MTIME t) st = do { (_, m1) \<leftarrow> elektraSetMetaInt m a ''mtime'' (toInt t); Some (m1, st) }"
| "vaStep m a (VA_CTIME t) st = do { (_, m1) \<leftarrow> elektraSetMetaInt m a ''ctime'' (toInt t); Some (m1, st) }"

fun vaLoop :: "mem \<Rightarrow> addr \<Rightarrow> VaArg list \<Rightarrow> VaState \<Rightarrow> (mem \<times> VaState) option" where
  "vaLoop m a [] st = Some (m, st)"
| "vaLoop m a (v # va) st = do { (m1, st1) \<leftarrow> vaStep m a v st; vaLoop m1 a va st1 }"

definition keyVInit :: "mem \<Rightarrow> addr option \<Rightarrow> string option \<Rightarrow> VaArg list \<Rightarrow> mem option" where
  "keyVInit m a name va = (case a of None \<Rightarrow> Some m
     | Some a' \<Rightarrow>
        let m0 = storeKey m a' keyInit in
        if name = None then Some m0
        else do {
          (m1, st) \<leftarrow> vaLoop m0 a' va \<lparr>va_size = 0, va_flags = 0, va_name = name, va_owner = None, va_mode = 0, va_hasMode = False\<rparr>;
          let name_options = va_flags st AND (KEY_CASCADING_NAME OR KEY_META_NAME OR KEY_EMPTY_NAME);
          (_, m2) \<leftarrow> elektraKeySetName m1 a (va_name st) name_options;
          m3 \<leftarrow> (if \<not> va_hasMode st \<and> va_mode st = KDB_DIR_MODE
                 then do { (_, m3) \<leftarrow> elektraSetMode m2 a (KDB_FILE_MODE OR KDB_DIR_MODE); Some m3 }
                 else if va_mode st \<noteq> 0 then do { (_, m3) \<leftarrow> elektraSetMode m2 a (va_mode st); Some m3 }
                 else Some m2);
          if va_owner st = None then Some m3
          else do { (_, m4) \<leftarrow> keySetOwner m3 a (va_owner st); Some m4 } })"

definition keyVNew :: "mem \<Rightarrow> string option \<Rightarrow> VaArg list \<Rightarrow> (addr \<times> mem) option" where
  "keyVNew m name va = (let (a, m1) = elektraKeyMalloc m in do { m2 \<leftarrow> keyVInit m1 (Some a) name va; Some (a, m2) })"

definition keyNew :: "mem \<Rightarrow> string option \<Rightarrow> VaArg list \<Rightarrow> (addr \<times> mem) option" where
  "keyNew m name va = (if name = None then Some (elektraKeyMalloc m) else keyVNew m name va)"

section \<open>New keys\<close>

lemma keySetMeta_nothing: "keys m a = Some k \<Longrightarrow> meta k = None \<Longrightarrow> flags k AND KEY_FLAG_RO_META = 0 \<Longrightarrow>
  keySetMeta m (Some a) (Some n) None = Some (0, m)"
  by (simp add: keySetMeta_def)

lemma keyNew_ok:
  assumes iv: "inv m E" and r: "root \<in> set plain_roots" and s: "cstring rest" "even (escst rest 0)" "rest = [] \<or> (\<forall>n. rest \<noteq> replicate n BSL)"
  shows "\<exists>m' k'. keyNew m (Some (root_name root @ SLASH # rest)) [] = Some (fresh m, m') \<and> inv m' E \<and> keys m (fresh m) = None
     \<and> keys m' = (keys m)(fresh m \<mapsto> k') \<and> named k' root (resolve [] (levels rest)) \<and> data k' = None \<and> meta k' = None \<and> ksReference k' = 0"
proof -
  let ?a = "fresh m" and ?name = "root_name root @ SLASH # rest"
  let ?m1 = "storeKey (snd (elektraKeyMalloc m)) ?a keyInit"
  have ro: "\<not> test_bit (flags (elektraRemoveKeyName keyInit)) KEY_FLAG_RO_NAME" by (simp add: elektraRemoveKeyName_def keyInit_def test_bit_def)
  have bs: "rest \<noteq> [] \<Longrightarrow> \<not> (\<exists>n. rest = replicate n BSL)" using s(3) by blast
  obtain r' k' where k': "setNameCore (elektraRemoveKeyName keyInit) (Some ?name) 0 = (r', k', None)" "0 < r'"
    "named k' root (resolve [] (levels rest))" "data k' = data (elektraRemoveKeyName keyInit)" "meta k' = meta (elektraRemoveKeyName keyInit)"
    using setNameCore_named [OF r ro s(1,2) bs, of 0] by metis
  have ref: "ksReference k' = 0" using setNameCore_meta [OF k'(1)] by (simp add: elektraRemoveKeyName_def keyInit_def)
  have rm: "elektraRemoveKeyName keyInit = keyInit" by (simp add: elektraRemoveKeyName_def keyInit_def)
  have sz: "sized k'" using k'(3) by (simp add: named_def sized_def)
  have mt: "meta k' = None" "data k' = None" using k'(4,5) by (simp_all add: elektraRemoveKeyName_def keyInit_def)
  define k2 where "k2 = k'\<lparr>meta := None, flags := flags k' OR flags keyInit\<rparr>"
  have m1: "keys ?m1 ?a = Some keyInit" "meta keyInit = None" "flags keyInit = 0" by (simp_all add: keyInit_def)
  have own: "keySetOwner ?m1 (Some ?a) None = Some (1, ?m1)"
    using m1 by (simp add: keySetOwner_def keySetMeta_nothing)
  have "elektraKeySetName ?m1 (Some ?a) (Some ?name) 0 = Some (r', storeKey ?m1 ?a k2)"
    using m1 own k'(1) rm unfolding elektraKeySetName_def
    by (simp add: test_bit_def k2_def)
  then have "keyNew m (Some ?name) [] = Some (?a, storeKey ?m1 ?a k2)"
    by (simp add: keyNew_def keyVNew_def keyVInit_def elektraKeyMalloc_def Let_def)
  moreover have "storeKey ?m1 ?a k2 = storeKey (snd (elektraKeyMalloc m)) ?a k2" by simp
  moreover have "inv (storeKey (snd (elektraKeyMalloc m)) ?a k2) E"
    by (rule inv_alloc [OF iv]) (use sz ref in \<open>simp_all add: k2_def sized_def\<close>)
  moreover have "named k2 root (resolve [] (levels rest))" using k'(3) by (simp add: named_def k2_def)
  moreover have "keys (storeKey (snd (elektraKeyMalloc m)) ?a k2) = (keys m)(?a \<mapsto> k2)" by (simp add: elektraKeyMalloc_def)
  moreover have "keys m ?a = None" using iv heap_okD(1) [of m E ?a] unfolding inv_def by (cases "keys m ?a") auto
  ultimately show ?thesis using mt ref by (auto simp: k2_def)
qed

text \<open>C33: \<open>keyNew\<close> with a name below a namespace makes a key at a fresh address whose name is the canonical form of
  the levels that were written, without value and metadata, and nothing else in memory changes.\<close>

theorem new_key:
  assumes iv: "inv m E" and r: "root \<in> set plain_roots" and s: "cstring rest" "even (escst rest 0)" "rest = [] \<or> (\<forall>n. rest \<noteq> replicate n BSL)"
  shows "\<exists>m' k'. keyNew m (Some (root_name root @ SLASH # rest)) [] = Some (fresh m, m') \<and> inv m' E \<and> keys m (fresh m) = None
     \<and> keys m' = (keys m)(fresh m \<mapsto> k') \<and> named k' root (resolve [] (levels rest)) \<and> data k' = None \<and> meta k' = None \<and> ksReference k' = 0"
  by (rule keyNew_ok [OF assms])

theorem new_key_witness:
  "\<exists>m' k'. keyNew mem0 (Some (root_name (Some ''user'') @ SLASH # ''a//./b'')) [] = Some (fresh mem0, m') \<and> inv m' {#} \<and> keys mem0 (fresh mem0) = None
     \<and> keys m' = (keys mem0)(fresh mem0 \<mapsto> k') \<and> named k' (Some ''user'') (resolve [] (levels ''a//./b'')) \<and> data k' = None \<and> meta k' = None \<and> ksReference k' = 0"
proof (rule new_key)
  show "inv mem0 {#}" by (simp add: inv_def heap_ok_def mem0_def metaRefs_def refs_def flat_def)
  show "''a//./b'' = [] \<or> (\<forall>n. ''a//./b'' \<noteq> replicate n BSL)"
  proof -
    have "''a//./b'' \<noteq> replicate n BSL" for n by (cases n) simp_all
    then show ?thesis by blast
  qed
qed (simp_all add: plain_roots_def cstring_def)


section \<open>Duplicating\<close>

text \<open>A second reference to every metadata key of \<open>s\<close>, for the new key at \<open>d\<close>.\<close>

lemma metaDup_ok:
  assumes iv: "inv m E" and s: "keys m s = Some k" and d: "keys m d = Some kd" "meta kd = None" "ksReference kd = 0"
    and small: "\<And>b kb. b \<in> set (mlist k) \<Longrightarrow> keys m b = Some kb \<Longrightarrow> ksReference kb < SSIZE_MAX"
  obtains m1 nm kd1 where "ksDup m (meta k) = Some (nm, m1)" "keys m1 d = Some kd1" "ksReference kd1 = 0" "flags kd1 OR KEY_FLAG_SYNC = flags kd OR KEY_FLAG_SYNC"
    "meta kd1 = None" "kept m m1" "\<forall>b. keys m1 b = None \<longleftrightarrow> keys m b = None" "metaRefs m1 = metaRefs m" "heap_ok m1 (E + mset (mlist k))"
    "\<And>k2. meta k2 = nm \<Longrightarrow> mok (storeKey m1 d k2) k2 (mlist k)" "\<And>b. b \<in> set (mlist k) \<Longrightarrow> b \<noteq> d"
proof (cases "meta k")
  case None
  then have "mlist k = []" "ksDup m (meta k) = Some (None, m)" by (simp_all add: mlist_def ksDup_def)
  then show thesis using that [of None m kd] iv d by (simp add: kept_def inv_def mok_def mlist_def leafs_def)
next
  case (Some ks)
  obtain xs where xs: "repr ks xs" "ks_ok m ks xs" "cursor_in ks xs" "leafs m xs" "\<And>b. b \<in> set xs \<Longrightarrow> b \<in># metaRefs m"
    using inv_meta [OF iv s Some] by metis
  have ml: "mlist k = xs" by (rule mlist_repr [OF Some xs(1)])
  have ok: "heap_ok m E" using iv by (simp add: inv_def)
  have "\<forall>a \<in> set xs. appendable m a" using ks_okD(2) [OF xs(2)] small ml by (fastforce simp: appendable_def)
  then obtain m1 ks' where D: "ksDup m (Some ks) = Some (Some ks', m1)" "ks_ok m1 ks' xs" "heap_ok m1 (E + mset xs)" "kept m m1"
    "\<forall>b. keys m1 b = None \<longleftrightarrow> keys m b = None" "quiet (set xs) m m1" "metaRefs m1 = metaRefs m" "cursor_in ks' xs"
    using ksDup_ok [OF xs(2) ok] by metis
  have "0 < refs m b" if "b \<in> set xs" for b using heap_ok_live [OF ok, of b] xs(5) [OF that] by (metis heap_okD(3) [OF ok] count_greater_zero_iff union_iff)
  moreover have "refs m d = 0" using d by (simp add: refs_def)
  ultimately have dx: "b \<noteq> d" if "b \<in> set xs" for b using that by force
  obtain kd1 where kd1: "keys m1 d = Some kd1" using D(5) d(1) by fastforce
  have c: "calm kd kd1" using quietD [OF D(6) _ kd1] dx d(1) by auto
  have core1: "core kd1 = core kd" by (rule keptD [OF D(4) d(1) kd1])
  have l1: "leafs m1 xs" unfolding leafs_def
  proof
    fix b assume b: "b \<in> set xs"
    obtain kb where kb: "keys m b = Some kb" "meta kb = None" using leafsD [OF xs(4) b] by blast
    obtain kb' where kb': "keys m1 b = Some kb'" using D(5) kb(1) by fastforce
    then show "\<exists>k. keys m1 b = Some k \<and> meta k = None" using kb core_eqD(7) [OF keptD [OF D(4) kb(1) kb']] by simp
  qed
  have mk: "mok (storeKey m1 d k2) k2 (mlist k)" if k2: "meta k2 = Some ks'" for k2
  proof -
    have "\<exists>k k'. keys m1 b = Some k \<and> keys (storeKey m1 d k2) b = Some k' \<and> core k' = core k" if "b \<in> set xs" for b
      using leafsD [OF l1 that] dx [OF that] by auto
    then have "ks_ok (storeKey m1 d k2) ks' xs" "leafs (storeKey m1 d k2) xs" using ks_ok_leafs [OF D(2) l1] by blast+
    then show ?thesis using k2 D(8) mlist_repr [OF k2 ks_okD(1) [OF D(2)]] by (simp add: mok_def ml)
  qed
  have kx: "meta kd1 = None" "ksReference kd1 = 0" "flags kd1 OR KEY_FLAG_SYNC = flags kd OR KEY_FLAG_SYNC"
    using core_eqD(7) [OF core1] c d by (simp_all add: calm_def)
  show thesis by (rule that [of "Some ks'" m1 kd1]) (use Some D kd1 kx ml mk dx in auto)
qed

lemma keyDup_ok:
  assumes iv: "inv m E" and s: "keys m s = Some k"
    and small: "\<forall>b \<in> set (mlist k). \<forall>kb. keys m b = Some kb \<longrightarrow> ksReference kb < SSIZE_MAX"
  shows "\<exists>m' k'. keyDup m (Some s) = Some (Some (fresh m), m') \<and> keys m (fresh m) = None \<and> keys m' (fresh m) = Some k' \<and> inv m' E \<and> kept m m'
     \<and> key k' = key k \<and> uname k' = uname k \<and> keySize k' = keySize k \<and> keyUSize k' = keyUSize k
     \<and> dataSize k' = dataSize k \<and> data k' = map_option (take (dataSize k)) (data k) \<and> ksReference k' = 0 \<and> flags k' = KEY_FLAG_SYNC
     \<and> mlist k' = mlist k \<and> (\<forall>b. keys m b \<noteq> None \<longrightarrow> keys m' b \<noteq> None) \<and> (\<forall>n. mname n \<longrightarrow> metaData m' (fresh m) n = metaData m s n)"
proof -
  let ?d = "fresh m"
  define kd where "kd = k\<lparr>ksReference := 0, flags := KEY_FLAG_SYNC, key := None, data := None, meta := None\<rparr>"
  define m0 where "m0 = storeKey (snd (elektraKeyMalloc m)) ?d kd"
  have ok: "heap_ok m E" "flat m" using iv by (simp_all add: inv_def)
  have sz: "sized k" using heap_okD(2) [OF ok(1) s] by (simp add: wf_key_def)
  have kd: "sized kd" "meta kd = None" "ksReference kd = 0" "flags kd = KEY_FLAG_SYNC" using sz by (simp_all add: kd_def sized_def)
  have iv0: "inv m0 E" unfolding m0_def by (rule inv_alloc [OF iv kd(1-3)])
  have al: "metaRefs m0 = metaRefs m" "keys m ?d = None" using heap_ok_alloc [OF ok(1) kd(1-3)] by (simp_all add: m0_def)
  have k0: "keys m0 b = (if b = ?d then Some kd else keys m b)" for b by (simp add: m0_def elektraKeyMalloc_def)
  have kd0: "keys m0 ?d = Some kd" by (simp add: k0)
  have sd: "s \<noteq> ?d" using s al(2) by auto
  have s0: "keys m0 s = Some k" using s sd by (simp add: k0)
  have ref0: "ksReference kb < SSIZE_MAX" if "b \<in> set (mlist k)" "keys m0 b = Some kb" for b kb
    using small that kd(3) by (auto simp: k0 SSIZE_MAX_def split: if_splits)
  obtain m1 nm kd1 where M: "ksDup m0 (meta k) = Some (nm, m1)" "keys m1 ?d = Some kd1" "ksReference kd1 = 0" "flags kd1 OR KEY_FLAG_SYNC = flags kd OR KEY_FLAG_SYNC"
    "meta kd1 = None" "kept m0 m1" "\<forall>b. keys m1 b = None \<longleftrightarrow> keys m0 b = None" "metaRefs m1 = metaRefs m0" "heap_ok m1 (E + mset (mlist k))"
    "\<And>k2. meta k2 = nm \<Longrightarrow> mok (storeKey m1 ?d k2) k2 (mlist k)" "\<And>b. b \<in> set (mlist k) \<Longrightarrow> b \<noteq> ?d"
    by (rule metaDup_ok [OF iv0 s0 kd0 kd(2,3)]) (erule (1) ref0, rule that)
  define k' where "k' = kd1\<lparr>key := key k, uname := uname k, data := map_option (take (dataSize k)) (data k), meta := nm,
    flags := set_bit_flag (flags kd1) KEY_FLAG_SYNC, keySize := keySize k, keyUSize := keyUSize k, dataSize := dataSize k\<rparr>"
  define m' where "m' = storeKey m1 ?d k'"
  have fl: "flags k' = KEY_FLAG_SYNC" using M(4) kd(4) by (simp add: k'_def set_bit_flag_def)
  have "keyCopy m0 (Some ?d) (Some s) = Some (1, m')"
    using M(1,2,5) s0 kd(4) by (simp add: keyCopy_def k0 test_bit_def k'_def m'_def Let_def ksDel_def)
  then have dup: "keyDup m (Some s) = Some (Some ?d, m')"
    using s by (simp add: keyDup_def elektraKeyMalloc_def m0_def kd_def Let_def)
  have mk: "mok m' k' (mlist k)" unfolding m'_def by (rule M(10)) (simp add: k'_def)
  have kk: "keys m' b = (if b = ?d then Some k' else keys m1 b)" for b by (simp add: m'_def)
  have mr1: "?d \<notin># metaRefs m1" using heap_okD(3) [OF M(9), of ?d] M(2,3) by (auto simp: refs_def count_eq_zero_iff)
  have mp: "metaPtrs (Some k') = mset (mlist k)"
  proof (cases nm)
    case None
    then show ?thesis using mk by (simp add: mok_def mlist_def k'_def)
  next
    case (Some ks')
    then have "ks_ok m' ks' (mlist k)" using mk by (simp add: mok_def k'_def)
    then show ?thesis using Some metaPtrs_repr [of k' ks' "mlist k"] ks_okD(1) by (simp add: k'_def)
  qed
  have wf: "wf_key k'" using sz mk ks_okD(1) by (fastforce simp: wf_key_def sized_def k'_def mok_def split: option.splits)
  have r': "ksReference k' = 0" using M(3) by (simp add: k'_def)
  have ok': "heap_ok m' E" unfolding m'_def by (rule heap_ok_store [OF M(9,2) wf]) (simp add: mp M(3,5) r')
  have mr: "metaRefs m' = metaRefs m + mset (mlist k)"
    using metaRefs_upd [OF heap_okD(1) [OF M(9,2)], of "Some k'"] mp M(2,5,8) al(1) by (simp add: m'_def storeKey_def)
  have own: "b \<in># metaRefs m" if "b \<in> set (mlist k)" for b
    using inv_leafs(4) [OF iv s] that heap_okD(2) [OF ok(1) s] by (auto simp: mlist_def wf_key_def split: option.splits)
  have core1: "core kb' = core kb" if "keys m b = Some kb" "keys m' b = Some kb'" for b kb kb'
    using keptD [OF M(6), of b kb kb'] that al(2) by (auto simp: k0 kk split: if_splits)
  have live: "keys m b \<noteq> None" if "keys m' b \<noteq> None" "b \<noteq> ?d" for b using that M(7) by (auto simp: kk k0)
  have fl': "flat m'" unfolding flat_def
  proof (intro allI impI)
    fix b kb assume b: "b \<in># metaRefs m'" "keys m' b = Some kb"
    then have bm: "b \<in># metaRefs m" using mr own by auto
    then have bd: "b \<noteq> ?d" using mr1 M(8) al(1) by auto
    then obtain k0 where k0: "keys m b = Some k0" using live [of b] b(2) by auto
    then show "meta kb = None" using ok(2) bm core_eqD(7) [OF core1 [OF k0 b(2)]] unfolding flat_def by metis
  qed
  have up: "upto {?d, ?d} m m'" unfolding upto_def using live core1 by (metis insertCI not_None_eq)
  have iv': "inv m' E"
  proof (rule inv_transfer [OF iv ok' fl' up _ al(2)])
    show "?d \<notin># metaRefs m" using mr1 M(8) al(1) by simp
    fix k1 ks xs assume "keys m' ?d = Some k1" "meta k1 = Some ks" "repr ks xs"
    then show "ks_ok m' ks xs \<and> cursor_in ks xs" using mk mlist_repr [of k' ks xs] by (auto simp: kk mok_def)
  qed auto
  have md: "metaData m' ?d n = metaData m s n" if n: "mname n" for n
  proof (rule metaData_agree [OF ok(1) s inv_mok [OF iv s] ok' _ mk n])
    show "keys m' ?d = Some k'" by (simp add: kk)
    fix b assume b: "b \<in> set (mlist k)"
    obtain kb where kb: "keys m b = Some kb" using heap_ok_live [OF ok(1), of b] own [OF b] by auto
    moreover obtain kb' where kb': "keys m' b = Some kb'" using heap_ok_live [OF ok', of b] mr b by auto
    ultimately show "\<exists>kb kb'. keys m b = Some kb \<and> keys m' b = Some kb' \<and> core kb' = core kb" using core1 by blast
  qed
  have "mlist k' = mlist k" using mk by (simp add: mok_def)
  moreover have "keys m' b \<noteq> None" if "keys m b \<noteq> None" for b using that M(7) by (auto simp: kk k0 split: if_splits)
  moreover have "kept m m'" unfolding kept_def using core1 by blast
  ultimately show ?thesis using dup al(2) kk iv' fl md M(3) by (auto simp: k'_def)
qed

text \<open>C34: \<open>keyDup\<close> gives a new key with the name, the value and the metadata of the original, which is not changed;
  the metadata keys are shared, each with one reference more.\<close>

theorem dup_key:
  assumes iv: "inv m E" and s: "keys m s = Some k"
    and small: "\<forall>b \<in> set (mlist k). \<forall>kb. keys m b = Some kb \<longrightarrow> ksReference kb < SSIZE_MAX"
  shows "\<exists>m' k'. keyDup m (Some s) = Some (Some (fresh m), m') \<and> keys m (fresh m) = None \<and> keys m' (fresh m) = Some k' \<and> inv m' E \<and> kept m m'
     \<and> key k' = key k \<and> uname k' = uname k \<and> keySize k' = keySize k \<and> keyUSize k' = keyUSize k
     \<and> dataSize k' = dataSize k \<and> data k' = map_option (take (dataSize k)) (data k) \<and> ksReference k' = 0 \<and> flags k' = KEY_FLAG_SYNC
     \<and> (\<forall>n. mname n \<longrightarrow> metaData m' (fresh m) n = metaData m s n)"
  using keyDup_ok [OF assms] by blast

theorem dup_key_witness:
  "\<exists>m' k'. keyDup exMM (Some 1) = Some (Some (fresh exMM), m') \<and> keys exMM (fresh exMM) = None \<and> keys m' (fresh exMM) = Some k' \<and> inv m' {#} \<and> kept exMM m'
     \<and> key k' = Some ''user/ab'' \<and> uname k' = uname exN \<and> keySize k' = keySize exN \<and> keyUSize k' = keyUSize exN
     \<and> dataSize k' = dataSize exN \<and> data k' = map_option (take (dataSize exN)) (data exN) \<and> ksReference k' = 0 \<and> flags k' = KEY_FLAG_SYNC
     \<and> (\<forall>n. mname n \<longrightarrow> metaData m' (fresh exMM) n = metaData exMM 1 n)"
  using dup_key [OF exMM_inv(1), of 1 "exN\<lparr>meta := Some exTypeKs\<rparr>"]
  by (simp add: exMM_def exMem_def less_Suc_eq exType_fields(2) ex_fields SSIZE_MAX_def)

end
