(* ===== verification/KsLookup.thy ===== *)
theory KsLookup
  imports KeyLife
begin

text \<open>
  Looking keys up in a keyset: \<open>ksLookup\<close> with its helpers, \<open>ksLookupByName\<close>, \<open>ksLookupByString\<close> and
  \<open>ksLookupByBinary\<close> of \<open>src/libs/elektra/keyset.c\<close>.

  \<open>ksLookup\<close> calls itself through its helpers: a cascading name is looked up under every namespace, and a
  specification may name other keys to look up. The helpers get that call as their argument \<open>lk\<close>, and
  the recursion is on a bound \<open>n\<close>, which also bounds the loops over metadata: specifications that
  refer to each other in a circle make the code recurse without end, which is \<open>None\<close> for every bound.
  The properties show which bound is enough where there are no specifications.

  A function that a search key carries in its metadata \<open>callback\<close> is code of the client: the argument \<open>cb\<close>
  applies the function behind a pointer, which is given by its bytes.
\<close>

type_synonym lookup_fun = "mem \<Rightarrow> KeySet \<Rightarrow> addr \<Rightarrow> flags_t \<Rightarrow> (addr option \<times> mem \<times> KeySet) option"
type_synonym callback_fun = "string \<Rightarrow> mem \<Rightarrow> KeySet \<Rightarrow> addr \<Rightarrow> addr option \<Rightarrow> flags_t \<Rightarrow> (addr option \<times> mem \<times> KeySet) option"

section \<open>Callbacks in metadata\<close>

definition isCallback :: "string \<Rightarrow> bool" where
  "isCallback metaname \<longleftrightarrow> take 9 metaname = ''callback/''"

fun removeCallbacks :: "nat \<Rightarrow> mem \<Rightarrow> addr \<Rightarrow> mem option" where
  "removeCallbacks 0 m dest = None"
| "removeCallbacks (Suc n) m dest = do {
     (p, m1) \<leftarrow> keyNextMeta m (Some dest);
     case p of None \<Rightarrow> Some m1
     | Some a \<Rightarrow> do {
         k \<leftarrow> keys m1 a;
         metaname \<leftarrow> keyName (Some k);
         m2 \<leftarrow> (if isCallback metaname then do { (_, m2) \<leftarrow> keySetMeta m1 (Some dest) (Some metaname) None; Some m2 } else Some m1);
         removeCallbacks n m2 dest } }"

fun copyCallbacks :: "nat \<Rightarrow> mem \<Rightarrow> addr \<Rightarrow> addr \<Rightarrow> mem option" where
  "copyCallbacks 0 m dest source = None"
| "copyCallbacks (Suc n) m dest source = do {
     (p, m1) \<leftarrow> keyNextMeta m (Some source);
     case p of None \<Rightarrow> Some m1
     | Some a \<Rightarrow> do {
         k \<leftarrow> keys m1 a;
         metaname \<leftarrow> keyName (Some k);
         m2 \<leftarrow> (if isCallback metaname then do { (_, m2) \<leftarrow> keyCopyMeta m1 (Some dest) (Some source) (Some metaname); Some m2 } else Some m1);
         copyCallbacks n m2 dest source } }"

definition elektraCopyCallbackMeta :: "nat \<Rightarrow> mem \<Rightarrow> addr \<Rightarrow> addr \<Rightarrow> mem option" where
  "elektraCopyCallbackMeta n m dest source = do {
     (_, m1) \<leftarrow> keyRewindMeta m (Some dest);
     m2 \<leftarrow> removeCallbacks n m1 dest;
     (_, m3) \<leftarrow> keyRewindMeta m2 (Some source);
     copyCallbacks n m3 dest source }"

section \<open>Lookup by specification\<close>

text \<open>\<open>#0\<close>, \<open>#1\<close>, \<dots>, \<open>#_10\<close>: an underscore for every digit but the first.\<close>

fun arrayUnderscores :: "nat \<Rightarrow> string" where
  "arrayUnderscores i = (if i > 0 then CHR ''_'' # arrayUnderscores (i div 10) else [])"

declare arrayUnderscores.simps [simp del]

definition elektraWriteArrayNumber :: "nat \<Rightarrow> string" where
  "elektraWriteArrayNumber newIndex = CHR ''#'' # arrayUnderscores (newIndex div 10) @ showBase 10 newIndex"

text \<open>The loop of \<open>elektraLookupBySpecLinks\<close>; \<open>k\<close> is the key made for the first link.\<close>

fun linksLoop :: "nat \<Rightarrow> lookup_fun \<Rightarrow> mem \<Rightarrow> KeySet \<Rightarrow> addr \<Rightarrow> string \<Rightarrow> addr option \<Rightarrow> nat \<Rightarrow> (addr option \<times> addr option \<times> mem \<times> KeySet) option" where
  "linksLoop 0 lk m ks specKey buffer k i = None"
| "linksLoop (Suc n) lk m ks specKey buffer k i = do {
     (mt, m1) \<leftarrow> keyGetMeta m (Some specKey) (Some (buffer @ elektraWriteArrayNumber i));
     case mt of None \<Rightarrow> Some (None, k, m1, ks)
     | Some b \<Rightarrow> do {
         kb \<leftarrow> keys m1 b;
         let target = keyString m1 (Some kb);
         (a, m2) \<leftarrow> (case k of
             None \<Rightarrow> do {
               (a, m2) \<leftarrow> keyNew m1 (Some target) [VA_OPTION KEY_CASCADING_NAME];
               ksp \<leftarrow> keys m2 specKey;
               (_, m3) \<leftarrow> keySetBinary m2 (Some a) (keyValue m2 (Some ksp)) (nat (keyGetValueSize m2 (Some ksp)));
               m4 \<leftarrow> elektraCopyCallbackMeta n m3 a specKey;
               Some (a, m4) }
           | Some a \<Rightarrow> do { (_, m2) \<leftarrow> elektraKeySetName m1 (Some a) (Some target) KEY_CASCADING_NAME; Some (a, m2) });
         (ret, m3, ks1) \<leftarrow> lk m2 ks a KDB_O_NODEFAULT;
         case ret of Some r \<Rightarrow> Some (Some r, Some a, m3, ks1)
         | None \<Rightarrow> linksLoop n lk m3 ks1 specKey buffer (Some a) (Suc i) } }"

definition elektraLookupBySpecLinks :: "nat \<Rightarrow> lookup_fun \<Rightarrow> mem \<Rightarrow> KeySet \<Rightarrow> addr \<Rightarrow> string \<Rightarrow> (addr option \<times> mem \<times> KeySet) option" where
  "elektraLookupBySpecLinks n lk m ks specKey buffer = do {
     (ret, k, m1, ks1) \<leftarrow> linksLoop n lk m ks specKey buffer None 0;
     case k of None \<Rightarrow> Some (ret, m1, ks1)
     | Some a \<Rightarrow> do {
         m2 \<leftarrow> elektraCopyCallbackMeta n m1 specKey a;
         (_, m3) \<leftarrow> keyDelMem m2 a;
         Some (ret, m3, ks1) } }"

definition elektraLookupBySpecDefault :: "lookup_fun \<Rightarrow> mem \<Rightarrow> KeySet \<Rightarrow> addr \<Rightarrow> (addr option \<times> mem \<times> KeySet) option" where
  "elektraLookupBySpecDefault lk m ks specKey = do {
     (ret, m1, ks1) \<leftarrow> lk m ks specKey KDB_O_NOCASCADING;
     if ret \<noteq> None then Some (ret, m1, ks1)
     else do {
       (mt, m2) \<leftarrow> keyGetMeta m1 (Some specKey) (Some ''default'');
       case mt of None \<Rightarrow> Some (None, m2, ks1)
       | Some b \<Rightarrow> do {
           kb \<leftarrow> keys m2 b;
           ksp \<leftarrow> keys m2 specKey;
           (a, m3) \<leftarrow> keyNew m2 (keyName (Some ksp)) [VA_OPTION KEY_CASCADING_NAME, VA_VALUE (Some (keyString m2 (Some kb) @ [NUL]))];
           (_, m4, ks2) \<leftarrow> ksAppendKey m3 ks1 (Some a);
           Some (Some a, m4, ks2) } } }"

section \<open>Cascading lookup\<close>

text \<open>The name \<open>root\<close> followed by the cascading name of \<open>a\<close>, written to the local buffer.\<close>

definition renameTo :: "mem \<Rightarrow> addr \<Rightarrow> string \<Rightarrow> nat \<Rightarrow> mem option" where
  "renameTo m a newname sz = do {
     k \<leftarrow> keys m a;
     Some (storeKey m a (snd (elektraFinalizeName (k\<lparr>key := Some newname, keySize := sz\<rparr>)))) }"

text \<open>The old name is put back: the pointer to it and its sizes; the unescaped name is still behind it.\<close>

definition restoreName :: "mem \<Rightarrow> addr \<Rightarrow> Key \<Rightarrow> mem option" where
  "restoreName m a old = do {
     k \<leftarrow> keys m a;
     Some (storeKey m a (k\<lparr>key := key old, keySize := keySize old, uname := uname old, keyUSize := keyUSize old\<rparr>)) }"

definition lookupIn :: "lookup_fun \<Rightarrow> mem \<Rightarrow> KeySet \<Rightarrow> addr \<Rightarrow> string \<Rightarrow> flags_t \<Rightarrow> (addr option \<times> mem \<times> KeySet) option" where
  "lookupIn lk m ks a newname options = do { m1 \<leftarrow> renameTo m a newname (length newname + 1); lk m1 ks a options }"

text \<open>The namespaces in the order of the code, until a key is found.\<close>

fun cascadeLoop :: "lookup_fun \<Rightarrow> mem \<Rightarrow> KeySet \<Rightarrow> addr \<Rightarrow> string \<Rightarrow> flags_t \<Rightarrow> string list \<Rightarrow> (addr option \<times> mem \<times> KeySet) option" where
  "cascadeLoop lk m ks a name options [] = Some (None, m, ks)"
| "cascadeLoop lk m ks a name options (root # roots) = do {
     (found, m1, ks1) \<leftarrow> lookupIn lk m ks a (root @ name) (options AND NOT KDB_O_DEL);
     if found \<noteq> None then Some (found, m1, ks1) else cascadeLoop lk m1 ks1 a name options roots }"

text \<open>\<open>bySpec\<close> is \<open>elektraLookupBySpec\<close>.\<close>

definition elektraLookupByCascading ::
  "nat \<Rightarrow> lookup_fun \<Rightarrow> lookup_fun \<Rightarrow> mem \<Rightarrow> KeySet \<Rightarrow> addr \<Rightarrow> flags_t \<Rightarrow> (addr option \<times> mem \<times> KeySet) option" where
  "elektraLookupByCascading n lk bySpec m ks a options = do {
     k \<leftarrow> keys m a;
     name \<leftarrow> key k;
     (specKey, m1, ks1) \<leftarrow> (if test_bit options KDB_O_NOSPEC then Some (None, m, ks)
        else lookupIn lk m ks a (''spec'' @ name) (options AND NOT KDB_O_DEL OR KDB_O_CALLBACK));
     case specKey of
       Some s \<Rightarrow> do {
         m2 \<leftarrow> restoreName m1 a k;
         sk \<leftarrow> keys m2 s;
         sn \<leftarrow> keyName (Some sk);
         if take 5 sn \<noteq> ''spec/'' then Some (Some s, m2, ks1)
         else do {
           (d, m3) \<leftarrow> keyDup m2 (Some s);
           s' \<leftarrow> d;
           ka \<leftarrow> keys m3 a;
           (_, m4) \<leftarrow> keySetBinary m3 (Some s') (keyValue m3 (Some ka)) (nat (keyGetValueSize m3 (Some ka)));
           m5 \<leftarrow> elektraCopyCallbackMeta n m4 s' a;
           (found, m6, ks2) \<leftarrow> bySpec m5 ks1 s' options;
           m7 \<leftarrow> elektraCopyCallbackMeta n m6 a s';
           (_, m8) \<leftarrow> keyDelMem m7 s';
           Some (found, m8, ks2) } }
     | None \<Rightarrow> do {
         (found, m2, ks2) \<leftarrow> cascadeLoop lk m1 ks1 a name options [''proc'', ''dir'', ''user'', ''system''];
         m3 \<leftarrow> restoreName m2 a k;
         if found = None \<and> \<not> test_bit options KDB_O_NODEFAULT
         then lk m3 ks2 a (options AND NOT KDB_O_DEL OR KDB_O_NOCASCADING)
         else Some (found, m3, ks2) } }"

text \<open>
  The loop of \<open>elektraLookupBySpecNamespaces\<close>: the value of the metadata is put before the name. The
  buffer has room for a namespace of six letters; a longer value is written before its start.
\<close>

definition namespaceName :: "mem \<Rightarrow> Key \<Rightarrow> string \<Rightarrow> string option" where
  "namespaceName m km name =
     (let namespaceSize = keyGetValueSize m (Some km); ns = keyString m (Some km)
      in if namespaceSize = int (length ns) + 1 \<and> namespaceSize \<le> 7 then Some (ns @ name) else None)"

fun namespacesLoop :: "nat \<Rightarrow> lookup_fun \<Rightarrow> mem \<Rightarrow> KeySet \<Rightarrow> addr \<Rightarrow> string \<Rightarrow> addr \<Rightarrow> nat \<Rightarrow> (addr option \<times> mem \<times> KeySet) option" where
  "namespacesLoop 0 lk m ks specKey name mt i = None"
| "namespacesLoop (Suc n) lk m ks specKey name mt i = do {
     km \<leftarrow> keys m mt;
     newname \<leftarrow> namespaceName m km name;
     (ret, m1, ks1) \<leftarrow> lookupIn lk m ks specKey newname 0;
     if ret \<noteq> None then Some (ret, m1, ks1)
     else do {
       (mt', m2) \<leftarrow> keyGetMeta m1 (Some specKey) (Some (''namespace/'' @ elektraWriteArrayNumber (Suc i)));
       case mt' of None \<Rightarrow> Some (None, m2, ks1)
       | Some b \<Rightarrow> namespacesLoop n lk m2 ks1 specKey name b (Suc i) } }"

definition elektraLookupBySpecNamespaces ::
  "nat \<Rightarrow> lookup_fun \<Rightarrow> lookup_fun \<Rightarrow> mem \<Rightarrow> KeySet \<Rightarrow> addr \<Rightarrow> (addr option \<times> mem \<times> KeySet) option" where
  "elektraLookupBySpecNamespaces n lk byCascading m ks specKey = do {
     (mt, m1) \<leftarrow> keyGetMeta m (Some specKey) (Some ''namespace/#0'');
     case mt of None \<Rightarrow> byCascading m1 ks specKey (KDB_O_NOSPEC OR KDB_O_NODEFAULT)
     | Some b \<Rightarrow> do {
         k \<leftarrow> keys m1 specKey;
         name \<leftarrow> key k;
         (ret, m2, ks1) \<leftarrow> namespacesLoop n lk m1 ks specKey name b 0;
         m3 \<leftarrow> restoreName m2 specKey k;
         Some (ret, m3, ks1) } }"

definition elektraLookupBySpec ::
  "nat \<Rightarrow> lookup_fun \<Rightarrow> lookup_fun \<Rightarrow> mem \<Rightarrow> KeySet \<Rightarrow> addr \<Rightarrow> flags_t \<Rightarrow> (addr option \<times> mem \<times> KeySet) option" where
  "elektraLookupBySpec n lk byCascading m ks specKey options = do {
     k \<leftarrow> keys m specKey;
     name \<leftarrow> key k;
     if SLASH \<notin> set name then None
     else do {
       m1 \<leftarrow> renameTo m specKey (dropWhile (\<lambda>c. c \<noteq> SLASH) name) (keySize k - length (takeWhile (\<lambda>c. c \<noteq> SLASH) name));
       (r1, m2, ks2) \<leftarrow> elektraLookupBySpecLinks n lk m1 ks specKey ''override/'';
       (r2, m3, ks3) \<leftarrow> (if r1 \<noteq> None then Some (r1, m2, ks2) else elektraLookupBySpecNamespaces n lk byCascading m2 ks2 specKey);
       (r3, m4, ks4) \<leftarrow> (if r2 \<noteq> None then Some (r2, m3, ks3) else elektraLookupBySpecLinks n lk m3 ks3 specKey ''fallback/'');
       (r4, m5, ks5) \<leftarrow> (if r3 = None \<and> \<not> test_bit options KDB_O_NODEFAULT then elektraLookupBySpecDefault lk m4 ks4 specKey
                        else Some (r3, m4, ks4));
       k5 \<leftarrow> keys m5 specKey;
       Some (r4, storeKey m5 specKey (snd (elektraFinalizeName (k5\<lparr>key := Some name, keySize := keySize k\<rparr>))), ks5) } }"

section \<open>Searching\<close>

text \<open>All loops that search a keyset: \<open>ksNext\<close> until a key fits. With every turn the cursor moves on, so the number of keys bounds the turns.\<close>

fun scanLoop :: "nat \<Rightarrow> mem \<Rightarrow> KeySet \<Rightarrow> (Key \<Rightarrow> bool) \<Rightarrow> (addr option \<times> KeySet) option" where
  "scanLoop 0 m ks P = None"
| "scanLoop (Suc n) m ks P = do {
     (p, ks1) \<leftarrow> ksNext ks;
     case p of None \<Rightarrow> Some (None, ks1)
     | Some b \<Rightarrow> do { kb \<leftarrow> keys m b; if P kb then Some (Some b, ks1) else scanLoop n m ks1 P } }"

definition lookupCmp :: "mem \<Rightarrow> flags_t \<Rightarrow> Key \<Rightarrow> Key \<Rightarrow> int" where
  "lookupCmp m options =
     (if test_bit options KDB_O_WITHOWNER \<and> test_bit options KDB_O_NOCASE then keyCompareByNameOwnerCase m
      else if test_bit options KDB_O_WITHOWNER then keyCompareByNameOwner m
      else if test_bit options KDB_O_NOCASE then keyCompareByNameCase
      else keyCompareByName)"

definition elektraLookupLinearSearch :: "mem \<Rightarrow> KeySet \<Rightarrow> Key \<Rightarrow> flags_t \<Rightarrow> (addr option \<times> KeySet) option" where
  "elektraLookupLinearSearch m ks k options = do {
     let ks0 = (if test_bit options KDB_O_NOALL then ks else ksRewind ks);
     (cur, ks1) \<leftarrow> scanLoop (Suc (ks_size ks0)) m ks0 (\<lambda>cur. lookupCmp m options k cur = 0);
     case cur of Some b \<Rightarrow> Some (Some b, ks1)
     | None \<Rightarrow> do { ks2 \<leftarrow> ksSetCursor ks1 (ksGetCursor (Some ks)); Some (None, ks2) } }"

text \<open>A pointer has 8 bytes.\<close>

definition elektraLookupSearch :: "callback_fun \<Rightarrow> lookup_fun" where
  "elektraLookupSearch cb m ks a options = do {
     k \<leftarrow> keys m a;
     (found, m1, ks1) \<leftarrow> elektraLookupBinarySearch m ks k options;
     (mt, m2) \<leftarrow> keyGetMeta m1 (Some a) (Some ''callback'');
     k2 \<leftarrow> keys m2 a;
     case (if mt = None then (-1, None) else keyGetBinary m2 (Some k2) True 8) of
       (r, Some f) \<Rightarrow> if r = 8 \<and> f \<noteq> replicate 8 NUL then cb f m2 ks1 a found options else Some (found, m2, ks1)
     | (_, None) \<Rightarrow> Some (found, m2, ks1) }"

definition elektraLookupCreateKey :: "mem \<Rightarrow> KeySet \<Rightarrow> addr \<Rightarrow> (addr option \<times> mem \<times> KeySet) option" where
  "elektraLookupCreateKey m ks a = do {
     (d, m1) \<leftarrow> keyDup m (Some a);
     (_, m2, ks1) \<leftarrow> ksAppendKey m1 ks d;
     Some (d, m2, ks1) }"

section \<open>ksLookup\<close>

text \<open>A key whose name is locked is duplicated for a search that renames it.\<close>

definition withLookupKey :: "nat \<Rightarrow> lookup_fun \<Rightarrow> lookup_fun" where
  "withLookupKey n f m ks a options = do {
     k \<leftarrow> keys m a;
     (lookupKey, m1) \<leftarrow> (if test_bit (flags k) KEY_FLAG_RO_NAME then do { (d, m1) \<leftarrow> keyDup m (Some a); l \<leftarrow> d; Some (l, m1) } else Some (a, m));
     (ret, m2, ks1) \<leftarrow> f m1 ks lookupKey options;
     k2 \<leftarrow> keys m2 a;
     if test_bit (flags k2) KEY_FLAG_RO_NAME then do {
       m3 \<leftarrow> elektraCopyCallbackMeta n m2 a lookupKey;
       (_, m4) \<leftarrow> keyDelMem m3 lookupKey;
       Some (ret, m4, ks1) }
     else Some (ret, m2, ks1) }"

definition lookupStep :: "callback_fun \<Rightarrow> nat \<Rightarrow> lookup_fun \<Rightarrow> lookup_fun \<Rightarrow> lookup_fun \<Rightarrow> lookup_fun" where
  "lookupStep cb n bySpec byCascading lk m ks a options = do {
     k \<leftarrow> keys m a;
     case key k of None \<Rightarrow> Some (None, m, ks)
     | Some name \<Rightarrow> do {
         let opts = options AND NOT KDB_O_DEL AND NOT KDB_O_CREATE;
         (ret, m1, ks1) \<leftarrow>
           (if test_bit options KDB_O_SPEC then withLookupKey n bySpec m ks a opts
            else if \<not> test_bit options KDB_O_NOCASCADING \<and> name \<noteq> [] \<and> hd name = SLASH
            then withLookupKey n byCascading m ks a opts
            else if test_bit options KDB_O_NOALL
            then do { (ret, ks1) \<leftarrow> elektraLookupLinearSearch m ks k opts; Some (ret, m, ks1) }
            else elektraLookupSearch cb m ks a opts);
         (ret2, m2, ks2) \<leftarrow> (if ret = None \<and> test_bit options KDB_O_CREATE then elektraLookupCreateKey m1 ks1 a else Some (ret, m1, ks1));
         m3 \<leftarrow> (if test_bit options KDB_O_DEL then do { (_, m3) \<leftarrow> keyDelMem m2 a; Some m3 } else Some m2);
         Some (ret2, m3, ks2) } }"

fun lookupF :: "callback_fun \<Rightarrow> nat \<Rightarrow> lookup_fun" and bySpecF :: "callback_fun \<Rightarrow> nat \<Rightarrow> lookup_fun"
  and byCascadingF :: "callback_fun \<Rightarrow> nat \<Rightarrow> lookup_fun" where
  "lookupF cb 0 m ks a options = None"
| "lookupF cb (Suc n) m ks a options = lookupStep cb n (bySpecF cb n) (byCascadingF cb n) (lookupF cb n) m ks a options"
| "bySpecF cb 0 m ks a options = None"
| "bySpecF cb (Suc n) m ks a options = elektraLookupBySpec n (lookupF cb n) (byCascadingF cb n) m ks a options"
| "byCascadingF cb 0 m ks a options = None"
| "byCascadingF cb (Suc n) m ks a options = elektraLookupByCascading n (lookupF cb n) (bySpecF cb n) m ks a options"

declare lookupF.simps [simp del] bySpecF.simps [simp del] byCascadingF.simps [simp del]

definition ksLookup :: "callback_fun \<Rightarrow> nat \<Rightarrow> mem \<Rightarrow> KeySet option \<Rightarrow> addr option \<Rightarrow> flags_t \<Rightarrow> (addr option \<times> mem \<times> KeySet option) option" where
  "ksLookup cb n m k a options = (case (k, a) of
     (None, _) \<Rightarrow> Some (None, m, None)
   | (_, None) \<Rightarrow> Some (None, m, k)
   | (Some ks, Some a) \<Rightarrow> do { (ret, m1, ks1) \<leftarrow> lookupF cb n m ks a options; Some (ret, m1, Some ks1) })"

text \<open>The local key of \<open>ksLookupByName\<close> is at a fresh address that is gone at the end.\<close>

definition ksLookupByName :: "callback_fun \<Rightarrow> nat \<Rightarrow> mem \<Rightarrow> KeySet option \<Rightarrow> string option \<Rightarrow> flags_t \<Rightarrow> (addr option \<times> mem \<times> KeySet option) option" where
  "ksLookupByName cb n m k nm options = (case (k, nm) of
     (None, _) \<Rightarrow> Some (None, m, None)
   | (_, None) \<Rightarrow> Some (None, m, k)
   | (Some ks, Some name) \<Rightarrow>
       if ks_size ks = 0 then Some (None, m, k)
       else do {
         let (a, m0) = elektraKeyMalloc m;
         (_, m1) \<leftarrow> elektraKeySetName (storeKey m0 a keyInit) (Some a) (Some name) (KEY_META_NAME OR KEY_CASCADING_NAME);
         (found, m2, k2) \<leftarrow> ksLookup cb n m1 k (Some a) options;
         ka \<leftarrow> keys m2 a;
         (_, m3) \<leftarrow> ksDel m2 (meta ka);
         Some (found, freeKey m3 a, k2) })"

definition stringMatches :: "mem \<Rightarrow> string \<Rightarrow> flags_t \<Rightarrow> Key \<Rightarrow> bool" where
  "stringMatches m s options cur \<longleftrightarrow> keyIsString m (Some cur) \<noteq> 0 \<and>
     (case keyValue m (Some cur) of None \<Rightarrow> False
      | Some v \<Rightarrow> test_bit options KDB_O_NOCASE \<and> elektraStrCaseCmp (upto_nul v) s = 0 \<or> strcmp (upto_nul v) s = 0)"

definition ksLookupByString :: "mem \<Rightarrow> KeySet option \<Rightarrow> string option \<Rightarrow> flags_t \<Rightarrow> (addr option \<times> KeySet option) option" where
  "ksLookupByString m k s options = (case k of None \<Rightarrow> Some (None, None)
     | Some ks \<Rightarrow> do {
         let ks0 = (if test_bit options KDB_O_NOALL then ks else ksRewind ks);
         case s of None \<Rightarrow> Some (None, Some ks0)
         | Some v \<Rightarrow> do {
             (cur, ks1) \<leftarrow> scanLoop (Suc (ks_size ks0)) m ks0 (stringMatches m v options);
             ks2 \<leftarrow> (if test_bit options KDB_O_NOALL then Some ks1 else ksSetCursor ks1 (ksGetCursor (Some ks0)));
             Some (cur, Some ks2) } })"

definition binaryMatches :: "mem \<Rightarrow> string option \<Rightarrow> nat \<Rightarrow> Key \<Rightarrow> bool" where
  "binaryMatches m v sz cur \<longleftrightarrow> keyIsBinary m (Some cur) \<noteq> 0 \<and> dataSize cur = sz \<and>
     (case (v, data cur) of (None, None) \<Rightarrow> True | (None, Some _) \<Rightarrow> False | (Some _, None) \<Rightarrow> False
      | (Some b, Some d) \<Rightarrow> memcmp d b sz = 0)"

definition ksLookupByBinary :: "mem \<Rightarrow> KeySet option \<Rightarrow> string option \<Rightarrow> nat \<Rightarrow> flags_t \<Rightarrow> (addr option \<times> KeySet option) option" where
  "ksLookupByBinary m k v sz options = (case k of None \<Rightarrow> Some (None, None)
     | Some ks \<Rightarrow> do {
         let ks0 = (if test_bit options KDB_O_NOALL then ks else ksRewind ks);
         (_, ks1) \<leftarrow> scanLoop (Suc (ks_size ks0)) m ks0 (binaryMatches m v sz);
         ks2 \<leftarrow> (if test_bit options KDB_O_NOALL then Some ks1 else ksSetCursor ks1 (ksGetCursor (Some ks0)));
         Some (None, Some ks2) })"


section \<open>What a lookup finds\<close>

text \<open>A keyset that binary search by name works on: the order by owner is not needed.\<close>

definition searchable :: "mem \<Rightarrow> KeySet \<Rightarrow> addr list \<Rightarrow> bool" where
  "searchable m ks xs \<longleftrightarrow> repr ks xs \<and> (\<forall>b \<in> set xs. \<exists>k. keys m b = Some k \<and> sized k)
     \<and> sorted_wrt (\<lambda>a b. unameA m a \<le> unameA m b) xs"

text \<open>The key of the first name in a list of unescaped names that is in the keyset.\<close>

fun first_hit :: "mem \<Rightarrow> addr list \<Rightarrow> string list \<Rightarrow> addr option \<Rightarrow> bool" where
  "first_hit m xs [] r \<longleftrightarrow> r = None"
| "first_hit m xs (u # us) r \<longleftrightarrow>
     (if \<exists>b \<in> set xs. unameA m b = u then \<exists>b \<in> set xs. r = Some b \<and> unameA m b = u else first_hit m xs us r)"

lemma first_hit_cong:
  "(\<And>b. b \<in> set xs \<Longrightarrow> unameA m' b = unameA m b) \<Longrightarrow> first_hit m' xs us r \<longleftrightarrow> first_hit m xs us r"
  by (induction us) auto

lemma first_hit_append: "first_hit m xs us None \<Longrightarrow> first_hit m xs (us @ vs) r \<longleftrightarrow> first_hit m xs vs r"
  by (induction us) (auto split: if_splits)

lemma first_hit_append_Some: "first_hit m xs us (Some b) \<Longrightarrow> first_hit m xs (us @ vs) (Some b)"
  by (induction us) (auto split: if_splits)

lemma first_hit_single: "first_hit m xs [u] r \<longleftrightarrow> (if \<exists>b \<in> set xs. unameA m b = u then \<exists>b \<in> set xs. r = Some b \<and> unameA m b = u else r = None)"
  by simp

declare first_hit.simps [simp del]

lemma searchable_ks_ok:
  assumes "ks_ok m ks xs" "heap_ok m E"
  shows "searchable m ks xs"
proof -
  have "unameA m b = fst (okeyA m b)" for b by (simp add: okeyA_def okey_def unameA_def)
  then have "sorted_wrt (\<lambda>a b. unameA m a \<le> unameA m b) xs"
    using ks_okD(3) [OF assms(1)] by (elim sorted_wrt_mono_rel [rotated]) (auto simp: less_prod_def)
  then show ?thesis using assms ks_okD(1) [OF assms(1)] ks_okD(2) [OF assms(1)] heap_okD(2) [OF assms(2)]
    by (fastforce simp: searchable_def wf_key_def)
qed

lemma searchable_cong: "(\<And>b. b \<in> set xs \<Longrightarrow> keys m' b = keys m b) \<Longrightarrow> searchable m' ks xs \<longleftrightarrow> searchable m ks xs"
proof -
  assume e: "\<And>b. b \<in> set xs \<Longrightarrow> keys m' b = keys m b"
  then have "map (unameA m') xs = map (unameA m) xs" by (simp add: unameA_def)
  then have "sorted_wrt (\<le>) (map (unameA m') xs) = sorted_wrt (\<le>) (map (unameA m) xs)" by (simp only:)
  then have "sorted_wrt (\<lambda>b c. unameA m' b \<le> unameA m' c) xs \<longleftrightarrow> sorted_wrt (\<lambda>b c. unameA m b \<le> unameA m c) xs"
    by (simp only: sorted_wrt_map)
  then show ?thesis using e by (simp add: searchable_def)
qed

lemma searchable_store: "a \<notin> set xs \<Longrightarrow> searchable (storeKey m a k) ks xs \<longleftrightarrow> searchable m ks xs"
  by (rule searchable_cong) auto

lemma first_hit_store: "a \<notin> set xs \<Longrightarrow> first_hit (storeKey m a k) xs us r \<longleftrightarrow> first_hit m xs us r"
  by (rule first_hit_cong) (auto simp: unameA_def)

lemma searchable_set: "searchable m ks xs \<Longrightarrow> repr ks' xs \<Longrightarrow> searchable m ks' xs"
  by (simp add: searchable_def)

lemma ksSetCursor_get:
  assumes "repr ks xs" "cursor_in ks xs"
  obtains ks' where "ksSetCursor ks (ksGetCursor (Some ks)) = Some ks'" "repr ks' xs" "cursor_in ks' xs"
proof (cases "cursor ks")
  case None
  then show thesis using that [of "ksRewind ks"] assms
    by (simp add: ksSetCursor_def ksGetCursor_def) (simp add: cursor_in_def ksRewind_def)
next
  case (Some c)
  then have lt: "current ks < length xs" using assms(2) by (simp add: cursor_in_def)
  then show thesis
    using that [of "ks\<lparr>current := current ks, cursor := Some (xs ! current ks)\<rparr>"] Some assms(1)
      rdArr_repr [OF assms(1) lt] by (simp add: ksSetCursor_def ksGetCursor_def cursor_in_def)
qed

lemma elektraLookupBinarySearch_plain:
  assumes s: "searchable m ks xs" and k: "sized k" and cur: "cursor_in ks xs"
    and o: "\<not> test_bit options KDB_O_WITHOWNER" "\<not> test_bit options KDB_O_NOCASE" "\<not> test_bit options KDB_O_POP"
  obtains r ks' where "elektraLookupBinarySearch m ks k options = Some (r, m, ks')" "first_hit m xs [uname k] r"
    "repr ks' xs" "cursor_in ks' xs" "\<And>b. r = Some b \<Longrightarrow> cursor ks' = Some b"
proof -
  note rs = s [unfolded searchable_def, THEN conjunct1]
  let ?kk = "map (\<lambda>b. the (keys m b)) xs"
  have w: "\<forall>x \<in> set ?kk. sized x" and l: "load m xs = Some ?kk"
    using s by (force simp: searchable_def, intro load_live, force simp: searchable_def)
  have le: "sorted_wrt (\<lambda>x y. uname x \<le> uname y) ?kk"
    using s unfolding searchable_def sorted_wrt_map unameA_def by simp
  have eq: "elektraLookupBinarySearch m ks k options = (case bsearch (keyCompareByName k) ?kk of
      Some i \<Rightarrow> do { ks' \<leftarrow> ksSetCursor ks (int i); Some (Some (xs ! i), m, ks') }
    | None \<Rightarrow> do { ks' \<leftarrow> ksSetCursor ks (ksGetCursor (Some ks)); Some (None, m, ks') })"
    using ptrs_repr [OF rs] l o by (simp add: elektraLookupBinarySearch_def Let_def split: option.split)
  show thesis
  proof (cases "bsearch (keyCompareByName k) ?kk")
    case None
    have "unameA m b \<noteq> uname k" if "b \<in> set xs" for b
      using byName.bsearch_None [OF None k w le, of "the (keys m b)"] that by (auto simp: unameA_def)
    then have "first_hit m xs [uname k] None" by (auto simp: first_hit_single)
    moreover obtain ks' where "ksSetCursor ks (ksGetCursor (Some ks)) = Some ks'" "repr ks' xs" "cursor_in ks' xs"
      by (rule ksSetCursor_get [OF rs cur])
    ultimately show thesis using that [of None ks'] eq None by simp
  next
    case (Some i)
    have i: "i < length xs" "unameA m (xs ! i) = uname k" using byName.bsearch_Some [OF Some k w] by (auto simp: unameA_def)
    then have "first_hit m xs [uname k] (Some (xs ! i))" by (auto simp: first_hit_single)
    moreover have "ksSetCursor ks (int i) = Some (ks\<lparr>current := i, cursor := Some (xs ! i)\<rparr>)"
      using rdArr_repr [OF rs i(1)] by (simp add: ksSetCursor_def)
    ultimately show thesis using that [of "Some (xs ! i)" "ks\<lparr>current := i, cursor := Some (xs ! i)\<rparr>"] eq Some rs i(1)
      by (simp add: cursor_in_def)
  qed
qed


section \<open>Plain lookup\<close>

definition plain_key :: "mem \<Rightarrow> addr \<Rightarrow> Key \<Rightarrow> bool" where
  "plain_key m a k \<longleftrightarrow> keys m a = Some k \<and> sized k \<and> meta k = None"

lemma elektraLookupSearch_plain:
  assumes s: "searchable m ks xs" and k: "plain_key m a k" and cur: "cursor_in ks xs"
    and o: "\<not> test_bit options KDB_O_WITHOWNER" "\<not> test_bit options KDB_O_NOCASE" "\<not> test_bit options KDB_O_POP"
  obtains r ks' where "elektraLookupSearch cb m ks a options = Some (r, m, ks')" "first_hit m xs [uname k] r"
    "repr ks' xs" "cursor_in ks' xs" "\<And>b. r = Some b \<Longrightarrow> cursor ks' = Some b"
proof -
  obtain r ks' where r: "elektraLookupBinarySearch m ks k options = Some (r, m, ks')" "first_hit m xs [uname k] r"
    "repr ks' xs" "cursor_in ks' xs" "\<And>b. r = Some b \<Longrightarrow> cursor ks' = Some b"
    using elektraLookupBinarySearch_plain [OF s _ cur o, of k] k by (metis plain_key_def)
  moreover have "elektraLookupSearch cb m ks a options = Some (r, m, ks')"
    using k r(1) by (simp add: elektraLookupSearch_def plain_key_def keyGetMeta_def)
  ultimately show thesis using that by blast
qed

text \<open>One step of the recursion is enough for a name that is not looked up in the namespaces.\<close>

lemma lookupF_plain:
  assumes s: "searchable m ks xs" and k: "plain_key m a k" "key k = Some name" and cur: "cursor_in ks xs"
    and o: "options \<in> {0, KDB_O_CALLBACK, KDB_O_NOCASCADING}" and c: "options = KDB_O_NOCASCADING \<or> hd name \<noteq> SLASH"
  obtains r ks' where "lookupF cb (Suc n) m ks a options = Some (r, m, ks')" "first_hit m xs [uname k] r"
    "repr ks' xs" "cursor_in ks' xs" "\<And>b. r = Some b \<Longrightarrow> cursor ks' = Some b"
proof -
  let ?o = "options AND NOT KDB_O_DEL AND NOT KDB_O_CREATE"
  have b: "\<not> test_bit ?o KDB_O_WITHOWNER" "\<not> test_bit ?o KDB_O_NOCASE" "\<not> test_bit ?o KDB_O_POP"
    "\<not> test_bit options KDB_O_SPEC" "\<not> test_bit options KDB_O_NOALL" "\<not> test_bit options KDB_O_CREATE" "\<not> test_bit options KDB_O_DEL"
    "options = KDB_O_NOCASCADING \<Longrightarrow> test_bit options KDB_O_NOCASCADING"
    using o by (auto simp: test_bit_def)
  obtain r ks' where r: "elektraLookupSearch cb m ks a ?o = Some (r, m, ks')" "first_hit m xs [uname k] r"
    "repr ks' xs" "cursor_in ks' xs" "\<And>b. r = Some b \<Longrightarrow> cursor ks' = Some b"
    using elektraLookupSearch_plain [OF s k(1) cur b(1-3)] by metis
  have "test_bit options KDB_O_NOCASCADING \<or> hd name \<noteq> SLASH" using b(8) c by blast
  then have "lookupF cb (Suc n) m ks a options = Some (r, m, ks')"
    using r(1) b k by (auto simp: lookupF.simps lookupStep_def plain_key_def Let_def)
  then show thesis using that r by blast
qed

section \<open>Cascading lookup\<close>

lemma unescape_in_root:
  assumes "r \<in> {''spec'', ''proc'', ''dir'', ''user'', ''system''}" "good_levels None ls"
  shows "elektraUnescapeKeyName (r @ mkname None ls) = mkuname (Some r) ls" "hd (r @ mkname None ls) \<noteq> SLASH"
proof -
  show "hd (r @ mkname None ls) \<noteq> SLASH" using assms(1) by auto
  show "elektraUnescapeKeyName (r @ mkname None ls) = mkuname (Some r) ls"
  proof (cases "ls = []")
    case True
    have "elektraUnescapeKeyName (''spec/'') = mkuname (Some ''spec'') []" "elektraUnescapeKeyName (''proc/'') = mkuname (Some ''proc'') []"
      "elektraUnescapeKeyName (''dir/'') = mkuname (Some ''dir'') []" "elektraUnescapeKeyName (''user/'') = mkuname (Some ''user'') []"
      "elektraUnescapeKeyName (''system/'') = mkuname (Some ''system'') []"
      by code_simp+
    then show ?thesis using assms(1) True by (auto simp: mkname_def)
  next
    case False
    then have "r @ mkname None ls = mkname (Some r) ls" by (simp add: mkname_def)
    moreover have "good_levels (Some r) []" using good_plain_roots [of "Some r"] assms(1) by (auto simp: plain_roots_def)
    ultimately show ?thesis using unescape_mkname [of "Some r" ls] assms(2) by (simp add: good_levels_def)
  qed
qed

text \<open>A lookup under the name in one namespace: of the search key only the name and the synchronisation flag change.\<close>

definition renamed :: "Key \<Rightarrow> Key \<Rightarrow> bool" where
  "renamed k k' \<longleftrightarrow> k'\<lparr>key := key k, keySize := keySize k, uname := uname k, keyUSize := keyUSize k\<rparr> = k\<lparr>flags := flags k OR KEY_FLAG_SYNC\<rparr>"

lemma renamed_meta: "renamed k k' \<Longrightarrow> meta k' = meta k"
  by (cases k; cases k') (simp add: renamed_def)

lemma renamed_trans: "renamed k k' \<Longrightarrow> renamed k' k'' \<Longrightarrow> renamed k k''"
  by (cases k; cases k'; cases k'') (auto simp: renamed_def or.assoc)

lemma lookupIn_plain:
  assumes s: "searchable m ks xs" and k: "keys m a = Some k" "meta k = None" and a: "a \<notin> set xs" and cur: "cursor_in ks xs"
    and r: "root \<in> {''spec'', ''proc'', ''dir'', ''user'', ''system''}" "good_levels None ls" and o: "options \<in> {0, KDB_O_CALLBACK}"
  obtains found ks' k' where "lookupIn (lookupF cb (Suc n)) m ks a (root @ mkname None ls) options = Some (found, storeKey m a k', ks')"
    "first_hit m xs [mkuname (Some root) ls] found" "repr ks' xs" "cursor_in ks' xs" "\<And>b. found = Some b \<Longrightarrow> cursor ks' = Some b"
    "renamed k k'"
proof -
  let ?n = "root @ mkname None ls"
  define k' where "k' = snd (elektraFinalizeName (k\<lparr>key := Some ?n, keySize := length ?n + 1\<rparr>))"
  note u = unescape_in_root [OF r]
  have rn: "renamed k k'" by (cases k) (simp add: renamed_def k'_def elektraFinalizeName_def Let_def)
  have k': "uname k' = mkuname (Some root) ls" "key k' = Some ?n" "sized k'" "meta k' = None"
    using k(2) u(1) by (simp_all add: k'_def elektraFinalizeName_def Let_def sized_def)
  let ?m = "storeKey m a k'"
  have s1: "searchable ?m ks xs" "plain_key ?m a k'" using searchable_store [OF a] s k' by (simp_all add: plain_key_def)
  obtain found ks' where L: "lookupF cb (Suc n) ?m ks a options = Some (found, ?m, ks')" "first_hit ?m xs [uname k'] found"
    "repr ks' xs" "cursor_in ks' xs" "\<And>b. found = Some b \<Longrightarrow> cursor ks' = Some b"
    using lookupF_plain [OF s1 k'(2) cur, of options cb n] o u(2) by auto
  have "lookupIn (lookupF cb (Suc n)) m ks a ?n options = Some (found, ?m, ks')"
    using k(1) L(1) by (simp add: lookupIn_def renameTo_def k'_def)
  moreover have "first_hit m xs [mkuname (Some root) ls] found" using L(2) unfolding first_hit_store [OF a] k'(1) .
  ultimately show thesis using that L(3-5) rn by blast
qed


lemma cascadeLoop_plain:
  "searchable m ks xs \<Longrightarrow> keys m a = Some k \<Longrightarrow> meta k = None \<Longrightarrow> a \<notin> set xs \<Longrightarrow> cursor_in ks xs \<Longrightarrow>
   set (root # roots) \<subseteq> {''spec'', ''proc'', ''dir'', ''user'', ''system''} \<Longrightarrow> good_levels None ls \<Longrightarrow>
   \<exists>found ks' k'. cascadeLoop (lookupF cb (Suc n)) m ks a (mkname None ls) 0 (root # roots) = Some (found, storeKey m a k', ks')
     \<and> first_hit m xs (map (\<lambda>r. mkuname (Some r) ls) (root # roots)) found \<and> repr ks' xs \<and> cursor_in ks' xs
     \<and> (\<forall>b. found = Some b \<longrightarrow> cursor ks' = Some b) \<and> renamed k k'"
proof (induction roots arbitrary: root m ks k)
  case Nil
  have R: "root \<in> {''spec'', ''proc'', ''dir'', ''user'', ''system''}" using Nil.prems(6) by simp
  have zero: "(0 :: flags_t) \<in> {0, KDB_O_CALLBACK}" by simp
  obtain found ks' k' where "lookupIn (lookupF cb (Suc n)) m ks a (root @ mkname None ls) 0 = Some (found, storeKey m a k', ks')"
    "first_hit m xs [mkuname (Some root) ls] found" "repr ks' xs" "cursor_in ks' xs" "\<And>b. found = Some b \<Longrightarrow> cursor ks' = Some b" "renamed k k'"
    using lookupIn_plain [OF Nil.prems(1-5) R Nil.prems(7) zero, of cb n] by metis
  moreover from this(1) have "cascadeLoop (lookupF cb (Suc n)) m ks a (mkname None ls) 0 [root] = Some (found, storeKey m a k', ks')"
    by (cases found) simp_all
  moreover have "map (\<lambda>r. mkuname (Some r) ls) [root] = [mkuname (Some root) ls]" by simp
  ultimately show ?case by metis
next
  case (Cons root' roots)
  have R: "root \<in> {''spec'', ''proc'', ''dir'', ''user'', ''system''}" and R': "set (root' # roots) \<subseteq> {''spec'', ''proc'', ''dir'', ''user'', ''system''}"
    using Cons.prems(6) by simp_all
  have zero: "(0 :: flags_t) \<in> {0, KDB_O_CALLBACK}" by simp
  obtain found ks' k' where L: "lookupIn (lookupF cb (Suc n)) m ks a (root @ mkname None ls) 0 = Some (found, storeKey m a k', ks')"
    "first_hit m xs [mkuname (Some root) ls] found" "repr ks' xs" "cursor_in ks' xs" "\<And>b. found = Some b \<Longrightarrow> cursor ks' = Some b" "renamed k k'"
    using lookupIn_plain [OF Cons.prems(1-5) R Cons.prems(7) zero, of cb n] by metis
  let ?us = "\<lambda>rs. map (\<lambda>r. mkuname (Some r) ls) rs"
  show ?case
  proof (cases found)
    case (Some b)
    have "first_hit m xs (?us (root # root' # roots)) found"
      using first_hit_append_Some [of m xs "[mkuname (Some root) ls]" b "?us (root' # roots)"] L(2) Some by simp
    moreover have "cascadeLoop (lookupF cb (Suc n)) m ks a (mkname None ls) 0 (root # root' # roots) = Some (found, storeKey m a k', ks')"
      using L(1) Some by simp
    ultimately show ?thesis using L(3-6) by blast
  next
    case None
    let ?m = "storeKey m a k'"
    have s: "searchable ?m ks' xs" using searchable_store [OF Cons.prems(4)] searchable_set [OF Cons.prems(1) L(3)] by blast
    have mt: "meta k' = None" using renamed_meta [OF L(6)] Cons.prems(3) by simp
    obtain found2 ks2 k2 where I: "cascadeLoop (lookupF cb (Suc n)) ?m ks' a (mkname None ls) 0 (root' # roots) = Some (found2, storeKey ?m a k2, ks2)"
      "first_hit ?m xs (?us (root' # roots)) found2" "repr ks2 xs" "cursor_in ks2 xs" "\<forall>b. found2 = Some b \<longrightarrow> cursor ks2 = Some b" "renamed k' k2"
      using Cons.IH [OF s _ mt Cons.prems(4) L(4) R' Cons.prems(7)] by auto
    have "first_hit m xs (?us (root # root' # roots)) found2"
      using first_hit_append [of m xs "[mkuname (Some root) ls]" "?us (root' # roots)" found2] L(2) None I(2)
      unfolding first_hit_store [OF Cons.prems(4)] by simp
    moreover have "cascadeLoop (lookupF cb (Suc n)) m ks a (mkname None ls) 0 (root # root' # roots) = Some (found2, storeKey m a k2, ks2)"
      using L(1) None I(1) by (simp add: storeKey_def)
    ultimately show ?thesis using I(3-5) renamed_trans [OF L(6) I(6)] by blast
  qed
qed

definition cascade :: "string list \<Rightarrow> string list" where
  "cascade ls = map (\<lambda>r. mkuname r ls) [Some ''proc'', Some ''dir'', Some ''user'', Some ''system'', None]"

lemma byCascading_plain:
  assumes s: "searchable m ks xs" and k: "keys m a = Some k" "meta k = None" "named k None ls" and a: "a \<notin> set xs" and cur: "cursor_in ks xs"
    and spec: "\<forall>b \<in> set xs. unameA m b \<noteq> mkuname (Some ''spec'') ls"
  obtains found ks' where "byCascadingF cb (Suc (Suc n)) m ks a 0 = Some (found, storeKey m a (k\<lparr>flags := flags k OR KEY_FLAG_SYNC\<rparr>), ks')"
    "first_hit m xs (cascade ls) found" "repr ks' xs" "cursor_in ks' xs" "\<And>b. found = Some b \<Longrightarrow> cursor ks' = Some b"
proof -
  let ?lk = "lookupF cb (Suc n)"
  let ?k = "k\<lparr>flags := flags k OR KEY_FLAG_SYNC\<rparr>"
  have g: "good_levels None ls" and nm: "key k = Some (mkname None ls)" and u: "uname k = mkuname None ls" "sized k"
    using k(3) by (simp_all add: named_def sized_def)
  have sp: "''spec'' \<in> {''spec'', ''proc'', ''dir'', ''user'', ''system''}" and o: "KDB_O_CALLBACK \<in> {0, KDB_O_CALLBACK}" by simp_all
  obtain f1 ks1 k1 where 1: "lookupIn ?lk m ks a (''spec'' @ mkname None ls) KDB_O_CALLBACK = Some (f1, storeKey m a k1, ks1)"
    "first_hit m xs [mkuname (Some ''spec'') ls] f1" "repr ks1 xs" "cursor_in ks1 xs" "renamed k k1"
    by (rule lookupIn_plain [OF s k(1,2) a cur sp g o, of cb n]) (rule that)
  have f1: "f1 = None" using 1(2) spec by (simp add: first_hit_single)
  let ?m1 = "storeKey m a k1"
  have s1: "searchable ?m1 ks1 xs" using searchable_store [OF a] searchable_set [OF s 1(3)] by blast
  have m1: "keys ?m1 a = Some k1" "meta k1 = None" using renamed_meta [OF 1(5)] k(2) by simp_all
  let ?roots = "[''proc'', ''dir'', ''user'', ''system'']"
  obtain f2 ks2 k2 where 2: "cascadeLoop ?lk ?m1 ks1 a (mkname None ls) 0 ?roots = Some (f2, storeKey ?m1 a k2, ks2)"
    "first_hit ?m1 xs (map (\<lambda>r. mkuname (Some r) ls) ?roots) f2" "repr ks2 xs" "cursor_in ks2 xs" "\<forall>b. f2 = Some b \<longrightarrow> cursor ks2 = Some b" "renamed k1 k2"
    using cascadeLoop_plain [OF s1 m1 a 1(4) _ g, of "''proc''" "[''dir'', ''user'', ''system'']" cb n] by auto
  have st: "storeKey (storeKey m a x) a y = storeKey m a y" for x y by (simp add: storeKey_def)
  have 3: "restoreName (storeKey m a k2) a k = Some (storeKey m a ?k)"
    using renamed_trans [OF 1(5) 2(6)] unfolding renamed_def by (simp add: restoreName_def st [simplified storeKey_def])
  have h2: "first_hit m xs (map (\<lambda>r. mkuname (Some r) ls) ?roots) f2" using 2(2) unfolding first_hit_store [OF a] .
  have split: "cascade ls = map (\<lambda>r. mkuname (Some r) ls) ?roots @ [mkuname None ls]" by (simp add: cascade_def)
  have run: "byCascadingF cb (Suc (Suc n)) m ks a 0 = (if f2 = None then ?lk (storeKey m a ?k) ks2 a KDB_O_NOCASCADING else Some (f2, storeKey m a ?k, ks2))"
    using k(1) nm 1(1) f1 2(1) 3 by (simp add: byCascadingF.simps elektraLookupByCascading_def test_bit_def st del: cascadeLoop.simps)
  show thesis
  proof (cases f2)
    case None
    have "searchable (storeKey m a ?k) ks2 xs" using searchable_store [OF a] searchable_set [OF s 2(3)] by blast
    moreover have "plain_key (storeKey m a ?k) a ?k" "key ?k = Some (mkname None ls)" using k(2) u(2) nm by (simp_all add: plain_key_def sized_def)
    ultimately obtain r ks' where r: "?lk (storeKey m a ?k) ks2 a KDB_O_NOCASCADING = Some (r, storeKey m a ?k, ks')"
      "first_hit (storeKey m a ?k) xs [uname ?k] r" "repr ks' xs" "cursor_in ks' xs" "\<And>b. r = Some b \<Longrightarrow> cursor ks' = Some b"
      using lookupF_plain [of "storeKey m a ?k" ks2 xs a ?k "mkname None ls" KDB_O_NOCASCADING cb n] 2(4) by blast
    have "first_hit m xs [mkuname None ls] r" using r(2) u(1) unfolding first_hit_store [OF a] by simp
    then have "first_hit m xs (cascade ls) r" unfolding split using first_hit_append [OF h2 [unfolded None]] by blast
    then show thesis using that run None r by simp
  next
    case (Some b)
    have "first_hit m xs (cascade ls) f2" unfolding split Some by (rule first_hit_append_Some) (use h2 Some in simp)
    then show thesis using that run Some 2(3-5) by simp
  qed
qed

lemma lookupF_cascading:
  assumes s: "searchable m ks xs" and k: "keys m a = Some k" "meta k = None" "named k None ls" "\<not> test_bit (flags k) KEY_FLAG_RO_NAME"
    and a: "a \<notin> set xs" and cur: "cursor_in ks xs" and spec: "\<forall>b \<in> set xs. unameA m b \<noteq> mkuname (Some ''spec'') ls"
  obtains found ks' where "lookupF cb (Suc (Suc (Suc n))) m ks a 0 = Some (found, storeKey m a (k\<lparr>flags := flags k OR KEY_FLAG_SYNC\<rparr>), ks')"
    "first_hit m xs (cascade ls) found" "repr ks' xs" "cursor_in ks' xs" "\<And>b. found = Some b \<Longrightarrow> cursor ks' = Some b"
proof -
  obtain found ks' where c: "byCascadingF cb (Suc (Suc n)) m ks a 0 = Some (found, storeKey m a (k\<lparr>flags := flags k OR KEY_FLAG_SYNC\<rparr>), ks')"
    "first_hit m xs (cascade ls) found" "repr ks' xs" "cursor_in ks' xs" "\<And>b. found = Some b \<Longrightarrow> cursor ks' = Some b"
    using byCascading_plain [OF s k(1-3) a cur spec, of cb n] by metis
  have g: "key k = Some (mkname None ls)" "mkname None ls \<noteq> []" "hd (mkname None ls) = SLASH"
    using k(3) hd_mkname [of None ls] mkname_not_Nil [of None ls] by (simp_all add: named_def)
  have ro: "\<not> test_bit (flags k OR KEY_FLAG_SYNC) KEY_FLAG_RO_NAME" using k(4) by (simp add: test_bit_def bit.conj_disj_distrib2)
  have "withLookupKey (Suc (Suc n)) (byCascadingF cb (Suc (Suc n))) m ks a 0 = Some (found, storeKey m a (k\<lparr>flags := flags k OR KEY_FLAG_SYNC\<rparr>), ks')"
    using k(1,4) c(1) ro by (simp add: withLookupKey_def)
  then have "lookupF cb (Suc (Suc (Suc n))) m ks a 0 = Some (found, storeKey m a (k\<lparr>flags := flags k OR KEY_FLAG_SYNC\<rparr>), ks')"
    using k(1) g by (simp add: lookupF.simps lookupStep_def test_bit_def)
  then show thesis using that c by blast
qed


section \<open>Properties\<close>

text \<open>The names a lookup tries, in this order.\<close>

definition lookup_names :: "string option \<Rightarrow> string list \<Rightarrow> string list" where
  "lookup_names root ls = (if root = None then cascade ls else [mkuname root ls])"

lemma lookupF_named:
  assumes s: "searchable m ks xs" and k: "keys m a = Some k" "meta k = None" "named k root ls" "\<not> test_bit (flags k) KEY_FLAG_RO_NAME"
    and a: "a \<notin> set xs" and cur: "cursor_in ks xs"
    and spec: "root = None \<Longrightarrow> \<forall>b \<in> set xs. unameA m b \<noteq> mkuname (Some ''spec'') ls"
  obtains found ks' k' where "lookupF cb (Suc (Suc (Suc n))) m ks a 0 = Some (found, storeKey m a k', ks')" "k'\<lparr>flags := flags k\<rparr> = k"
    "first_hit m xs (lookup_names root ls) found" "repr ks' xs" "cursor_in ks' xs" "\<And>b. found = Some b \<Longrightarrow> cursor ks' = Some b"
proof (cases "root = None")
  case True
  obtain found ks' where c: "lookupF cb (Suc (Suc (Suc n))) m ks a 0 = Some (found, storeKey m a (k\<lparr>flags := flags k OR KEY_FLAG_SYNC\<rparr>), ks')"
    "first_hit m xs (cascade ls) found" "repr ks' xs" "cursor_in ks' xs" "\<And>b. found = Some b \<Longrightarrow> cursor ks' = Some b"
    using lookupF_cascading [OF s k(1,2) _ k(4) a cur spec [OF True], of cb n] k(3) True by metis
  show thesis by (rule that [OF c(1)]) (use c True in \<open>simp_all add: lookup_names_def\<close>)
next
  case False
  have nm: "key k = Some (mkname root ls)" "hd (mkname root ls) \<noteq> SLASH" "uname k = mkuname root ls" "sized k"
    using k(3) False hd_mkname [of root ls] by (simp_all add: named_def sized_def)
  have pk: "plain_key m a k" using k(1,2) nm(4) by (simp add: plain_key_def)
  have zero: "(0 :: flags_t) \<in> {0, KDB_O_CALLBACK, KDB_O_NOCASCADING}" by simp
  obtain r ks' where r: "lookupF cb (Suc (Suc (Suc n))) m ks a 0 = Some (r, m, ks')" "first_hit m xs [uname k] r"
    "repr ks' xs" "cursor_in ks' xs" "\<And>b. r = Some b \<Longrightarrow> cursor ks' = Some b"
    by (rule lookupF_plain [OF s pk nm(1) cur zero disjI2 [OF nm(2)], of cb "Suc (Suc n)"]) (rule that)
  have "storeKey m a k = m" using k(1) by (simp add: storeKey_def fun_upd_idem)
  then show thesis using that [of r k ks'] r nm(3) False by (simp add: lookup_names_def)
qed

lemma ks_ok_keys: "keys m' = keys m \<Longrightarrow> ks_ok m' ks xs \<longleftrightarrow> ks_ok m ks xs"
proof -
  assume e: "keys m' = keys m"
  then have "load m' = load m" by (intro ext) (simp add: load_def)
  then have 1: "metaFind m' = metaFind m" by (intro ext) (simp add: metaFind_def)
  then have 2: "keyIsBinary m' = keyIsBinary m" by (intro ext) (simp only: keyIsBinary_def)
  then have "keyValue m' = keyValue m" by (intro ext) (simp only: keyValue_def)
  then have "ownerOf m' = ownerOf m" using 1 by (intro ext) (simp only: ownerOf_def)
  then have "okeyA m' = okeyA m" using e by (intro ext) (simp only: okeyA_def okey_def)
  then show ?thesis using e by (simp add: ks_ok_def)
qed

lemma lookupByName_named:
  assumes ks: "ks_ok m ks xs" "cursor_in ks xs" and ok: "heap_ok m E"
    and r: "root \<in> set plain_roots" and s: "cstring rest" "even (escst rest 0)" "rest = [] \<or> (\<forall>n. rest \<noteq> replicate n BSL)"
    and spec: "root = None \<Longrightarrow> \<forall>b \<in> set xs. unameA m b \<noteq> mkuname (Some ''spec'') (resolve [] (levels rest))"
  obtains found m' ks' where "ksLookupByName cb (Suc (Suc (Suc n))) m (Some ks) (Some (root_name root @ SLASH # rest)) 0 = Some (found, m', Some ks')"
    "keys m' = keys m" "ks_ok m' ks' xs" "cursor_in ks' xs"
    "first_hit m xs (lookup_names root (resolve [] (levels rest))) found" "\<And>b. found = Some b \<Longrightarrow> cursor ks' = Some b"
proof (cases "xs = []")
  case True
  have "first_hit m [] us None" for us by (induction us) (simp_all add: first_hit.simps)
  then show thesis using that [of None m ks] ks ok True repr_size [OF ks_okD(1) [OF ks(1)]] by (simp add: ksLookupByName_def)
next
  case False
  let ?a = "fresh m" and ?ls = "resolve [] (levels rest)" and ?name = "root_name root @ SLASH # rest"
  let ?m1 = "storeKey (snd (elektraKeyMalloc m)) ?a keyInit"
  have fr: "keys m ?a = None" using heap_okD(1) [OF ok, of ?a] by (cases "keys m ?a") auto
  have a: "?a \<notin> set xs" using ks_okD(2) [OF ks(1)] fr by fastforce
  have rm: "elektraRemoveKeyName keyInit = keyInit" by (simp add: elektraRemoveKeyName_def keyInit_def)
  have i: "meta keyInit = None" "flags keyInit = 0" by (simp_all add: keyInit_def)
  have ro: "\<not> test_bit (flags keyInit) KEY_FLAG_RO_NAME" by (simp add: i test_bit_def)
  have bs: "rest \<noteq> [] \<Longrightarrow> \<not> (\<exists>n. rest = replicate n BSL)" using s(3) by blast
  let ?o = "KEY_META_NAME OR KEY_CASCADING_NAME"
  obtain r' k' where k': "setNameCore keyInit (Some ?name) ?o = (r', k', None)" "named k' root ?ls" "meta k' = meta keyInit"
    using setNameCore_named [OF r ro s(1,2) bs, of ?o] by metis
  define k2 where "k2 = k'\<lparr>meta := None, flags := flags k' OR flags keyInit\<rparr>"
  have sn: "elektraKeySetName ?m1 (Some ?a) (Some ?name) ?o = Some (r', storeKey ?m1 ?a k2)"
    using k'(1) i by (simp add: elektraKeySetName_def rm test_bit_def k2_def storeKey_def)
  let ?m2 = "storeKey ?m1 ?a k2"
  have "searchable m ks xs" using ks(1) ok by (rule searchable_ks_ok)
  moreover have kk: "keys ?m2 b = keys m b" if "b \<in> set xs" for b using that a by (auto simp: elektraKeyMalloc_def)
  moreover have un: "unameA ?m2 b = unameA m b" if "b \<in> set xs" for b using kk [OF that] by (simp add: unameA_def)
  ultimately have s2: "searchable ?m2 ks xs"
    using searchable_cong [of xs ?m2 m] by blast
  have k2: "keys ?m2 ?a = Some k2" "meta k2 = None" "named k2 root ?ls"
    using k'(2) by (simp_all add: k2_def named_def)
  have "flags k2 OR KEY_FLAG_SYNC = KEY_FLAG_SYNC" using setNameCore_meta [OF k'(1)] i by (simp add: k2_def)
  then have "(flags k2 OR KEY_FLAG_SYNC) AND KEY_FLAG_RO_NAME = 0" by simp
  then have ro2: "\<not> test_bit (flags k2) KEY_FLAG_RO_NAME" by (simp add: test_bit_def bit.conj_disj_distrib2)
  obtain found ks' k3 where L: "lookupF cb (Suc (Suc (Suc n))) ?m2 ks ?a 0 = Some (found, storeKey ?m2 ?a k3, ks')" "k3\<lparr>flags := flags k2\<rparr> = k2"
    "first_hit ?m2 xs (lookup_names root ?ls) found" "repr ks' xs" "cursor_in ks' xs" "\<And>b. found = Some b \<Longrightarrow> cursor ks' = Some b"
    by (rule lookupF_named [OF s2 k2 ro2 a ks(2)]) (use spec un in simp, rule that)
  have "meta (k3\<lparr>flags := flags k2\<rparr>) = meta k3" by simp
  then have mt: "meta k3 = None" using L(2) k2(2) by simp
  let ?m3 = "freeKey (storeKey ?m2 ?a k3) ?a"
  have "ks_size ks \<noteq> 0" using False repr_size [OF ks_okD(1) [OF ks(1)]] by simp
  then have "ksLookupByName cb (Suc (Suc (Suc n))) m (Some ks) (Some ?name) 0 = Some (found, ?m3, Some ks')"
    using sn L(1) mt by (simp add: ksLookupByName_def ksLookup_def elektraKeyMalloc_def ksDel_def)
  moreover have k3: "keys ?m3 = keys m" using fr by (auto simp: elektraKeyMalloc_def freeKey_def)
  moreover have "ks_ok ?m3 ks' xs" using ks(1) L(4) unfolding ks_ok_keys [OF k3] by (simp add: ks_ok_def)
  moreover have "first_hit m xs (lookup_names root ?ls) found" using L(3) first_hit_cong [of xs ?m2 m] un by simp
  ultimately show thesis using that L(5,6) by blast
qed

text \<open>C35: looking up a key of a canonical name finds a key of that name in the namespace of the key, and for a cascading
  name the first hit in \<open>proc\<close>, \<open>dir\<close>, \<open>user\<close>, \<open>system\<close> and the cascading name itself, where there is no
  specification of it. Three levels of recursion are enough, the cursor is at the key that was found, the keyset keeps its keys and
  the search key its name.\<close>

theorem lookup_key:
  assumes "ks_ok m ks xs" "cursor_in ks xs" "heap_ok m E"
    and "keys m a = Some k" "meta k = None" "named k root ls" "\<not> test_bit (flags k) KEY_FLAG_RO_NAME" "a \<notin> set xs"
    and "root = None \<longrightarrow> (\<forall>b \<in> set xs. unameA m b \<noteq> mkuname (Some ''spec'') ls)"
  shows "\<exists>found ks' k'. ksLookup cb (Suc (Suc (Suc n))) m (Some ks) (Some a) 0 = Some (found, storeKey m a k', Some ks')
     \<and> k'\<lparr>flags := flags k\<rparr> = k \<and> first_hit m xs (lookup_names root ls) found \<and> repr ks' xs \<and> cursor_in ks' xs
     \<and> (\<forall>b. found = Some b \<longrightarrow> cursor ks' = Some b)"
proof -
  obtain found ks' k' where L: "lookupF cb (Suc (Suc (Suc n))) m ks a 0 = Some (found, storeKey m a k', ks')" "k'\<lparr>flags := flags k\<rparr> = k"
    "first_hit m xs (lookup_names root ls) found" "repr ks' xs" "cursor_in ks' xs" "\<And>b. found = Some b \<Longrightarrow> cursor ks' = Some b"
    by (rule lookupF_named [OF searchable_ks_ok [OF assms(1,3)] assms(4-8,2)]) (use assms(9) in blast, rule that)
  then show ?thesis by (auto simp: ksLookup_def)
qed

definition exLk :: mem where "exLk = exMem [exA, exB, exKey ''/a'']"

lemma exLk_facts: "ks_ok exLk exKs [0, 1]" "heap_ok exLk {#0, 1#}" "keys exLk 2 = Some (exKey ''/a'')" "named (exKey ''/a'') None [''a'']"
  "meta (exKey ''/a'') = None" "ksReference (exKey ''/a'') = 0" "sized (exKey ''/a'')" "flags (exKey ''/a'') = KEY_FLAG_SYNC"
  "unameA exLk 0 = uname exA" "unameA exLk 1 = uname exB"
proof -
  show f: "named (exKey ''/a'') None [''a'']" "meta (exKey ''/a'') = None" "ksReference (exKey ''/a'') = 0" "sized (exKey ''/a'')"
    "flags (exKey ''/a'') = KEY_FLAG_SYNC" by code_simp+
  have pl: "plain [exA, exB, exKey ''/a'']" using f by (simp add: plain_def ex_fields)
  have "\<forall>a < 3. count {#0, 1#} a = ksReference ([exA, exB, exKey ''/a''] ! a)"
    using f by (auto simp: less_Suc_eq numeral_3_eq_3 ex_fields)
  then show "heap_ok exLk {#0, 1#}" using heap_ok_exMem [OF pl, of "{#0, 1#}"] by (simp add: exLk_def numeral_3_eq_3)
  show k: "keys exLk 2 = Some (exKey ''/a'')" by (simp add: exLk_def exMem_def)
  show "ks_ok exLk exKs [0, 1]" unfolding ks_ok_def exLk_def
    using exKs_repr by (simp add: okeyA_exMem [OF pl] ex_fields) (simp add: exMem_def ex_fields)
  show "unameA exLk 0 = uname exA" "unameA exLk 1 = uname exB" by (simp_all add: exLk_def exMem_def unameA_def)
qed

theorem lookup_key_witness:
  "\<exists>found ks' k'. ksLookup (\<lambda>_ _ _ _ _ _. None) (Suc (Suc (Suc 0))) exLk (Some exKs) (Some 2) 0 = Some (found, storeKey exLk 2 k', Some ks')
     \<and> k'\<lparr>flags := flags (exKey ''/a'')\<rparr> = exKey ''/a'' \<and> first_hit exLk [0, 1] (lookup_names None [''a'']) found \<and> repr ks' [0, 1] \<and> cursor_in ks' [0, 1]
     \<and> (\<forall>b. found = Some b \<longrightarrow> cursor ks' = Some b)"
proof (rule lookup_key [OF exLk_facts(1) _ exLk_facts(2-3,5,4)])
  have "uname exA \<noteq> mkuname (Some ''spec'') [''a''] \<and> uname exB \<noteq> mkuname (Some ''spec'') [''a'']" by code_simp
  then show "(None :: string option) = None \<longrightarrow> (\<forall>b \<in> set [0, 1]. unameA exLk b \<noteq> mkuname (Some ''spec'') [''a''])" using exLk_facts(9,10) by simp
qed (simp_all add: exKs_def ksInit_def cursor_in_def exLk_facts(8) test_bit_def)

text \<open>\<open>ksLookupByName\<close> finds the key of the canonical form of the name; the key it makes for the search is gone
  afterwards and no key has changed.\<close>

theorem lookup_by_name:
  assumes "ks_ok m ks xs" "cursor_in ks xs" "heap_ok m E" "root \<in> set plain_roots"
    and "cstring rest" "even (escst rest 0)" "rest = [] \<or> (\<forall>n. rest \<noteq> replicate n BSL)"
    and "root = None \<longrightarrow> (\<forall>b \<in> set xs. unameA m b \<noteq> mkuname (Some ''spec'') (resolve [] (levels rest)))"
  shows "\<exists>found m' ks'. ksLookupByName cb (Suc (Suc (Suc n))) m (Some ks) (Some (root_name root @ SLASH # rest)) 0 = Some (found, m', Some ks')
     \<and> keys m' = keys m \<and> ks_ok m' ks' xs \<and> cursor_in ks' xs \<and> first_hit m xs (lookup_names root (resolve [] (levels rest))) found
     \<and> (\<forall>b. found = Some b \<longrightarrow> cursor ks' = Some b)"
proof -
  obtain found m' ks' where "ksLookupByName cb (Suc (Suc (Suc n))) m (Some ks) (Some (root_name root @ SLASH # rest)) 0 = Some (found, m', Some ks')"
    "keys m' = keys m" "ks_ok m' ks' xs" "cursor_in ks' xs"
    "first_hit m xs (lookup_names root (resolve [] (levels rest))) found" "\<And>b. found = Some b \<Longrightarrow> cursor ks' = Some b"
    by (rule lookupByName_named [OF assms(1-7)]) (use assms(8) in blast, rule that)
  then show ?thesis by blast
qed

theorem lookup_by_name_witness:
  "\<exists>found m' ks'. ksLookupByName (\<lambda>_ _ _ _ _ _. None) (Suc (Suc (Suc 0))) exM (Some exKs) (Some (root_name (Some ''user'') @ SLASH # ''x/..//b'')) 0 = Some (found, m', Some ks')
     \<and> keys m' = keys exM \<and> ks_ok m' ks' [0, 1] \<and> cursor_in ks' [0, 1] \<and> first_hit exM [0, 1] (lookup_names (Some ''user'') (resolve [] (levels ''x/..//b''))) found
     \<and> (\<forall>b. found = Some b \<longrightarrow> cursor ks' = Some b)"
proof (rule lookup_by_name [OF exKs_ok _ ex_heap(1)])
  have "''x/..//b'' \<noteq> replicate n BSL" for n by (cases n) simp_all
  then show "''x/..//b'' = [] \<or> (\<forall>n. ''x/..//b'' \<noteq> replicate n BSL)" by blast
qed (simp_all add: plain_roots_def cstring_def cursor_in_def exKs_def ksInit_def)

text \<open>C36: a key with a name in one of the namespaces spec, proc, dir, user and system that was appended to a keyset is found under every
  spelling \<open>r/rest\<close> of its name that starts with the plain name \<open>r\<close> of its namespace, if no key of that name with another owner is in the keyset.
  Cascading names are excluded: an appended \<open>/a\<close> is hidden by a key \<open>user/a\<close>.\<close>

theorem append_then_lookup:
  assumes "ks_ok m ks xs" "cursor_in ks xs" "heap_ok m (E + mset xs)" "flat m"
    and "keys m a = Some k" "ksReference k < SSIZE_MAX" "a \<notin># metaRefs m" "named k (Some r) (resolve [] (levels rest))"
    and "Some r \<in> set plain_roots" "cstring rest" "even (escst rest 0)" "rest = [] \<or> (\<forall>n. rest \<noteq> replicate n BSL)"
    and "\<forall>b \<in> set xs. unameA m b = uname k \<longrightarrow> okeyA m b = okeyA m a"
  shows "\<exists>n1 m1 ks1 m2 ks2. ksAppendKey m ks (Some a) = Some (n1, m1, ks1)
     \<and> ksLookupByName cb (Suc (Suc (Suc n))) m1 (Some ks1) (Some (r @ SLASH # rest)) 0 = Some (Some a, m2, Some ks2)
     \<and> keys m2 = keys m1 \<and> cursor ks2 = Some a"
proof -
  have kn: "key k \<noteq> None" "uname k = mkuname (Some r) (resolve [] (levels rest))" using assms(8) by (simp_all add: named_def)
  obtain n1 m1 ks1 where ap: "ksAppendKey m ks (Some a) = Some (n1, m1, ks1)"
    using ksAppendKey_returns [OF assms(1,3,4,5) kn(1) assms(6)] assms(7) by fastforce
  note A = ksAppendKey_ok [OF assms(1,3,5) kn(1) assms(6) ap]
  obtain found m2 ks2 where L: "ksLookupByName cb (Suc (Suc (Suc n))) m1 (Some ks1) (Some (root_name (Some r) @ SLASH # rest)) 0 = Some (found, m2, Some ks2)"
    "keys m2 = keys m1" "first_hit m1 (appended m a xs) (lookup_names (Some r) (resolve [] (levels rest))) found"
    "\<And>b. found = Some b \<Longrightarrow> cursor ks2 = Some b"
    by (rule lookupByName_named [OF A(1) A(6) [OF assms(2)] A(2) assms(9-12)]) (simp, rule that)
  have un: "unameA m1 b = unameA m b" if b: "b \<in> set (appended m a xs)" for b
  proof -
    obtain k1 where k1: "keys m1 b = Some k1" using ks_okD(2) [OF A(1) b] by auto
    then obtain k0 where k0: "keys m b = Some k0" using A(5) [of b] by fastforce
    show ?thesis using core_eqD(4) [OF keptD [OF A(4) k0 k1]] k0 k1 by (simp add: unameA_def)
  qed
  have mem: "a \<in> set (appended m a xs)" by (simp add: appended_def)
  have only: "b = a" if "b \<in> set (appended m a xs)" "unameA m1 b = uname k" for b
    using that un [OF that(1)] assms(13) by (auto simp: appended_def)
  have "unameA m1 a = uname k" using un [OF mem] assms(5) by (simp add: unameA_def)
  then have ex: "\<exists>b \<in> set (appended m a xs). unameA m1 b = uname k" using mem by blast
  have "first_hit m1 (appended m a xs) [uname k] found" using L(3) kn(2) by (simp add: lookup_names_def)
  then obtain b where "b \<in> set (appended m a xs)" "found = Some b" "unameA m1 b = uname k"
    using ex unfolding first_hit_single by auto
  then have "found = Some a" using only by blast
  then show ?thesis using ap L by (auto simp: root_name_def)
qed

theorem append_then_lookup_witness:
  "\<exists>n1 m1 ks1 m2 ks2. ksAppendKey exM exKs (Some 2) = Some (n1, m1, ks1)
     \<and> ksLookupByName (\<lambda>_ _ _ _ _ _. None) (Suc (Suc (Suc 0))) m1 (Some ks1) (Some (''user'' @ SLASH # ''/x/../ab'')) 0 = Some (Some 2, m2, Some ks2)
     \<and> keys m2 = keys m1 \<and> cursor ks2 = Some 2"
proof (rule append_then_lookup [OF exKs_ok _ _ ex_heap(2) ex_keys(4)])
  show "heap_ok exM ({#} + mset [0, 1])" using ex_heap(1) by (simp add: add_mset_commute)
  have "''/x/../ab'' \<noteq> replicate n BSL" for n by (cases n) simp_all
  then show "''/x/../ab'' = [] \<or> (\<forall>n. ''/x/../ab'' \<noteq> replicate n BSL)" by blast
  show "named exN (Some ''user'') (resolve [] (levels ''/x/../ab''))" by code_simp
  show "2 \<notin># metaRefs exM" by (simp add: metaRefs_exMem [OF ex_plain])
qed (simp_all add: plain_roots_def cstring_def cursor_in_def exKs_def ksInit_def ex_fields SSIZE_MAX_def unameA_def)

end
