(* ===== verification/Client.thy ===== *)
theory Client
  imports KsLookup
begin

text \<open>
  Programs that use keys and keysets: a state machine whose steps are calls of the library, in any order. The
  state is the memory, the keysets the program has, and the references it took itself with \<open>keyIncRef\<close>; the latter are
  no data of the code but the book-keeping a correct program owes. \<open>legal\<close> is that part of the documentation: what
  a call may be given. The invariant of all reachable states says that no keyset holds a dangling pointer, that every keyset is
  sorted and that every reference counter is exact; it follows that no legal call can fail.
\<close>

section \<open>States and calls\<close>

record sys =
  heap :: mem
  held :: "addr multiset"
  sets :: "KeySet list"

datatype call =
  KeyNew "string option" string | KeyDup addr | KeyIncRef addr | KeyDecRef addr | KeyDel addr
| KeySetMeta addr string "string option" | KeySetString addr string
| KsNew nat | KsAppendKey nat addr | KsPop nat | KsDup nat | KsDel nat

definition klist :: "KeySet \<Rightarrow> addr list" where
  "klist ks = (case ptrs ks of None \<Rightarrow> [] | Some xs \<Rightarrow> xs)"

definition dropAt :: "nat \<Rightarrow> 'a list \<Rightarrow> 'a list" where
  "dropAt i xs = take i xs @ drop (Suc i) xs"

fun exec :: "call \<Rightarrow> sys \<Rightarrow> sys option" where
  "exec (KeyNew r rest) s = do { (_, m) \<leftarrow> keyNew (heap s) (Some (root_name r @ SLASH # rest)) []; Some (s\<lparr>heap := m\<rparr>) }"
| "exec (KeyDup a) s = do { (_, m) \<leftarrow> keyDup (heap s) (Some a); Some (s\<lparr>heap := m\<rparr>) }"
| "exec (KeyIncRef a) s = do { m \<leftarrow> incRef (heap s) a; Some (s\<lparr>heap := m, held := add_mset a (held s)\<rparr>) }"
| "exec (KeyDecRef a) s = do { m \<leftarrow> decRef (heap s) a; Some (s\<lparr>heap := m, held := held s - {#a#}\<rparr>) }"
| "exec (KeyDel a) s = do { (_, m) \<leftarrow> keyDelMem (heap s) a; Some (s\<lparr>heap := m\<rparr>) }"
| "exec (KeySetMeta a n v) s = do { (_, m) \<leftarrow> keySetMeta (heap s) (Some a) (Some n) v; Some (s\<lparr>heap := m\<rparr>) }"
| "exec (KeySetString a v) s = do { (_, m) \<leftarrow> keySetString (heap s) (Some a) (Some v); Some (s\<lparr>heap := m\<rparr>) }"
| "exec (KsNew n) s = do { (m, ks) \<leftarrow> ksNew (heap s) n []; Some (s\<lparr>heap := m, sets := sets s @ [ks]\<rparr>) }"
| "exec (KsAppendKey i a) s = do { (_, m, ks) \<leftarrow> ksAppendKey (heap s) (sets s ! i) (Some a); Some (s\<lparr>heap := m, sets := (sets s)[i := ks]\<rparr>) }"
| "exec (KsPop i) s = do { (_, m, ks) \<leftarrow> ksPop (heap s) (sets s ! i); Some (s\<lparr>heap := m, sets := (sets s)[i := ks]\<rparr>) }"
| "exec (KsDup i) s = do { (k, m) \<leftarrow> ksDup (heap s) (Some (sets s ! i)); ks \<leftarrow> k; Some (s\<lparr>heap := m, sets := sets s @ [ks]\<rparr>) }"
| "exec (KsDel i) s = do { (_, m) \<leftarrow> ksDel (heap s) (Some (sets s ! i)); Some (s\<lparr>heap := m, sets := dropAt i (sets s)\<rparr>) }"

text \<open>A key that the program may change: it is there, it is no metadata, and what is to be changed is not locked.\<close>

definition writable :: "mem \<Rightarrow> addr \<Rightarrow> flags_t \<Rightarrow> bool" where
  "writable m a locks \<longleftrightarrow> a \<notin># metaRefs m \<and> fresh m < SSIZE_MAX \<and> (\<exists>k. keys m a = Some k \<and> flags k AND locks = 0)"

fun legal :: "call \<Rightarrow> sys \<Rightarrow> bool" where
  "legal (KeyNew r rest) s \<longleftrightarrow> r \<in> set plain_roots \<and> cstring rest \<and> even (escst rest 0) \<and> (rest = [] \<or> (\<forall>n. rest \<noteq> replicate n BSL))"
| "legal (KeyDup a) s \<longleftrightarrow> (\<exists>k. keys (heap s) a = Some k \<and> (\<forall>b \<in> set (mlist k). refs (heap s) b < SSIZE_MAX))"
| "legal (KeyIncRef a) s \<longleftrightarrow> keys (heap s) a \<noteq> None \<and> refs (heap s) a < SSIZE_MAX"
| "legal (KeyDecRef a) s \<longleftrightarrow> a \<in># held s"
| "legal (KeyDel a) s \<longleftrightarrow> keys (heap s) a \<noteq> None"
| "legal (KeySetMeta a n v) s \<longleftrightarrow> writable (heap s) a KEY_FLAG_RO_META \<and> mname n \<and> munique n \<noteq> munique ''owner''"
| "legal (KeySetString a v) s \<longleftrightarrow> writable (heap s) a KEY_FLAG_RO_META \<and> writable (heap s) a KEY_FLAG_RO_VALUE \<and> cstring v"
| "legal (KsNew n) s \<longleftrightarrow> True"
| "legal (KsAppendKey i a) s \<longleftrightarrow> i < length (sets s) \<and> a \<notin># metaRefs (heap s) \<and> refs (heap s) a < SSIZE_MAX
     \<and> (\<exists>k. keys (heap s) a = Some k \<and> key k \<noteq> None)"
| "legal (KsPop i) s \<longleftrightarrow> i < length (sets s)"
| "legal (KsDup i) s \<longleftrightarrow> i < length (sets s) \<and> (\<forall>a \<in> set (klist (sets s ! i)). refs (heap s) a < SSIZE_MAX)"
| "legal (KsDel i) s \<longleftrightarrow> i < length (sets s)"

definition start :: sys where
  "start = \<lparr>heap = \<lparr>keys = (\<lambda>_. None), fresh = 0\<rparr>, held = {#}, sets = []\<rparr>"

inductive reachable :: "sys \<Rightarrow> bool" where
  reachable_start: "reachable start"
| reachable_call: "reachable s \<Longrightarrow> legal c s \<Longrightarrow> exec c s = Some s' \<Longrightarrow> reachable s'"

section \<open>The invariant\<close>

definition setRefs :: "KeySet list \<Rightarrow> addr multiset" where
  "setRefs L = (\<Sum>ks \<leftarrow> L. mset (klist ks))"

definition sys_inv :: "sys \<Rightarrow> bool" where
  "sys_inv s \<longleftrightarrow> inv (heap s) (held s + setRefs (sets s)) \<and> (\<forall>ks \<in> set (sets s). ks_ok (heap s) ks (klist ks))"

lemma klist_repr [simp]: "repr ks xs \<Longrightarrow> klist ks = xs"
  by (simp add: klist_def)

lemma klist_ok: "ks_ok m ks xs \<Longrightarrow> klist ks = xs"
  by (simp add: ks_ok_def)

lemma setRefs_simps [simp]: "setRefs [] = {#}" "setRefs (L @ [ks]) = setRefs L + mset (klist ks)"
  by (simp_all add: setRefs_def)

lemma setRefs_split: "i < length L \<Longrightarrow> setRefs L = setRefs (dropAt i L) + mset (klist (L ! i))"
proof -
  assume "i < length L"
  then have "L = take i L @ L ! i # drop (Suc i) L" by (rule id_take_nth_drop)
  then have "setRefs L = setRefs (take i L @ L ! i # drop (Suc i) L)" by simp
  then show ?thesis by (simp add: setRefs_def dropAt_def)
qed

lemma setRefs_update: "i < length L \<Longrightarrow> setRefs (L[i := ks]) = setRefs (dropAt i L) + mset (klist ks)"
  using setRefs_split [of i "L[i := ks]"] by (simp add: dropAt_def)

lemma setRefs_mem: "ks \<in> set L \<Longrightarrow> a \<in> set (klist ks) \<Longrightarrow> a \<in># setRefs L"
  by (induction L) (auto simp: setRefs_def)

lemma set_dropAt: "set (dropAt i L) \<subseteq> set L" "i < length L \<Longrightarrow> set (L[i := k]) = insert k (set (dropAt i L))"
  by (auto simp: dropAt_def dest: in_set_takeD in_set_dropD) (auto simp: upd_conv_take_nth_drop)

lemma inv_kept:
  assumes iv: "inv m E" and ok: "heap_ok m' E'" and k: "kept m m'" "\<And>b. keys m b = None \<Longrightarrow> keys m' b = None"
  shows "inv m' E'"
  unfolding inv_def
proof (intro conjI allI impI ok)
  have ok0: "heap_ok m E" and fl: "flat m" using iv by (simp_all add: inv_def)
  show "flat m'" by (rule flat_kept [OF k ok0 fl])
  fix a k' ks xs assume a: "keys m' a = Some k'" "meta k' = Some ks" "repr ks xs"
  then obtain k0 where k0: "keys m a = Some k0" using k(2) [of a] by fastforce
  then have "meta k0 = Some ks" using core_eqD(7) [OF keptD [OF k(1) k0 a(1)]] a(2) by simp
  note l = inv_leafs [OF iv k0 this a(3)]
  have "ks_ok m' ks xs"
    by (rule ks_ok_kept [OF l(1) ok0 ok k(1) a(3)]) (use heap_ok_meta_live [OF ok a] in blast)
  then show "ks_ok m' ks xs" "cursor_in ks xs" using l(2) by blast+
qed

text \<open>The keysets a call does not touch stay well-formed, if all keys keep their names and metadata.\<close>

lemma other_sets:
  assumes "\<forall>ks \<in> set L. ks_ok m ks (klist ks)" "heap_ok m E" "heap_ok m' (H + setRefs L)" "kept m m'"
  shows "\<forall>ks \<in> set L. ks_ok m' ks (klist ks)"
proof
  fix ks assume ks: "ks \<in> set L"
  have "keys m' a \<noteq> None" if "a \<in> set (klist ks)" for a
    using heap_ok_live [OF assms(3), of a] setRefs_mem [OF ks that] by auto
  then show "ks_ok m' ks (klist ks)"
    using ks_ok_kept [OF _ assms(2,3,4) ks_okD(1)] assms(1) ks by metis
qed


section \<open>The order when metadata changes\<close>

text \<open>The owner of a key by its metadata: the metadata keys have no metadata themselves.\<close>

definition ownerData :: "string option option \<Rightarrow> string option" where
  "ownerData d = map_option (\<lambda>v. upto_nul (case v of None \<Rightarrow> [NUL] | Some b \<Rightarrow> b)) d"

lemma owner_mname: "mname ''owner''"
proof -
  have "named (metaKey ''owner'') (Some ''owner'') []" "metaOwner ''owner'' = None" by code_simp+
  then show ?thesis unfolding mname_def by blast
qed

lemma okeyA_meta:
  assumes iv: "inv m E" and k: "keys m b = Some k"
  shows "okeyA m b = (uname k, ownerData (metaData m b ''owner''))"
proof -
  have ok: "heap_ok m E" using iv by (simp add: inv_def)
  note mk = inv_mok [OF iv k]
  have "ownerOf m k = ownerData (metaData m b ''owner'')"
  proof (cases "\<exists>c \<in> set (mlist k). unameA m c = munique ''owner''")
    case True
    then obtain c where c: "c \<in> set (mlist k)" "unameA m c = munique ''owner''" by blast
    obtain kc where kc: "keys m c = Some kc" "meta kc = None" using leafsD [of m "mlist k" c] mk c(1) by (auto simp: mok_def)
    have f: "metaFind m k ''owner'' = Some kc" using metaFind_mok(1) [OF mk ok owner_mname c] kc(1) by simp
    have "metaFind m kc ''binary'' = None" using kc(2) by (simp add: metaFind_def)
    then show ?thesis using f k
      by (simp add: ownerOf_def keyValue_def keyIsBinary_def metaData_def ownerData_def split: option.split)
  next
    case False
    then have "metaFind m k ''owner'' = None" by (intro metaFind_mok(2) [OF mk ok owner_mname]) blast
    then show ?thesis using k by (simp add: ownerOf_def keyValue_def metaData_def ownerData_def)
  qed
  then show ?thesis using k by (simp add: okeyA_def okey_def)
qed

text \<open>An operation on the key \<open>a\<close> that keeps its name and its owner keeps the order of every keyset.\<close>

lemma okeyA_upto:
  assumes iv: "inv m E" "inv m' E'" and up: "upto {a, fresh m} m m'" and na: "a \<notin># metaRefs m"
    and a: "keys m a = Some k" "keys m' a = Some k'" "uname k' = uname k" "key k' = key k" "metaData m' a ''owner'' = metaData m a ''owner''"
    and b: "keys m b = Some kb" "keys m' b = Some kb'"
  shows "okeyA m' b = okeyA m b \<and> key kb' = key kb"
proof (cases "b = a")
  case True
  then show ?thesis using okeyA_meta [OF iv(1) a(1)] okeyA_meta [OF iv(2) a(2)] a b by simp
next
  case False
  have ok: "heap_ok m E" "heap_ok m' E'" using iv by (simp_all add: inv_def)
  have fr: "keys m (fresh m) = None" using heap_okD(1) [OF ok(1), of "fresh m"] by (cases "keys m (fresh m)") auto
  then have "b \<noteq> fresh m" using b(1) by auto
  then have c: "core kb' = core kb" using uptoD [OF up _ b(2)] False b(1) by auto
  have ml: "mlist kb' = mlist kb" using core_eqD(7) [OF c] by (simp add: mlist_def)
  note mk = inv_mok [OF iv(1) b(1)] inv_mok [OF iv(2) b(2), unfolded ml]
  have same: "\<exists>kd kd'. keys m d = Some kd \<and> keys m' d = Some kd' \<and> core kd' = core kd" if d: "d \<in> set (mlist kb)" for d
  proof -
    obtain kd kd' where kd: "keys m d = Some kd" "keys m' d = Some kd'"
      using leafsD [of m "mlist kb" d] leafsD [of m' "mlist kb" d] mk d by (auto simp: mok_def)
    obtain ks where ks: "meta kb = Some ks" using d by (cases "meta kb") (auto simp: mlist_def)
    obtain xs where "repr ks xs" "\<And>x. x \<in> set xs \<Longrightarrow> x \<in># metaRefs m" using inv_meta [OF iv(1) b(1) ks] by metis
    then have "d \<in># metaRefs m" using d mlist_repr [OF ks] by simp
    then have "d \<noteq> a" "d \<noteq> fresh m" using na kd(1) fr by auto
    then show ?thesis using uptoD [OF up _ kd(2)] kd by auto
  qed
  have "metaData m' b ''owner'' = metaData m b ''owner''"
    by (rule metaData_agree [OF ok(1) b(1) mk(1) ok(2) b(2) mk(2) owner_mname]) (use same in auto)
  then show ?thesis using okeyA_meta [OF iv(1) b(1)] okeyA_meta [OF iv(2) b(2)] core_eqD(3,4) [OF c] by simp
qed

lemma other_sets_upto:
  assumes sets: "\<forall>ks \<in> set L. ks_ok m ks (klist ks)" and iv: "inv m E" "inv m' (H + setRefs L)" and up: "upto {a, fresh m} m m'"
    and na: "a \<notin># metaRefs m"
    and a: "keys m a = Some k" "keys m' a = Some k'" "uname k' = uname k" "key k' = key k" "metaData m' a ''owner'' = metaData m a ''owner''"
  shows "\<forall>ks \<in> set L. ks_ok m' ks (klist ks)"
proof
  fix ks assume ks: "ks \<in> set L"
  have s: "ks_ok m ks (klist ks)" using sets ks by blast
  have ok': "heap_ok m' (H + setRefs L)" using iv(2) by (simp add: inv_def)
  have e: "okeyA m' b = okeyA m b \<and> (\<exists>kb'. keys m' b = Some kb' \<and> key kb' \<noteq> None)" if b: "b \<in> set (klist ks)" for b
  proof -
    obtain kb where kb: "keys m b = Some kb" "key kb \<noteq> None" using ks_okD(2) [OF s b] by blast
    have "b \<in># metaRefs m' + (H + setRefs L)" using setRefs_mem [OF ks b] by simp
    then obtain kb' where kb': "keys m' b = Some kb'" using heap_ok_live [OF ok'] by blast
    then show ?thesis using okeyA_upto [OF iv up na a kb(1) kb'] kb(2) by simp
  qed
  then have "map (okeyA m') (klist ks) = map (okeyA m) (klist ks)" by simp
  then have "sorted_wrt (<) (map (okeyA m') (klist ks))" using s unfolding ks_ok_def by (simp only:)
  then show "ks_ok m' ks (klist ks)" using e s unfolding ks_ok_def by blast
qed


section \<open>Every legal call returns and keeps the invariant\<close>

lemma sys_invD:
  assumes "sys_inv s"
  shows "inv (heap s) (held s + setRefs (sets s))" "heap_ok (heap s) (held s + setRefs (sets s))" "flat (heap s)"
    "\<forall>ks \<in> set (sets s). ks_ok (heap s) ks (klist ks)"
  using assms by (simp_all add: sys_inv_def inv_def)

text \<open>A call that keeps names and metadata and frees or moves references.\<close>

lemma sys_inv_kept:
  assumes s: "sys_inv s" and k: "kept (heap s) m'" "\<And>b. keys (heap s) b = None \<Longrightarrow> keys m' b = None"
    and ok: "heap_ok m' (H + setRefs L)" and L: "set L \<subseteq> set (sets s)"
  shows "sys_inv \<lparr>heap = m', held = H, sets = L\<rparr>"
proof -
  note I = sys_invD [OF s]
  have "\<forall>ks \<in> set L. ks_ok (heap s) ks (klist ks)" using I(4) L by blast
  then show ?thesis using inv_kept [OF I(1) ok k] other_sets [OF _ I(2) ok k(1)] by (simp add: sys_inv_def)
qed

text \<open>The same with one keyset replaced or added.\<close>

lemma sys_inv_set:
  assumes s: "sys_inv s" and k: "kept (heap s) m'" "\<And>b. keys (heap s) b = None \<Longrightarrow> keys m' b = None"
    and ok: "heap_ok m' (H + setRefs (L @ [ks]))" and L: "set L \<subseteq> set (sets s)" "ks_ok m' ks (klist ks)" "set L' = insert ks (set L)" "setRefs L' = setRefs (L @ [ks])"
  shows "sys_inv \<lparr>heap = m', held = H, sets = L'\<rparr>"
proof -
  note I = sys_invD [OF s]
  have "\<forall>k \<in> set L. ks_ok (heap s) k (klist k)" using I(4) L(1) by blast
  moreover have "heap_ok m' ((H + mset (klist ks)) + setRefs L)" using ok by (simp add: ac_simps)
  ultimately have "\<forall>k \<in> set L. ks_ok m' k (klist k)" by (rule other_sets [OF _ I(2) _ k(1)])
  then show ?thesis using inv_kept [OF I(1) ok k] L(2-4) by (simp add: sys_inv_def)
qed

lemma sys_eq: "s\<lparr>heap := m\<rparr> = \<lparr>heap = m, held = held s, sets = sets s\<rparr>" "s\<lparr>heap := m, held := h\<rparr> = \<lparr>heap = m, held = h, sets = sets s\<rparr>"
  "s\<lparr>heap := m, sets := l\<rparr> = \<lparr>heap = m, held = held s, sets = l\<rparr>"
  by (cases s; simp)+

lemma frame_None: "frame m m' \<Longrightarrow> keys m b = None \<Longrightarrow> keys m' b = None"
  by (rule frame_dead)

lemma call_IncRef:
  assumes s: "sys_inv s" and l: "legal (KeyIncRef a) s"
  shows "\<exists>s'. exec (KeyIncRef a) s = Some s' \<and> sys_inv s'"
proof -
  note I = sys_invD [OF s]
  obtain k where k: "keys (heap s) a = Some k" "ksReference k < SSIZE_MAX" using l by (auto simp: refs_def)
  note h = heap_ok_incRef [OF I(2) k]
  let ?m = "storeKey (heap s) a (k\<lparr>ksReference := ksReference k + 1\<rparr>)"
  have "kept (heap s) ?m" using k(1) by (auto simp: kept_def)
  then have "sys_inv \<lparr>heap = ?m, held = add_mset a (held s), sets = sets s\<rparr>"
    using h(2) k(1) by (intro sys_inv_kept [OF s]) auto
  then show ?thesis using h(1) by (simp add: sys_eq)
qed

lemma call_DecRef:
  assumes s: "sys_inv s" and l: "legal (KeyDecRef a) s"
  shows "\<exists>s'. exec (KeyDecRef a) s = Some s' \<and> sys_inv s'"
proof -
  note I = sys_invD [OF s]
  have e: "held s + setRefs (sets s) = add_mset a ((held s - {#a#}) + setRefs (sets s))" using l by simp
  obtain m' where m': "decRef (heap s) a = Some m'" "heap_ok m' ((held s - {#a#}) + setRefs (sets s))" "frame (heap s) m'"
    using heap_ok_decRef [OF I(2) [unfolded e]] by metis
  have "sys_inv \<lparr>heap = m', held = held s - {#a#}, sets = sets s\<rparr>"
    by (rule sys_inv_kept [OF s frame_kept [OF m'(3)] frame_None [OF m'(3)] m'(2)]) auto
  then show ?thesis using m'(1) by (simp add: sys_eq)
qed

lemma call_Del:
  assumes s: "sys_inv s" and l: "legal (KeyDel a) s"
  shows "\<exists>s'. exec (KeyDel a) s = Some s' \<and> sys_inv s'"
proof -
  note I = sys_invD [OF s]
  obtain k where "keys (heap s) a = Some k" using l by auto
  then obtain r m' where m': "keyDelMem (heap s) a = Some (r, m')" by (rule keyDelMem_returns [OF I(2,3)])
  note d = del_okD [OF keyDelMem_ok m' I(2)]
  have "sys_inv \<lparr>heap = m', held = held s, sets = sets s\<rparr>"
    by (rule sys_inv_kept [OF s frame_kept [OF d(2)] frame_None [OF d(2)] d(1)]) auto
  then show ?thesis using m' by (simp add: sys_eq)
qed

lemma call_KsNew:
  assumes s: "sys_inv s"
  shows "\<exists>s'. exec (KsNew n) s = Some s' \<and> sys_inv s'"
proof -
  note I = sys_invD [OF s]
  let ?ks = "ksRewind (ksVNewEmpty n)"
  have r: "repr ?ks []" using ksVNewEmpty_repr(1) by simp
  have "sys_inv \<lparr>heap = heap s, held = held s, sets = sets s @ [?ks]\<rparr>"
    by (rule sys_inv_set [OF s, of _ _ "sets s" ?ks]) (use r I(2) in \<open>simp_all add: kept_def ks_ok_def\<close>)
  then show ?thesis by (cases "n = 0") (simp_all add: ksNew_def ksVNew_def sys_eq)
qed

lemma call_Append:
  assumes s: "sys_inv s" and l: "legal (KsAppendKey i a) s"
  shows "\<exists>s'. exec (KsAppendKey i a) s = Some s' \<and> sys_inv s'"
proof -
  note I = sys_invD [OF s]
  let ?L = "dropAt i (sets s)" and ?ks = "sets s ! i"
  have i: "i < length (sets s)" using l by simp
  obtain k where k: "keys (heap s) a = Some k" "key k \<noteq> None" "ksReference k < SSIZE_MAX" "a \<notin># metaRefs (heap s)" using l by (auto simp: refs_def)
  have ks: "ks_ok (heap s) ?ks (klist ?ks)" using I(4) i by simp
  have ok: "heap_ok (heap s) ((held s + setRefs ?L) + mset (klist ?ks))" using I(2) setRefs_split [OF i] by (simp add: ac_simps)
  obtain r m' ks' where ap: "ksAppendKey (heap s) ?ks (Some a) = Some (r, m', ks')"
    using ksAppendKey_returns [OF ks ok I(3) k(1-3)] k(4) by fastforce
  note A = ksAppendKey_ok [OF ks ok k(1-3) ap]
  have kl: "klist ks' = appended (heap s) a (klist ?ks)" by (rule klist_ok [OF A(1)])
  have "sys_inv \<lparr>heap = m', held = held s, sets = (sets s)[i := ks']\<rparr>"
    by (rule sys_inv_set [OF s A(4,5), of _ ?L ks'])
      (use A(1,2) kl set_dropAt i setRefs_update [OF i] in \<open>simp_all add: ac_simps\<close>)
  then show ?thesis using ap by (simp add: sys_eq)
qed

lemma call_Pop:
  assumes s: "sys_inv s" and l: "legal (KsPop i) s"
  shows "\<exists>s'. exec (KsPop i) s = Some s' \<and> sys_inv s'"
proof -
  note I = sys_invD [OF s]
  let ?L = "dropAt i (sets s)" and ?ks = "sets s ! i"
  have i: "i < length (sets s)" using l by simp
  have ks: "ks_ok (heap s) ?ks (klist ?ks)" using I(4) i by simp
  note r = ks_okD(1) [OF ks]
  have ok: "heap_ok (heap s) ((held s + setRefs ?L) + mset (klist ?ks))" using I(2) setRefs_split [OF i] by (simp add: ac_simps)
  show ?thesis
  proof (cases "klist ?ks" rule: rev_cases)
    case Nil
    let ?ks' = "?ks\<lparr>ks_flags := ks_flags ?ks OR KS_FLAG_SYNC\<rparr>"
    have r': "repr ?ks' []" using r Nil by (auto elim!: reprE intro!: reprI simp: slots_def)
    have p: "ksPop (heap s) ?ks = Some (None, heap s, ?ks')" using repr_size [OF r] Nil by (simp add: ksPop_def)
    have "sys_inv \<lparr>heap = heap s, held = held s, sets = (sets s)[i := ?ks']\<rparr>"
      by (rule sys_inv_set [OF s, of _ _ ?L ?ks'])
        (use r' ok Nil set_dropAt i setRefs_update [OF i] in \<open>simp_all add: kept_def ks_ok_def\<close>)
    then show ?thesis using p by (simp add: sys_eq)
  next
    case (snoc ys a)
    have e: "(held s + setRefs ?L) + mset (klist ?ks) = add_mset a (held s + setRefs ?L + mset ys)" using snoc by simp
    obtain m' where m': "decRef (heap s) a = Some m'" "heap_ok m' (held s + setRefs ?L + mset ys)" "frame (heap s) m'"
      "\<forall>b. keys (heap s) b \<noteq> None \<longrightarrow> keys m' b \<noteq> None"
      using heap_ok_decRef [OF ok [unfolded e]] by metis
    obtain ks' where p: "ksPop (heap s) ?ks = Some (Some a, m', ks')" "repr ks' ys"
      using ksPop_repr [OF r [unfolded snoc] m'(1)] by metis
    have "ks_ok (heap s) ks' ys" using ks_ok_sub [OF ks p(2)] ks_okD(3) [OF ks] snoc by (auto simp: sorted_wrt_append sorted_wrt_map)
    moreover have "keys m' b \<noteq> None" if "b \<in> set ys" for b
    proof -
      obtain kb where "keys (heap s) b = Some kb" using ks_okD(2) [OF ks, of b] snoc \<open>b \<in> set ys\<close> by auto
      then show ?thesis using m'(4) by auto
    qed
    ultimately have "ks_ok m' ks' ys" by (intro ks_ok_kept [OF _ I(2) m'(2) frame_kept [OF m'(3)] p(2)])
    then have "sys_inv \<lparr>heap = m', held = held s, sets = (sets s)[i := ks']\<rparr>"
      by (intro sys_inv_set [OF s frame_kept [OF m'(3)] frame_None [OF m'(3)], of _ ?L ks'])
        (use m'(2) p(2) set_dropAt i setRefs_update [OF i] in \<open>simp_all add: ac_simps\<close>)
    then show ?thesis using p(1) by (simp add: sys_eq)
  qed
qed

lemma call_KsDup:
  assumes s: "sys_inv s" and l: "legal (KsDup i) s"
  shows "\<exists>s'. exec (KsDup i) s = Some s' \<and> sys_inv s'"
proof -
  note I = sys_invD [OF s]
  let ?ks = "sets s ! i"
  have i: "i < length (sets s)" using l by simp
  have ks: "ks_ok (heap s) ?ks (klist ?ks)" using I(4) i by simp
  have "appendable (heap s) a" if a: "a \<in> set (klist ?ks)" for a
  proof -
    obtain k where "keys (heap s) a = Some k" "key k \<noteq> None" using ks_okD(2) [OF ks a] by blast
    moreover have "refs (heap s) a < SSIZE_MAX" using l a by simp
    ultimately show ?thesis by (simp add: appendable_def refs_def)
  qed
  then obtain m' ks' where D: "ksDup (heap s) (Some ?ks) = Some (Some ks', m')" "ks_ok m' ks' (klist ?ks)"
    "heap_ok m' (held s + setRefs (sets s) + mset (klist ?ks))" "kept (heap s) m'" "\<forall>b. keys m' b = None \<longleftrightarrow> keys (heap s) b = None"
    using ksDup_ok [OF ks I(2)] by metis
  have kl: "klist ks' = klist ?ks" by (rule klist_ok [OF D(2)])
  have "sys_inv \<lparr>heap = m', held = held s, sets = sets s @ [ks']\<rparr>"
    by (rule sys_inv_set [OF s D(4), of _ "sets s" ks']) (use D(2,3,5) kl in \<open>simp_all add: ac_simps\<close>)
  then show ?thesis using D(1) by (simp add: sys_eq)
qed

lemma call_KsDel:
  assumes s: "sys_inv s" and l: "legal (KsDel i) s"
  shows "\<exists>s'. exec (KsDel i) s = Some s' \<and> sys_inv s'"
proof -
  note I = sys_invD [OF s]
  let ?L = "dropAt i (sets s)" and ?ks = "sets s ! i"
  have i: "i < length (sets s)" using l by simp
  have ks: "ks_ok (heap s) ?ks (klist ?ks)" using I(4) i by simp
  have ok: "heap_ok (heap s) ((held s + setRefs ?L) + mset (klist ?ks))" using I(2) setRefs_split [OF i] by (simp add: ac_simps)
  obtain m' where c: "closeLoop keyDelMem (heap s) (klist ?ks) = Some m'" "heap_ok m' (held s + setRefs ?L)" "frame (heap s) m'"
    using closeLoop_frees [OF ok I(3)] by blast
  have "ksDel (heap s) (Some ?ks) = Some (0, m')"
    using c(1) ptrs_repr [OF ks_okD(1) [OF ks]] by (simp add: ksDel_def ksClose_def ksCloseWith_def)
  moreover have "sys_inv \<lparr>heap = m', held = held s, sets = ?L\<rparr>"
    by (rule sys_inv_kept [OF s frame_kept [OF c(3)] frame_None [OF c(3)] c(2) set_dropAt(1)])
  ultimately show ?thesis by (simp add: sys_eq)
qed

lemma sys_inv_alloc:
  assumes s: "sys_inv s" and iv: "inv m' (held s + setRefs (sets s))" and k: "kept (heap s) m'"
  shows "sys_inv \<lparr>heap = m', held = held s, sets = sets s\<rparr>"
proof -
  note I = sys_invD [OF s]
  have "heap_ok m' (held s + setRefs (sets s))" using iv by (simp add: inv_def)
  then show ?thesis using other_sets [OF I(4,2) _ k] iv by (simp add: sys_inv_def)
qed

lemma call_New:
  assumes s: "sys_inv s" and l: "legal (KeyNew r rest) s"
  shows "\<exists>s'. exec (KeyNew r rest) s = Some s' \<and> sys_inv s'"
proof -
  note I = sys_invD [OF s]
  obtain m' k' where m': "keyNew (heap s) (Some (root_name r @ SLASH # rest)) [] = Some (fresh (heap s), m')"
    "inv m' (held s + setRefs (sets s))" "keys (heap s) (fresh (heap s)) = None" "keys m' = (keys (heap s))(fresh (heap s) \<mapsto> k')"
    using keyNew_ok [OF I(1), of r rest] l by auto
  have "kept (heap s) m'" using m'(3,4) by (auto simp: kept_def)
  then have "sys_inv \<lparr>heap = m', held = held s, sets = sets s\<rparr>" by (rule sys_inv_alloc [OF s m'(2)])
  then show ?thesis using m'(1) by (simp add: sys_eq)
qed

lemma call_Dup:
  assumes s: "sys_inv s" and l: "legal (KeyDup a) s"
  shows "\<exists>s'. exec (KeyDup a) s = Some s' \<and> sys_inv s'"
proof -
  note I = sys_invD [OF s]
  obtain k where k: "keys (heap s) a = Some k" "\<forall>b \<in> set (mlist k). refs (heap s) b < SSIZE_MAX" using l by auto
  have "\<forall>b \<in> set (mlist k). \<forall>kb. keys (heap s) b = Some kb \<longrightarrow> ksReference kb < SSIZE_MAX" using k(2) by (auto simp: refs_def)
  then obtain m' where m': "keyDup (heap s) (Some a) = Some (Some (fresh (heap s)), m')" "inv m' (held s + setRefs (sets s))" "kept (heap s) m'"
    using keyDup_ok [OF I(1) k(1)] by blast
  then show ?thesis using sys_inv_alloc [OF s m'(2,3)] by (simp add: sys_eq)
qed

lemma sys_inv_upto:
  assumes s: "sys_inv s" and iv: "inv m' (held s + setRefs (sets s))" and up: "upto {a, fresh (heap s)} (heap s) m'" and na: "a \<notin># metaRefs (heap s)"
    and a: "keys (heap s) a = Some k" "keys m' a = Some k'" "uname k' = uname k" "key k' = key k" "metaData m' a ''owner'' = metaData (heap s) a ''owner''"
  shows "sys_inv \<lparr>heap = m', held = held s, sets = sets s\<rparr>"
  using other_sets_upto [OF sys_invD(4,1) [OF s] iv up na a] iv by (simp add: sys_inv_def)

lemma call_SetMeta:
  assumes s: "sys_inv s" and l: "legal (KeySetMeta a n v) s"
  shows "\<exists>s'. exec (KeySetMeta a n v) s = Some s' \<and> sys_inv s'"
proof -
  note I = sys_invD [OF s]
  obtain k where k: "keys (heap s) a = Some k" "flags k AND KEY_FLAG_RO_META = 0" and w: "a \<notin># metaRefs (heap s)" "fresh (heap s) < SSIZE_MAX"
    and n: "mname n" "munique ''owner'' \<noteq> munique n"
    using l by (auto simp: writable_def)
  obtain r m' k' where m': "keySetMeta (heap s) (Some a) (Some n) v = Some (r, m')" "inv m' (held s + setRefs (sets s))" "keys m' a = Some k'"
    "core (k'\<lparr>meta := None\<rparr>) = core (k\<lparr>meta := None\<rparr>)" "metaData m' a ''owner'' = metaData (heap s) a ''owner''" "upto {a, fresh (heap s)} (heap s) m'"
  proof (cases v)
    case None
    obtain m' k' where x: "keySetMeta (heap s) (Some a) (Some n) None = Some (0, m')" "inv m' (held s + setRefs (sets s))" "keys m' a = Some k'"
      "core (k'\<lparr>meta := None\<rparr>) = core (k\<lparr>meta := None\<rparr>)" "a \<notin># metaRefs m'" "metaData m' a n = None"
      "\<forall>n'. mname n' \<longrightarrow> munique n' \<noteq> munique n \<longrightarrow> metaData m' a n' = metaData (heap s) a n'" "upto {a, fresh (heap s)} (heap s) m'"
      by (rule keySetMeta_unset [OF I(1) k w(1) n(1) w(2)])
    show thesis by (rule that [OF _ x(2-4) _ x(8)]) (use x(1,7) None n(2) owner_mname in simp_all)
  next
    case (Some v')
    obtain m' k' where x: "keySetMeta (heap s) (Some a) (Some n) (Some v') = Some (int (elektraStrLen v'), m')" "inv m' (held s + setRefs (sets s))"
      "keys m' a = Some k'" "core (k'\<lparr>meta := None\<rparr>) = core (k\<lparr>meta := None\<rparr>)" "a \<notin># metaRefs m'" "metaData m' a n = Some (Some (v' @ [NUL]))"
      "\<forall>n'. mname n' \<longrightarrow> munique n' \<noteq> munique n \<longrightarrow> metaData m' a n' = metaData (heap s) a n'" "upto {a, fresh (heap s)} (heap s) m'"
      by (rule keySetMeta_set [OF I(1) k w(1) n(1) w(2)])
    show thesis by (rule that [OF _ x(2-4) _ x(8)]) (use x(1,7) Some n(2) owner_mname in simp_all)
  qed
  have "uname k' = uname k" "key k' = key k" using core_key [OF m'(4)] by simp_all
  then have "sys_inv \<lparr>heap = m', held = held s, sets = sets s\<rparr>" by (rule sys_inv_upto [OF s m'(2,6) w(1) k(1) m'(3) _ _ m'(5)])
  then show ?thesis using m'(1) by (simp add: sys_eq)
qed

lemma binary_not_owner: "munique ''owner'' \<noteq> munique ''binary''"
  by code_simp

lemma call_SetString:
  assumes s: "sys_inv s" and l: "legal (KeySetString a v) s"
  shows "\<exists>s'. exec (KeySetString a v) s = Some s' \<and> sys_inv s'"
proof -
  note I = sys_invD [OF s]
  obtain k where k: "keys (heap s) a = Some k" "flags k AND KEY_FLAG_RO_META = 0" "flags k AND KEY_FLAG_RO_VALUE = 0"
    and w: "a \<notin># metaRefs (heap s)" "fresh (heap s) < SSIZE_MAX" "cstring v"
    using l by (auto simp: writable_def)
  obtain m' k' where m': "keySetString (heap s) (Some a) (Some v) = Some (int (length v) + 1, m')" "inv m' (held s + setRefs (sets s))" "keys m' a = Some k'"
    "key k' = key k" "uname k' = uname k" "metaData m' a ''owner'' = metaData (heap s) a ''owner''" "upto {a, fresh (heap s)} (heap s) m'"
    using keySetString_ok [OF I(1) k w] owner_mname binary_not_owner by blast
  have "sys_inv \<lparr>heap = m', held = held s, sets = sets s\<rparr>" by (rule sys_inv_upto [OF s m'(2,7) w(1) k(1) m'(3,5,4,6)])
  then show ?thesis using m'(1) by (simp add: sys_eq)
qed

lemma legal_call: "sys_inv s \<Longrightarrow> legal c s \<Longrightarrow> \<exists>s'. exec c s = Some s' \<and> sys_inv s'"
  by (cases c) (simp_all only: call_New call_Dup call_IncRef call_DecRef call_Del call_SetMeta call_SetString call_KsNew call_Append call_Pop call_KsDup call_KsDel)

lemma start_inv: "sys_inv start"
proof -
  have "metaRefs (heap start) = {#}" by (simp add: start_def metaRefs_def)
  then show ?thesis by (simp add: sys_inv_def start_def inv_def heap_ok_def flat_def refs_def)
qed

lemma reachable_inv: "reachable s \<Longrightarrow> sys_inv s"
  by (induction rule: reachable.induct) (use start_inv legal_call in fastforce)+

section \<open>Properties\<close>

text \<open>C3: whatever a correct program does, in every state it can reach the keysets are sorted without two keys of one name and
  owner, every key of a keyset and every key the program holds exists, and every reference counter is exactly the number of references
  from keysets, from metadata and from the program.\<close>

theorem no_dangling_keys:
  assumes "reachable s"
  shows "(\<forall>ks \<in> set (sets s). ks_ok (heap s) ks (klist ks) \<and> (\<forall>a \<in> set (klist ks). keys (heap s) a \<noteq> None))
     \<and> (\<forall>a. a \<in># held s \<longrightarrow> keys (heap s) a \<noteq> None)
     \<and> (\<forall>a. refs (heap s) a = count (metaRefs (heap s)) a + count (held s) a + count (setRefs (sets s)) a)"
proof -
  note I = sys_invD [OF reachable_inv [OF assms]]
  have live: "keys (heap s) a \<noteq> None" if "a \<in># held s + setRefs (sets s)" for a
    using heap_ok_live [OF I(2), of a] that by auto
  show ?thesis
  proof (intro conjI ballI allI impI)
    fix ks assume ks: "ks \<in> set (sets s)"
    then show "ks_ok (heap s) ks (klist ks)" using I(4) by blast
    show "keys (heap s) a \<noteq> None" if "a \<in> set (klist ks)" for a using live setRefs_mem [OF ks that] by simp
  next
    show "keys (heap s) a \<noteq> None" if "a \<in># held s" for a using live that by simp
    show "refs (heap s) a = count (metaRefs (heap s)) a + count (held s) a + count (setRefs (sets s)) a" for a
      using heap_okD(3) [OF I(2), of a] by simp
  qed
qed

definition exSys :: sys where
  "exSys = start\<lparr>sets := [ksRewind (ksVNewEmpty 0)]\<rparr>"

lemma exSys_reachable: "reachable exSys"
proof (rule reachable_call [OF reachable_start])
  show "legal (KsNew 0) start" by simp
  show "exec (KsNew 0) start = Some exSys" by (simp add: ksNew_def ksVNew_def start_def exSys_def)
qed

theorem no_dangling_keys_witness:
  "ks_ok (heap exSys) (sets exSys ! 0) (klist (sets exSys ! 0)) \<and> refs (heap exSys) 0 = count (setRefs (sets exSys)) 0"
proof -
  have "sets exSys ! 0 \<in> set (sets exSys)" by (simp add: exSys_def)
  moreover have "metaRefs (heap exSys) = {#}" "held exSys = {#}" using start_inv
    by (simp_all add: exSys_def start_def metaRefs_def)
  ultimately show ?thesis using no_dangling_keys [OF exSys_reachable] by simp
qed

text \<open>C4: in every reachable state every legal call returns, without an access outside the memory the program and the library own,
  so a program can always go on.\<close>

theorem calls_return:
  assumes "reachable s" "legal c s"
  shows "\<exists>s'. exec c s = Some s' \<and> reachable s'"
proof -
  obtain s' where "exec c s = Some s'" using legal_call [OF reachable_inv [OF assms(1)] assms(2)] by blast
  then show ?thesis using reachable_call [OF assms] by blast
qed

theorem calls_return_witness: "\<exists>s'. exec (KeyNew (Some ''user'') ''a'') exSys = Some s' \<and> reachable s'"
proof (rule calls_return [OF exSys_reachable])
  have "''a'' \<noteq> replicate n BSL" for n by (cases n) simp_all
  then show "legal (KeyNew (Some ''user'') ''a'') exSys" by (simp add: plain_roots_def cstring_def)
qed

end
