(* ===== verification/KeyRelation.thy ===== *)
theory KeyRelation
  imports KsLookup
begin

text \<open>
  Comparing keys, the rest of \<open>src/libs/elektra/keytest.c\<close>: the relation of two keys in the hierarchy, the comparison of
  all their parts and that of their metadata. The latter walks through the metadata with the cursors
  of the two metadata keysets, which it moves.
\<close>

section \<open>The operations\<close>

definition keyRel :: "mem \<Rightarrow> Key option \<Rightarrow> Key option \<Rightarrow> int option" where
  "keyRel m ko co = (case (ko, co) of
     (Some k, Some c) \<Rightarrow>
       if key k = None \<or> key c = None then Some (-1)
       else if keyCmp m ko co = 0 then Some 0
       else do {
         d \<leftarrow> keyIsDirectBelow ko co;
         if d \<noteq> 0 then Some 1
         else do {
           b \<leftarrow> keyIsBelow ko co;
           Some (if b \<noteq> 0 then 2
                 else if keyIsUser ko \<noteq> 0 \<and> keyIsUser co \<noteq> 0 then -3
                 else if keyIsSystem ko \<noteq> 0 \<and> keyIsSystem co \<noteq> 0 then -3
                 else -2) } }
   | _ \<Rightarrow> Some (-1))"

type_synonym keyswitch_t = "32 word"

abbreviation KEY_NAME :: keyswitch_t where "KEY_NAME \<equiv> 1"
abbreviation KEY_VALUE :: keyswitch_t where "KEY_VALUE \<equiv> 2"
abbreviation KEY_OWNER :: keyswitch_t where "KEY_OWNER \<equiv> 4"
abbreviation KEY_COMMENT :: keyswitch_t where "KEY_COMMENT \<equiv> 8"
abbreviation KEY_META :: keyswitch_t where "KEY_META \<equiv> 0x8000"
abbreviation KEY_NULL :: keyswitch_t where "KEY_NULL \<equiv> 0x10000"

text \<open>The loop over the metadata; the first argument is more than the number of metadata keys of \<open>key1\<close>.\<close>

fun compareMetaLoop :: "nat \<Rightarrow> mem \<Rightarrow> addr option \<Rightarrow> addr option \<Rightarrow> (keyswitch_t \<times> mem) option" where
  "compareMetaLoop 0 m key1 key2 = None"
| "compareMetaLoop (Suc n) m key1 key2 = do {
     (meta1, m1) \<leftarrow> keyNextMeta m key1;
     case meta1 of None \<Rightarrow> Some (0, m1)
     | Some x1 \<Rightarrow> do {
         (meta2, m2) \<leftarrow> keyNextMeta m1 key2;
         case meta2 of None \<Rightarrow> Some (KEY_META, m2)
         | Some x2 \<Rightarrow> do {
             y1 \<leftarrow> keys m2 x1;
             y2 \<leftarrow> keys m2 x2;
             n1 \<leftarrow> keyName (Some y1);
             n2 \<leftarrow> keyName (Some y2);
             if strcmp n1 n2 \<noteq> 0 then Some (KEY_META, m2)
             else if strcmp (keyString m2 (Some y1)) (keyString m2 (Some y2)) \<noteq> 0 then Some (KEY_META, m2)
             else compareMetaLoop n m2 key1 key2 } } }"

definition keyCompareMeta :: "mem \<Rightarrow> addr option \<Rightarrow> addr option \<Rightarrow> (keyswitch_t \<times> mem) option" where
  "keyCompareMeta m key1 key2 = do {
     (_, m1) \<leftarrow> keyRewindMeta m key1;
     (_, m2) \<leftarrow> keyRewindMeta m1 key2;
     compareMetaLoop (case key1 of None \<Rightarrow> 1 | Some a \<Rightarrow> (case keys m a of None \<Rightarrow> 1 | Some k \<Rightarrow> Suc (length (mlist k)))) m2 key1 key2 }"

definition keyCompare :: "mem \<Rightarrow> addr option \<Rightarrow> addr option \<Rightarrow> (keyswitch_t \<times> mem) option" where
  "keyCompare m key1 key2 = (case (key1, key2) of
     (None, None) \<Rightarrow> Some (0, m)
   | (Some a1, Some a2) \<Rightarrow> do {
       k1 \<leftarrow> keys m a1;
       k2 \<leftarrow> keys m a2;
       let nsize1 = keyGetNameSize (Some k1);
       let nsize2 = keyGetNameSize (Some k2);
       let name1 = keyName (Some k1);
       let name2 = keyName (Some k2);
       (comment1, m1) \<leftarrow> keyGetMeta m key1 (Some ''comment'');
       (comment2, m2) \<leftarrow> keyGetMeta m1 key2 (Some ''comment'');
       k1 \<leftarrow> keys m2 a1;
       k2 \<leftarrow> keys m2 a2;
       owner1 \<leftarrow> keyOwner m2 (Some k1);
       owner2 \<leftarrow> keyOwner m2 (Some k2);
       let value1 = keyValue m2 (Some k1);
       let value2 = keyValue m2 (Some k2);
       let size1 = keyGetValueSize m2 (Some k1);
       let size2 = keyGetValueSize m2 (Some k2);
       let comment = (strcmp (keyString m2 (Option.bind comment1 (keys m2))) (keyString m2 (Option.bind comment2 (keys m2))) \<noteq> 0);
       (r, m3) \<leftarrow> keyCompareMeta m2 key1 key2;
       let name = (nsize1 \<noteq> nsize2 \<or> name1 = None \<or> name2 = None \<or> strcmp (the name1) (the name2) \<noteq> 0);
       let val = (size1 \<noteq> size2 \<or> value1 = None \<or> value2 = None \<or> memcmp (the value1) (the value2) (nat size1) \<noteq> 0);
       Some ((if comment then KEY_COMMENT else 0) OR (if strcmp owner1 owner2 \<noteq> 0 then KEY_OWNER else 0)
         OR (if r \<noteq> 0 then KEY_META else 0) OR (if name then KEY_NAME else 0) OR (if val then KEY_VALUE else 0), m3) }
   | _ \<Rightarrow> Some (KEY_NULL, m))"

section \<open>Walking through metadata\<close>

text \<open>Memory up to the cursors of metadata, which comparing two keys moves.\<close>

definition rewound :: "mem \<Rightarrow> addr \<Rightarrow> Key option" where
  "rewound m b = map_option (\<lambda>k. k\<lparr>meta := map_option ksRewind (meta k)\<rparr>) (keys m b)"

lemma rewound_store: "keys m a = Some k \<Longrightarrow> meta k = Some ks \<Longrightarrow> ksRewind ks' = ksRewind ks \<Longrightarrow>
  rewound (storeKey m a (k\<lparr>meta := Some ks'\<rparr>)) = rewound m"
  by (auto simp: rewound_def fun_eq_iff)

lemma rewoundD: "rewound m' = rewound m \<Longrightarrow> keys m a = Some k \<Longrightarrow>
  \<exists>k'. keys m' a = Some k' \<and> k'\<lparr>meta := map_option ksRewind (meta k')\<rparr> = k\<lparr>meta := map_option ksRewind (meta k)\<rparr>"
  by (auto simp: rewound_def fun_eq_iff dest: spec [of _ a])

lemma rewound_fields:
  assumes "k'\<lparr>meta := map_option ksRewind (meta k')\<rparr> = k\<lparr>meta := map_option ksRewind (meta k)\<rparr>"
  shows "key k' = key k" "uname k' = uname k" "data k' = data k" "dataSize k' = dataSize k" "keySize k' = keySize k" "keyUSize k' = keyUSize k"
    "meta k' = None \<longleftrightarrow> meta k = None"
  using assms by (cases k; cases k'; auto)+

text \<open>The metadata cursor of key \<open>a\<close> stands before the \<open>i\<close>-th of the keys \<open>xs\<close>.\<close>

definition metaAt :: "KeySet \<Rightarrow> addr list \<Rightarrow> nat \<Rightarrow> KeySet" where
  "metaAt ks xs i = (if i = 0 then ksRewind ks else ks\<lparr>cursor := Some (xs ! (i - 1)), current := i - 1\<rparr>)"

lemma metaAt_simps [simp]: "ksRewind (metaAt ks xs i) = ksRewind ks" "repr (metaAt ks xs i) ys = repr ks ys" "ks_size (metaAt ks xs i) = ks_size ks"
  by (simp_all add: metaAt_def ksRewind_def)

lemma ksNext_metaAt:
  assumes "repr ks xs"
  shows "i < length xs \<Longrightarrow> ksNext (metaAt ks xs i) = Some (Some (xs ! i), metaAt ks xs (Suc i))"
    "\<exists>ks'. ksNext (metaAt ks xs (length xs)) = Some (None, ks') \<and> ksRewind ks' = ksRewind ks"
proof -
  have r: "repr (metaAt ks xs i) xs" for i using assms by simp
  show "ksNext (metaAt ks xs i) = Some (Some (xs ! i), metaAt ks xs (Suc i))" if "i < length xs"
  proof (cases i)
    case 0
    then show ?thesis using ksNext_first [OF r [of 0], of "hd xs" "tl xs"] that by (cases xs) (simp_all add: metaAt_def ksRewind_def)
  next
    case (Suc j)
    then show ?thesis using ksNext_next [OF r [of i]] that by (simp add: metaAt_def)
  qed
  show "\<exists>ks'. ksNext (metaAt ks xs (length xs)) = Some (None, ks') \<and> ksRewind ks' = ksRewind ks"
  proof (cases "length xs")
    case 0
    then show ?thesis using repr_size [OF assms] by (simp add: ksNext_def)
  next
    case (Suc j)
    then show ?thesis using ksNext_last [OF r [of "length xs"]] by (simp add: metaAt_def ksRewind_def)
  qed
qed

definition metaPos :: "mem \<Rightarrow> addr \<Rightarrow> addr list \<Rightarrow> nat \<Rightarrow> bool" where
  "metaPos m a xs i \<longleftrightarrow> (\<exists>k. keys m a = Some k \<and>
     (case meta k of None \<Rightarrow> xs = [] \<and> i = 0 | Some ks' \<Rightarrow> \<exists>ks. repr ks xs \<and> ks' = metaAt ks xs i))"

lemma metaPos_other: "metaPos m a xs i \<Longrightarrow> keys m' a = keys m a \<Longrightarrow> metaPos m' a xs i"
  by (simp add: metaPos_def)

lemma keyRewindMeta_pos:
  assumes "keys m a = Some k" "\<And>ks. meta k = Some ks \<Longrightarrow> repr ks (mlist k)"
  obtains m' where "keyRewindMeta m (Some a) = Some (0, m')" "metaPos m' a (mlist k) 0" "\<forall>b. b \<noteq> a \<longrightarrow> keys m' b = keys m b" "rewound m' = rewound m"
proof (cases "meta k")
  case None
  then show thesis using that [of m] assms by (simp add: keyRewindMeta_def metaPos_def mlist_def)
next
  case (Some ks)
  then have r: "repr ks (mlist k)" by (rule assms(2))
  show thesis
  proof (rule that)
    show "keyRewindMeta m (Some a) = Some (0, storeKey m a (k\<lparr>meta := Some (ksRewind ks)\<rparr>))" using Some assms(1) by (simp add: keyRewindMeta_def)
    show "rewound (storeKey m a (k\<lparr>meta := Some (ksRewind ks)\<rparr>)) = rewound m"
      by (rule rewound_store [OF assms(1) Some]) (simp add: ksRewind_def)
    show "metaPos (storeKey m a (k\<lparr>meta := Some (ksRewind ks)\<rparr>)) a (mlist k) 0" using r by (auto simp: metaPos_def metaAt_def)
  qed simp
qed

lemma keyNextMeta_pos:
  assumes p: "metaPos m a xs i" and i: "i < length xs"
  obtains m' where "keyNextMeta m (Some a) = Some (Some (xs ! i), m')" "metaPos m' a xs (Suc i)" "\<forall>b. b \<noteq> a \<longrightarrow> keys m' b = keys m b" "rewound m' = rewound m"
proof -
  obtain k ks where k: "keys m a = Some k" "meta k = Some (metaAt ks xs i)" "repr ks xs"
    using p i by (auto simp: metaPos_def split: option.splits)
  let ?m = "storeKey m a (k\<lparr>meta := Some (metaAt ks xs (Suc i))\<rparr>)"
  show thesis
  proof (rule that)
    show "keyNextMeta m (Some a) = Some (Some (xs ! i), ?m)" using k ksNext_metaAt(1) [OF k(3) i] by (simp add: keyNextMeta_def)
    show "rewound ?m = rewound m" by (rule rewound_store [OF k(1,2)]) simp
    show "metaPos ?m a xs (Suc i)" using k(3) by (auto simp: metaPos_def)
  qed simp
qed

lemma keyNextMeta_end:
  assumes p: "metaPos m a xs (length xs)"
  obtains m' where "keyNextMeta m (Some a) = Some (None, m')" "\<forall>b. b \<noteq> a \<longrightarrow> keys m' b = keys m b" "rewound m' = rewound m"
proof -
  obtain k where k: "keys m a = Some k" and c: "case meta k of None \<Rightarrow> xs = [] \<and> length xs = 0 | Some ks' \<Rightarrow> \<exists>ks. repr ks xs \<and> ks' = metaAt ks xs (length xs)"
    using p by (auto simp: metaPos_def)
  show thesis
  proof (cases "meta k")
    case None
    then show thesis using that [of m] k by (simp add: keyNextMeta_def)
  next
    case (Some ks1)
    then obtain ks where ks: "repr ks xs" "ks1 = metaAt ks xs (length xs)" using c by auto
    obtain ks' where n: "ksNext ks1 = Some (None, ks')" "ksRewind ks' = ksRewind ks" using ksNext_metaAt(2) [OF ks(1)] ks(2) by auto
    have "rewound (storeKey m a (k\<lparr>meta := Some ks'\<rparr>)) = rewound m"
      by (rule rewound_store [OF k Some]) (simp add: n(2) ks(2))
    then show thesis using that [of "storeKey m a (k\<lparr>meta := Some ks'\<rparr>)"] k Some n by (simp add: keyNextMeta_def)
  qed
qed


text \<open>The name and the string of a metadata key.\<close>

definition metaEntry :: "mem \<Rightarrow> addr \<Rightarrow> string \<times> string" where
  "metaEntry m b = (the (keyName (keys m b)), keyString m (keys m b))"

definition metaEntries :: "mem \<Rightarrow> addr \<Rightarrow> (string \<times> string) list" where
  "metaEntries m a = map (metaEntry m) (mlist (the (keys m a)))"

lemma keyString_leaf: "meta k = None \<Longrightarrow> keyString m (Some k) = (case data k of None \<Rightarrow> [] | Some d \<Rightarrow> upto_nul d)"
  by (simp add: keyString_def keyIsBinary_def metaFind_def split: option.split)

lemma metaEntry_rewound:
  assumes l: "leafs m xs" "b \<in> set xs" and r: "rewound m' = rewound m"
  obtains y where "keys m' b = Some y" "keyName (Some y) = Some (fst (metaEntry m b))" "keyString m' (Some y) = snd (metaEntry m b)"
proof -
  obtain k where k: "keys m b = Some k" "meta k = None" using leafsD [OF l] by blast
  obtain y where y: "keys m' b = Some y" "y\<lparr>meta := map_option ksRewind (meta y)\<rparr> = k\<lparr>meta := map_option ksRewind (meta k)\<rparr>"
    using rewoundD [OF r k(1)] by blast
  note f = rewound_fields [OF y(2)]
  then have "meta y = None" using k(2) by simp
  then show thesis using that [OF y(1)] f k by (simp add: metaEntry_def keyString_leaf keyName_def split: option.splits)
qed

lemma prefix_drop_step:
  assumes "i < length xs" "i < length ys"
  shows "prefix (drop i xs) (drop i ys) \<longleftrightarrow> xs ! i = ys ! i \<and> prefix (drop (Suc i) xs) (drop (Suc i) ys)"
  using assms by (simp add: Cons_nth_drop_Suc [symmetric])

lemma compareMetaLoop_pos:
  assumes "a \<noteq> b" "leafs m0 xs" "leafs m0 ys"
  shows "metaPos m a xs i \<Longrightarrow> metaPos m b ys i \<Longrightarrow> i \<le> length xs \<Longrightarrow> i \<le> length ys \<Longrightarrow> length xs - i < n \<Longrightarrow> rewound m = rewound m0 \<Longrightarrow>
    \<exists>m'. compareMetaLoop n m (Some a) (Some b)
        = Some (if prefix (drop i (map (metaEntry m0) xs)) (drop i (map (metaEntry m0) ys)) then 0 else KEY_META, m') \<and> rewound m' = rewound m0"
proof (induction n arbitrary: i m)
  case 0
  then show ?case by simp
next
  case (Suc n)
  show ?case
  proof (cases "i < length xs")
    case False
    then have i: "i = length xs" using Suc.prems by simp
    obtain m1 where "keyNextMeta m (Some a) = Some (None, m1)" "rewound m1 = rewound m"
      by (rule keyNextMeta_end [OF Suc.prems(1) [unfolded i]])
    then show ?thesis using i Suc.prems(6) by simp
  next
    case ix: True
    obtain m1 where m1: "keyNextMeta m (Some a) = Some (Some (xs ! i), m1)" "metaPos m1 a xs (Suc i)" "\<forall>c. c \<noteq> a \<longrightarrow> keys m1 c = keys m c" "rewound m1 = rewound m"
      by (rule keyNextMeta_pos [OF Suc.prems(1) ix])
    have pb: "metaPos m1 b ys i" by (rule metaPos_other [OF Suc.prems(2)]) (use m1(3) assms(1) in simp)
    show ?thesis
    proof (cases "i < length ys")
      case False
      then have i: "i = length ys" using Suc.prems by simp
      obtain m2 where "keyNextMeta m1 (Some b) = Some (None, m2)" "rewound m2 = rewound m1"
        by (rule keyNextMeta_end [OF pb [unfolded i]])
      then show ?thesis using i ix m1 Suc.prems(6) by simp
    next
      case iy: True
      obtain m2 where m2: "keyNextMeta m1 (Some b) = Some (Some (ys ! i), m2)" "metaPos m2 b ys (Suc i)" "\<forall>c. c \<noteq> b \<longrightarrow> keys m2 c = keys m1 c" "rewound m2 = rewound m1"
        by (rule keyNextMeta_pos [OF pb iy])
      have pa: "metaPos m2 a xs (Suc i)" by (rule metaPos_other [OF m1(2)]) (use m2(3) assms(1) in simp)
      have r: "rewound m2 = rewound m0" using m1(4) m2(4) Suc.prems(6) by simp
      have "xs ! i \<in> set xs" "ys ! i \<in> set ys" using ix iy by simp_all
      note mem = this
      obtain y1 where y1: "keys m2 (xs ! i) = Some y1" "keyName (Some y1) = Some (fst (metaEntry m0 (xs ! i)))" "keyString m2 (Some y1) = snd (metaEntry m0 (xs ! i))"
        by (rule metaEntry_rewound [OF assms(2) mem(1) r])
      obtain y2 where y2: "keys m2 (ys ! i) = Some y2" "keyName (Some y2) = Some (fst (metaEntry m0 (ys ! i)))" "keyString m2 (Some y2) = snd (metaEntry m0 (ys ! i))"
        by (rule metaEntry_rewound [OF assms(3) mem(2) r])
      have IH: "\<exists>m'. compareMetaLoop n m2 (Some a) (Some b)
        = Some (if prefix (drop (Suc i) (map (metaEntry m0) xs)) (drop (Suc i) (map (metaEntry m0) ys)) then 0 else KEY_META, m') \<and> rewound m' = rewound m0"
        using ix iy Suc.prems(5) by (intro Suc.IH pa m2(2) r) auto
      have "prefix (drop i (map (metaEntry m0) xs)) (drop i (map (metaEntry m0) ys)) \<longleftrightarrow> metaEntry m0 (xs ! i) = metaEntry m0 (ys ! i)
         \<and> prefix (drop (Suc i) (map (metaEntry m0) xs)) (drop (Suc i) (map (metaEntry m0) ys))"
        using prefix_drop_step [of i "map (metaEntry m0) xs" "map (metaEntry m0) ys"] ix iy by simp
      then show ?thesis using m1(1) m2(1) y1 y2 IH r by (auto simp: prod_eq_iff)
    qed
  qed
qed

lemma mok_repr: "mok m k xs \<Longrightarrow> meta k = Some ks \<Longrightarrow> repr ks xs"
  using ks_okD(1) by (auto simp: mok_def)

lemma keyCompareMeta_ok:
  assumes iv: "inv m E" and ab: "keys m a = Some k1" "keys m b = Some k2" "a \<noteq> b"
  shows "\<exists>m'. keyCompareMeta m (Some a) (Some b) = Some (if prefix (metaEntries m a) (metaEntries m b) then 0 else KEY_META, m') \<and> rewound m' = rewound m"
proof -
  note mk1 = inv_mok [OF iv ab(1)] and mk2 = inv_mok [OF iv ab(2)]
  obtain m1 where m1: "keyRewindMeta m (Some a) = Some (0, m1)" "metaPos m1 a (mlist k1) 0" "\<forall>c. c \<noteq> a \<longrightarrow> keys m1 c = keys m c" "rewound m1 = rewound m"
    by (rule keyRewindMeta_pos [OF ab(1) mok_repr [OF mk1]])
  have k2: "keys m1 b = Some k2" using m1(3) ab by simp
  obtain m2 where m2: "keyRewindMeta m1 (Some b) = Some (0, m2)" "metaPos m2 b (mlist k2) 0" "\<forall>c. c \<noteq> b \<longrightarrow> keys m2 c = keys m1 c" "rewound m2 = rewound m1"
    by (rule keyRewindMeta_pos [OF k2 mok_repr [OF mk2]])
  have pa: "metaPos m2 a (mlist k1) 0" by (rule metaPos_other [OF m1(2)]) (use m2(3) ab(3) in simp)
  have l: "leafs m (mlist k1)" "leafs m (mlist k2)" using mk1 mk2 by (simp_all add: mok_def)
  obtain m' where "compareMetaLoop (Suc (length (mlist k1))) m2 (Some a) (Some b)
        = Some (if prefix (drop 0 (map (metaEntry m) (mlist k1))) (drop 0 (map (metaEntry m) (mlist k2))) then 0 else KEY_META, m')" "rewound m' = rewound m"
    using compareMetaLoop_pos [OF ab(3) l pa m2(2), of "Suc (length (mlist k1))"] m1(4) m2(4) by auto
  then show ?thesis using m1(1) m2(1) ab by (simp add: keyCompareMeta_def metaEntries_def del: compareMetaLoop.simps)
qed


text \<open>The cursor is one for both arguments if they are the same key.\<close>

lemma keyCompareMeta_self:
  assumes iv: "inv m E" and a: "keys m a = Some k" and d: "distinct (map fst (metaEntries m a))"
  shows "\<exists>m'. keyCompareMeta m (Some a) (Some a) = Some (if mlist k = [] then 0 else KEY_META, m') \<and> rewound m' = rewound m"
proof -
  note mk = inv_mok [OF iv a]
  obtain m1 where m1: "keyRewindMeta m (Some a) = Some (0, m1)" "metaPos m1 a (mlist k) 0" "rewound m1 = rewound m"
    by (rule keyRewindMeta_pos [OF a mok_repr [OF mk]])
  obtain k1 where k1: "keys m1 a = Some k1"
      and c: "case meta k1 of None \<Rightarrow> mlist k = [] | Some ks' \<Rightarrow> \<exists>ks. repr ks (mlist k) \<and> ks' = metaAt ks (mlist k) 0"
    using m1(2) by (auto simp: metaPos_def split: option.splits)
  have ml: "meta k1 = Some ks \<Longrightarrow> repr ks (mlist k1) \<and> mlist k1 = mlist k" for ks
    using c mlist_repr [of k1 ks "mlist k"] by auto
  have "mlist k1 = mlist k" using ml c by (cases "meta k1") (auto simp: mlist_def)
  obtain m2 where m2: "keyRewindMeta m1 (Some a) = Some (0, m2)" "metaPos m2 a (mlist k) 0" "rewound m2 = rewound m1"
    by (rule keyRewindMeta_pos [OF k1, unfolded \<open>mlist k1 = mlist k\<close>]) (use ml in auto)
  have l: "leafs m (mlist k)" using mk by (simp add: mok_def)
  have r2: "rewound m2 = rewound m" using m1 m2 by simp
  have "\<exists>m'. compareMetaLoop (Suc (length (mlist k))) m2 (Some a) (Some a) = Some (if mlist k = [] then 0 else KEY_META, m') \<and> rewound m' = rewound m"
  proof (cases "mlist k")
    case Nil
    then have p: "metaPos m2 a [] (length [])" using m2(2) by simp
    obtain m3 where "keyNextMeta m2 (Some a) = Some (None, m3)" "rewound m3 = rewound m2" by (rule keyNextMeta_end [OF p])
    then show ?thesis using Nil r2 by simp
  next
    case (Cons x ys)
    obtain m3 where m3: "keyNextMeta m2 (Some a) = Some (Some x, m3)" "metaPos m3 a (mlist k) (Suc 0)" "rewound m3 = rewound m2"
      by (rule keyNextMeta_pos [OF m2(2)]) (use Cons in auto)
    show ?thesis
    proof (cases ys)
      case Nil
      then have p: "metaPos m3 a (mlist k) (length (mlist k))" using m3(2) Cons by simp
      obtain m4 where "keyNextMeta m3 (Some a) = Some (None, m4)" "rewound m4 = rewound m3" by (rule keyNextMeta_end [OF p])
      then show ?thesis using m3 r2 Cons by simp
    next
      case (Cons y zs)
      then have ml: "mlist k = x # y # zs" using \<open>mlist k = x # ys\<close> by simp
      obtain m4 where m4: "keyNextMeta m3 (Some a) = Some (Some y, m4)" "rewound m4 = rewound m3"
        by (rule keyNextMeta_pos [OF m3(2)]) (use ml in auto)
      have r4: "rewound m4 = rewound m" using m4 m3 r2 by simp
      have mem: "x \<in> set (mlist k)" "y \<in> set (mlist k)" using ml by simp_all
      obtain y1 where y1: "keys m4 x = Some y1" "keyName (Some y1) = Some (fst (metaEntry m x))"
        by (rule metaEntry_rewound [OF l mem(1) r4])
      obtain y2 where y2: "keys m4 y = Some y2" "keyName (Some y2) = Some (fst (metaEntry m y))"
        by (rule metaEntry_rewound [OF l mem(2) r4])
      have "fst (metaEntry m x) \<noteq> fst (metaEntry m y)" using d a ml by (simp add: metaEntries_def)
      then show ?thesis using m3 m4 y1 y2 ml r4 by simp
    qed
  qed
  then show ?thesis using m1(1) m2(1) a by (simp add: keyCompareMeta_def del: compareMetaLoop.simps)
qed

section \<open>Comparing a key with its duplicate\<close>

text \<open>Moving the cursor of metadata inside its bounds keeps the invariant, and what is found by a name of metadata.\<close>

lemma inv_cursor:
  assumes iv: "inv m E" and k: "keys m a = Some k" "meta k = Some ks"
    and r: "ksRewind ks' = ksRewind ks" "cursor_in ks' (mlist k)"
  shows "inv (storeKey m a (k\<lparr>meta := Some ks'\<rparr>)) E"
proof -
  let ?k = "k\<lparr>meta := Some ks'\<rparr>" let ?m = "storeKey m a ?k"
  have ok: "heap_ok m E" "flat m" using iv by (simp_all add: inv_def)
  have mk: "mok m k (mlist k)" by (rule inv_mok [OF iv k(1)])
  have rk: "repr ks (mlist k)" by (rule mok_repr [OF mk k(2)])
  have rr: "repr ks' xs = repr ks xs" for xs
  proof -
    have "repr (ksRewind ks') xs = repr ks' xs" "repr (ksRewind ks) xs = repr ks xs" by (simp_all add: ksRewind_def)
    then show ?thesis using r(1) by simp
  qed
  then have rk': "repr ks' (mlist k)" using rk by simp
  note l = inv_leafs [OF iv k rk]
  have mp: "metaPtrs (Some ?k) = metaPtrs (Some k)" using metaPtrs_repr [of ?k ks' "mlist k"] metaPtrs_repr [of k ks "mlist k"] rk rk' k(2) by simp
  have wf: "wf_key ?k" using heap_okD(2) [OF ok(1) k(1)] rk' by (auto simp: wf_key_def sized_def)
  have ok': "heap_ok ?m E" by (rule heap_ok_store [OF ok(1) k(1) wf]) (simp only: mp, simp)
  have mr: "metaRefs ?m = metaRefs m"
    using metaRefs_upd [OF heap_okD(1) [OF ok(1) k(1)], of "Some ?k"] mp k(1) by (simp add: storeKey_def)
  have a: "a \<notin># metaRefs m" using ok(2) k unfolding flat_def by auto
  have fl: "flat ?m" using ok(2) a unfolding flat_def mr by auto
  have "ks_ok ?m ks (mlist k)"
  proof (rule ks_ok_leafs(1) [OF l(1,3)])
    fix b assume b: "b \<in> set (mlist k)"
    then have "b \<noteq> a" using l(4) a by auto
    moreover obtain kb where "keys m b = Some kb" using leafsD [OF l(3) b] by blast
    ultimately show "\<exists>k k'. keys m b = Some k \<and> keys ?m b = Some k' \<and> core k' = core k" by simp
  qed
  then have own: "ks_ok ?m ks' (mlist k)" using rr by (simp add: ks_ok_def)
  have dead: "keys m (fresh m) = None" using heap_okD(1) [OF ok(1), of "fresh m"] by (cases "keys m (fresh m)") auto
  have af: "fresh m \<noteq> a" using dead k(1) by auto
  show ?thesis
  proof (rule inv_transfer [OF iv ok' fl _ a dead])
    show "upto {a, fresh m} m ?m" by simp
    show "fresh m = a \<or> meta k1 = None" if "keys ?m (fresh m) = Some k1" for k1 using that dead af by simp
    fix k1 ks1 xs assume "keys ?m a = Some k1" "meta k1 = Some ks1" "repr ks1 xs"
    then have "k1 = ?k" "ks1 = ks'" "xs = mlist k" using rk' repr_unique by auto
    then show "ks_ok ?m ks1 xs \<and> cursor_in ks1 xs" using own r(2) by simp
  qed
qed

lemma keys_leaf:
  assumes l: "leafs m xs" and r: "rewound m' = rewound m" and b: "b \<in> set xs"
  shows "keys m' b = keys m b"
proof -
    obtain k where k: "keys m b = Some k" "meta k = None" using leafsD [OF l b] by blast
    obtain k' where k': "keys m' b = Some k'" "k'\<lparr>meta := map_option ksRewind (meta k')\<rparr> = k\<lparr>meta := map_option ksRewind (meta k)\<rparr>"
      using rewoundD [OF r k(1)] by blast
    have "meta k' = None" using rewound_fields(7) [OF k'(2)] k(2) by simp
    then have "k' = k" using k'(2) k(2) by (cases k; cases k') auto
    then show ?thesis using k k' by simp
qed

lemma load_leafs: "leafs m xs \<Longrightarrow> rewound m' = rewound m \<Longrightarrow> load m' xs = load m xs"
  unfolding load_def by (metis keys_leaf map_cong)

lemma metaFind_mlist:
  assumes "\<And>ks. meta k = Some ks \<Longrightarrow> repr ks xs" "mlist k = xs"
  shows "metaFind m k n = do { kk \<leftarrow> load m xs; _ \<leftarrow> key (metaKey n); i \<leftarrow> bsearch (keyCompareByName (metaKey n)) kk; Some (kk ! i) }"
proof (cases "meta k")
  case None
  then have "xs = []" using assms(2) by (simp add: mlist_def)
  then show ?thesis using None by (simp add: metaFind_def load_def bsearch_def bsearchLoop.simps split: Option.bind_splits)
next
  case (Some ks)
  then show ?thesis using ptrs_repr [OF assms(1)] by (simp add: metaFind_def)
qed

lemma ksRewind_repr: "ksRewind ks' = ksRewind ks \<Longrightarrow> repr ks' xs = repr ks xs" "ksRewind ks' = ksRewind ks \<Longrightarrow> ptrs ks' = ptrs ks"
  by (cases ks; cases ks'; simp add: ksRewind_def repr_def slots_def ptrs_def)+

lemma mlist_rewound:
  assumes "k'\<lparr>meta := map_option ksRewind (meta k')\<rparr> = k\<lparr>meta := map_option ksRewind (meta k)\<rparr>"
  shows "mlist k' = mlist k" "meta k' = Some ks' \<Longrightarrow> \<exists>ks. meta k = Some ks \<and> ksRewind ks' = ksRewind ks"
proof -
  have m: "map_option ksRewind (meta k') = map_option ksRewind (meta k)" using assms by (cases k; cases k') simp
  show "meta k' = Some ks' \<Longrightarrow> \<exists>ks. meta k = Some ks \<and> ksRewind ks' = ksRewind ks" for ks' using m by (cases "meta k") auto
  show "mlist k' = mlist k"
  proof (cases "meta k'")
    case None
    then show ?thesis using m by (simp add: mlist_def)
  next
    case (Some ks')
    then obtain ks where ks: "meta k = Some ks" "ksRewind ks' = ksRewind ks" using m by (cases "meta k") auto
    show ?thesis unfolding mlist_def Some ks(1) option.case ksRewind_repr(2) [OF ks(2)] by (rule refl)
  qed
qed

lemma metaFind_rewound:
  assumes mk: "mok m k (mlist k)" and r: "rewound m' = rewound m"
    and k: "k'\<lparr>meta := map_option ksRewind (meta k')\<rparr> = k\<lparr>meta := map_option ksRewind (meta k)\<rparr>"
  shows "metaFind m' k' n = metaFind m k n"
proof -
  have e: "metaFind m k n = do { kk \<leftarrow> load m (mlist k); _ \<leftarrow> key (metaKey n); i \<leftarrow> bsearch (keyCompareByName (metaKey n)) kk; Some (kk ! i) }"
    by (rule metaFind_mlist [OF mok_repr [OF mk]]) simp_all
  have "metaFind m' k' n = do { kk \<leftarrow> load m' (mlist k); _ \<leftarrow> key (metaKey n); i \<leftarrow> bsearch (keyCompareByName (metaKey n)) kk; Some (kk ! i) }"
  proof (rule metaFind_mlist [OF _ mlist_rewound(1) [OF k]])
    show "repr ks' (mlist k)" if "meta k' = Some ks'" for ks'
      using mlist_rewound(2) [OF k that] mok_repr [OF mk] ksRewind_repr(1) by metis
  qed
  moreover have "load m' (mlist k) = load m (mlist k)" using mk by (intro load_leafs [OF _ r]) (simp add: mok_def)
  ultimately show ?thesis using e by simp
qed

lemma keyGetMeta_ok:
  assumes iv: "inv m E" and k: "keys m a = Some k" and n: "mname n"
  shows "\<exists>p m'. keyGetMeta m (Some a) (Some n) = Some (p, m') \<and> rewound m' = rewound m \<and> Option.bind p (keys m') = metaFind m k n
    \<and> (\<forall>b. b \<noteq> a \<longrightarrow> keys m' b = keys m b) \<and> inv m' E \<and> (\<forall>x. p = Some x \<longrightarrow> x \<in> set (mlist k))"
proof (cases "meta k")
  case None
  then show ?thesis using k iv by (simp add: keyGetMeta_def metaFind_def)
next
  case (Some ks)
  have mk: "mok m k (mlist k)" by (rule inv_mok [OF iv k])
  then have ks: "ks_ok m ks (mlist k)" "cursor_in ks (mlist k)" "leafs m (mlist k)" using Some by (simp_all add: mok_def)
  have ok: "heap_ok m E" using iv by (simp add: inv_def)
  obtain s where s: "key (metaKey n) = Some s" "s \<noteq> []" "hd s \<noteq> SLASH" "sized (metaKey n)" using n by (rule mname_facts)
  note b = bsearch_name [OF ks(1,3) ok s(4)]
  let ?s = "bsearch (keyCompareByName (metaKey n)) (map (\<lambda>b. the (keys m b)) (mlist k))"
  have "metaFind m (metaKey n) ''callback'' = None" by (simp add: metaFind_def)
  moreover have "\<not> test_bit 0 KDB_O_WITHOWNER" "\<not> test_bit 0 KDB_O_NOCASE" "\<not> test_bit 0 KDB_O_POP" by (simp_all add: test_bit_def)
  ultimately have eq: "metaLookup m ks (metaKey n) 0 =
      (case ?s of Some i \<Rightarrow> do { ks' \<leftarrow> ksSetCursor ks (int i); Some (Some (mlist k ! i), m, ks') }
       | None \<Rightarrow> do { ks' \<leftarrow> ksSetCursor ks (ksGetCursor (Some ks)); Some (None, m, ks') })"
    using s b(2) ptrs_repr [OF ks_okD(1) [OF ks(1)]]
    by (cases ?s) (simp_all add: metaLookup_def elektraLookupBinarySearch_def Let_def)
  have mf: "metaFind m k n = (case ?s of None \<Rightarrow> None | Some i \<Rightarrow> Some (map (\<lambda>b. the (keys m b)) (mlist k) ! i))"
    using Some ptrs_repr [OF ks_okD(1) [OF ks(1)]] b(2) s(1) by (simp add: metaFind_def split: option.split)
  have rw: "rewound (storeKey m a (k\<lparr>meta := Some ks'\<rparr>)) = rewound m" if "ksRewind ks' = ksRewind ks" for ks'
    by (rule rewound_store [OF k Some that])
  note ic = inv_cursor [OF iv k Some]
  show ?thesis
  proof (cases ?s)
    case None
    obtain ks' where ks': "ksSetCursor ks (ksGetCursor (Some ks)) = Some ks'" "cursor_in ks' (mlist k)"
      by (rule ksSetCursor_get [OF ks_okD(1) [OF ks(1)] ks(2)])
    from ks'(1) have "ksRewind ks' = ksRewind ks" by (auto simp: ksSetCursor_def ksRewind_def split: if_splits)
    then show ?thesis using k Some eq None ks'(1) mf rw ic [OF _ ks'(2)] by (auto simp: keyGetMeta_def)
  next
    case sm: (Some i)
    then have i: "i < length (mlist k)" using b(1) by blast
    then have c: "ksSetCursor ks (int i) = Some (ks\<lparr>current := i, cursor := Some (mlist k ! i)\<rparr>)"
      using rdArr_repr [OF ks_okD(1) [OF ks(1)] i] by (simp add: ksSetCursor_def)
    obtain kb where kb: "keys m (mlist k ! i) = Some kb" "meta kb = None" using leafsD [OF ks(3) nth_mem [OF i]] by blast
    then have "mlist k ! i \<noteq> a" using k Some by auto
    moreover have "cursor_in (ks\<lparr>current := i, cursor := Some (mlist k ! i)\<rparr>) (mlist k)" using i by (simp add: cursor_in_def)
    moreover have "ksRewind (ks\<lparr>current := i, cursor := Some (mlist k ! i)\<rparr>) = ksRewind ks" by (simp add: ksRewind_def)
    ultimately show ?thesis using k Some eq sm c mf rw kb i ic by (auto simp: keyGetMeta_def)
  qed
qed


lemma metaFind_leaf: "mok m k xs \<Longrightarrow> metaFind m k n = Some y \<Longrightarrow> meta y = None"
proof -
  assume mk: "mok m k xs" and f: "metaFind m k n = Some y"
  have xs: "mlist k = xs" "leafs m xs" using mk by (simp_all add: mok_def)
  obtain kk i where kk: "load m xs = Some kk" "bsearch (keyCompareByName (metaKey n)) kk = Some i" "y = kk ! i"
    using f metaFind_mlist [OF mok_repr [OF mk] xs(1), of m n] by (auto split: Option.bind_splits)
  have "i < length kk" using bsearch_bound [OF kk(2)] by simp
  moreover have "kk = map (\<lambda>b. the (keys m b)) xs" using load_live [of xs m] leafsD [OF xs(2)] kk(1) by force
  ultimately show ?thesis using kk(3) leafsD [OF xs(2), of "xs ! i"] by force
qed

lemma leaf_value: "meta y = None \<Longrightarrow> keyValue m (Some y) = Some (case data y of None \<Rightarrow> [NUL] | Some d \<Rightarrow> d)"
    "meta y = None \<Longrightarrow> keyString m (Some y) = (case data y of None \<Rightarrow> [] | Some d \<Rightarrow> upto_nul d)"
  by (simp_all add: keyValue_def keyIsBinary_def keyString_def metaFind_def split: option.split)

lemma found_value:
  assumes mk: "mok m k (mlist k)" and r: "rewound m' = rewound m"
    and k: "k'\<lparr>meta := map_option ksRewind (meta k')\<rparr> = k\<lparr>meta := map_option ksRewind (meta k)\<rparr>"
  shows "keyValue m' (metaFind m' k' n) = keyValue m (metaFind m k n)"
  using metaFind_leaf [OF mk, of n] unfolding metaFind_rewound [OF assms]
  by (cases "metaFind m k n") (simp_all add: leaf_value, simp add: keyValue_def)

lemma found_string: "mok m k (mlist k) \<Longrightarrow> keyString m' (metaFind m k n) = keyString m (metaFind m k n)"
  using metaFind_leaf [of m k "mlist k" n] by (cases "metaFind m k n") (simp_all add: leaf_value, simp add: keyString_def)

lemma metaEntries_rewound:
  assumes k: "keys m a = Some k" and mk: "mok m k (mlist k)" and r: "rewound m' = rewound m"
  shows "metaEntries m' a = metaEntries m a"
proof -
  obtain k' where k': "keys m' a = Some k'" "k'\<lparr>meta := map_option ksRewind (meta k')\<rparr> = k\<lparr>meta := map_option ksRewind (meta k)\<rparr>"
    using rewoundD [OF r k] by blast
  have l: "leafs m (mlist k)" using mk by (simp add: mok_def)
  have "metaEntry m' b = metaEntry m b" if b: "b \<in> set (mlist k)" for b
  proof -
    obtain kb where "keys m b = Some kb" "meta kb = None" using leafsD [OF l b] by blast
    then show ?thesis using keys_leaf [OF l r b] by (simp add: metaEntry_def leaf_value)
  qed
  then show ?thesis using k k'(1) mlist_rewound(1) [OF k'(2)] by (simp add: metaEntries_def)
qed

lemma value_rewound:
  assumes mk: "mok m k (mlist k)" and r: "rewound m' = rewound m"
    and k: "k'\<lparr>meta := map_option ksRewind (meta k')\<rparr> = k\<lparr>meta := map_option ksRewind (meta k)\<rparr>"
  shows "keyValue m' (Some k') = keyValue m (Some k)" "keyGetValueSize m' (Some k') = keyGetValueSize m (Some k)"
    "keyOwner m' (Some k') = keyOwner m (Some k)"
proof -
  have b: "keyIsBinary m' (Some k') = keyIsBinary m (Some k)" by (simp add: keyIsBinary_def metaFind_rewound [OF assms])
  note f = rewound_fields [OF k]
  show "keyValue m' (Some k') = keyValue m (Some k)" "keyGetValueSize m' (Some k') = keyGetValueSize m (Some k)"
    by (simp_all add: keyValue_def keyGetValueSize_def b f split: option.split)
  show "keyOwner m' (Some k') = keyOwner m (Some k)" by (simp add: keyOwner_def ownerOf_def found_value [OF assms])
qed

text \<open>What \<open>keyCompare\<close> returns; of the state it only moves cursors of metadata.\<close>

definition keyDiff :: "mem \<Rightarrow> addr \<Rightarrow> addr \<Rightarrow> keyswitch_t" where
  "keyDiff m a b = (let k1 = the (keys m a); k2 = the (keys m b);
       value1 = keyValue m (Some k1); value2 = keyValue m (Some k2); n = nat (keyGetValueSize m (Some k1)) in
     (if keyString m (metaFind m k1 ''comment'') \<noteq> keyString m (metaFind m k2 ''comment'') then KEY_COMMENT else 0)
     OR (if keyOwner m (Some k1) \<noteq> keyOwner m (Some k2) then KEY_OWNER else 0)
     OR (if prefix (metaEntries m a) (metaEntries m b) then 0 else KEY_META)
     OR (if keyGetNameSize (Some k1) \<noteq> keyGetNameSize (Some k2) \<or> keyName (Some k1) \<noteq> keyName (Some k2) then KEY_NAME else 0)
     OR (if keyGetValueSize m (Some k1) \<noteq> keyGetValueSize m (Some k2) \<or> value1 = None \<or> value2 = None
           \<or> take n (the value1) \<noteq> take n (the value2) then KEY_VALUE else 0))"

lemma comment_mname: "mname ''comment''"
proof -
  have "named (metaKey ''comment'') (Some ''comment'') []" "metaOwner ''comment'' = None" by code_simp+
  then show ?thesis unfolding mname_def by blast
qed

lemma keyCompare_ok:
  assumes iv: "inv m E" and ab: "keys m a = Some k1" "keys m b = Some k2" "a \<noteq> b"
  shows "\<exists>m'. keyCompare m (Some a) (Some b) = Some (keyDiff m a b, m') \<and> rewound m' = rewound m"
proof -
  note mk1 = inv_mok [OF iv ab(1)] and mk2 = inv_mok [OF iv ab(2)]
  obtain p1 m1 where g1: "keyGetMeta m (Some a) (Some ''comment'') = Some (p1, m1)" "rewound m1 = rewound m"
      "Option.bind p1 (keys m1) = metaFind m k1 ''comment''" "\<forall>c. c \<noteq> a \<longrightarrow> keys m1 c = keys m c" "inv m1 E" "\<forall>x. p1 = Some x \<longrightarrow> x \<in> set (mlist k1)"
    using keyGetMeta_ok [OF iv ab(1) comment_mname] by blast
  have b1: "keys m1 b = Some k2" using g1(4) ab by simp
  obtain p2 m2 where g2: "keyGetMeta m1 (Some b) (Some ''comment'') = Some (p2, m2)" "rewound m2 = rewound m1"
      "Option.bind p2 (keys m2) = metaFind m1 k2 ''comment''" "\<forall>c. c \<noteq> b \<longrightarrow> keys m2 c = keys m1 c" "inv m2 E" "\<forall>x. p2 = Some x \<longrightarrow> x \<in> set (mlist k2)"
    using keyGetMeta_ok [OF g1(5) b1 comment_mname] by blast
  have r2: "rewound m2 = rewound m" using g1(2) g2(2) by simp
  obtain k1' where k1': "keys m2 a = Some k1'" "k1'\<lparr>meta := map_option ksRewind (meta k1')\<rparr> = k1\<lparr>meta := map_option ksRewind (meta k1)\<rparr>"
    using rewoundD [OF r2 ab(1)] by blast
  obtain k2' where k2': "keys m2 b = Some k2'" "k2'\<lparr>meta := map_option ksRewind (meta k2')\<rparr> = k2\<lparr>meta := map_option ksRewind (meta k2)\<rparr>"
    using rewoundD [OF r2 ab(2)] by blast
  obtain k1'' where k1'': "keys m1 a = Some k1''" "k1''\<lparr>meta := map_option ksRewind (meta k1'')\<rparr> = k1\<lparr>meta := map_option ksRewind (meta k1)\<rparr>"
    using rewoundD [OF g1(2) ab(1)] by blast
  have l1: "leafs m1 (mlist k1)"
    using inv_mok [OF g1(5) k1''(1)] mlist_rewound(1) [OF k1''(2)] by (simp add: mok_def)
  have "Option.bind p1 (keys m2) = Option.bind p1 (keys m1)"
    using g1(6) keys_leaf [OF l1 g2(2)] by (cases p1) simp_all
  then have c1: "keyString m2 (Option.bind p1 (keys m2)) = keyString m (metaFind m k1 ''comment'')"
    using found_string [OF mk1] g1(3) by simp
  have c2: "keyString m2 (Option.bind p2 (keys m2)) = keyString m (metaFind m k2 ''comment'')"
    using found_string [OF mk2] g2(3) metaFind_rewound [OF mk2 g1(2) refl] by simp
  obtain m3 where m3: "keyCompareMeta m2 (Some a) (Some b) = Some (if prefix (metaEntries m2 a) (metaEntries m2 b) then 0 else KEY_META, m3)"
      "rewound m3 = rewound m2"
    using keyCompareMeta_ok [OF g2(5) k1'(1) k2'(1) ab(3)] by blast
  have me: "metaEntries m2 a = metaEntries m a" "metaEntries m2 b = metaEntries m b"
    using metaEntries_rewound [OF ab(1) mk1 r2] metaEntries_rewound [OF ab(2) mk2 r2] by simp_all
  obtain o1 o2 where o: "keyOwner m (Some k1) = Some o1" "keyOwner m (Some k2) = Some o2"
    by (cases "ownerOf m k1"; cases "ownerOf m k2") (simp_all add: keyOwner_def)
  note v1 = value_rewound [OF mk1 r2 k1'(2)] and v2 = value_rewound [OF mk2 r2 k2'(2)]
  have n: "keyName (Some k1) \<noteq> None" "keyName (Some k2) \<noteq> None" by (simp_all add: keyName_def split: option.split)
  then obtain n1 n2 where n: "keyName (Some k1) = Some n1" "keyName (Some k2) = Some n2" by auto
  have "keyCompare m (Some a) (Some b) = Some (keyDiff m a b, m3)"
    using ab g1(1) g2(1) k1'(1) k2'(1) o m3(1) n
    unfolding keyCompare_def keyDiff_def Let_def memcmp_0_iff strcmp_0_iff by (simp add: v1 v2 c1 c2 me)
  then show ?thesis using m3(2) r2 by auto
qed


text \<open>C39: \<open>keyCompare\<close> reports no difference between a key and the duplicate \<open>keyDup\<close> makes of it, provided that the key
  has a value of its recorded size, or has none and is not binary (two binary keys without a value compare as different); comparing changes nothing but the cursors of metadata.\<close>

theorem compare_duplicate:
  assumes iv: "inv m E" and s: "keys m s = Some k"
    and small: "\<forall>b \<in> set (mlist k). \<forall>kb. keys m b = Some kb \<longrightarrow> ksReference kb < SSIZE_MAX"
    and val: "case data k of None \<Rightarrow> keyIsBinary m (Some k) = 0 | Some d \<Rightarrow> dataSize k \<le> length d"
  shows "\<exists>m1 m2. keyDup m (Some s) = Some (Some (fresh m), m1) \<and> keyCompare m1 (Some s) (Some (fresh m)) = Some (0, m2) \<and> rewound m2 = rewound m1"
proof -
  obtain m1 k' where dup: "keyDup m (Some s) = Some (Some (fresh m), m1)" and new: "keys m (fresh m) = None" "keys m1 (fresh m) = Some k'"
    and iv1: "inv m1 E" and kp: "kept m m1" and f: "key k' = key k" "keySize k' = keySize k" "dataSize k' = dataSize k"
      "data k' = map_option (take (dataSize k)) (data k)" "mlist k' = mlist k"
    and live: "\<forall>b. keys m b \<noteq> None \<longrightarrow> keys m1 b \<noteq> None"
    using keyDup_ok [OF iv s small] by blast
  obtain k1 where k1: "keys m1 s = Some k1" using live s by blast
  have c: "core k1 = core k" by (rule keptD [OF kp s k1])
  then have g: "key k1 = key k" "keySize k1 = keySize k" "dataSize k1 = dataSize k" "data k1 = data k" "mlist k1 = mlist k"
    using core_eqD [OF c] by (simp_all add: mlist_def)
  have ne: "s \<noteq> fresh m" using s new(1) by auto
  have mk: "mok m1 k1 (mlist k)" "mok m1 k' (mlist k)" "mok m k (mlist k)"
    using inv_mok [OF iv1 k1] inv_mok [OF iv1 new(2)] inv_mok [OF iv s] f(5) g(5) by simp_all
  have mf: "metaFind m1 k1 n = metaFind m1 k' n" for n
    using metaFind_mlist [OF mok_repr [OF mk(1)] g(5), of m1 n] metaFind_mlist [OF mok_repr [OF mk(2)] f(5), of m1 n] by simp
  have me: "metaEntries m1 s = metaEntries m1 (fresh m)" using k1 new(2) f(5) g(5) by (simp add: metaEntries_def)
  have heap: "heap_ok m E" "heap_ok m1 E" using iv iv1 by (simp_all add: inv_def)
  have bin: "data k = None \<longrightarrow> keyIsBinary m1 (Some k1) = 0 \<and> keyIsBinary m1 (Some k') = 0"
  proof
    assume d: "data k = None"
    have "metaFind m k ''binary'' = None" using val d by (simp add: keyIsBinary_def split: if_splits)
    then have "metaFind m1 k1 ''binary'' = None"
      using metaFind_kept [OF heap kp s k1, of "''binary''"] by simp
    then show "keyIsBinary m1 (Some k1) = 0 \<and> keyIsBinary m1 (Some k') = 0" using mf by (simp add: keyIsBinary_def)
  qed
  have "keyDiff m1 s (fresh m) = 0"
    using k1 new(2) mf me f g bin val
    by (cases "data k") (simp_all add: keyDiff_def Let_def keyOwner_def ownerOf_def keyName_def keyGetNameSize_def keyValue_def keyGetValueSize_def split: option.split)
  then show ?thesis using dup keyCompare_ok [OF iv1 k1 new(2) ne] by auto
qed


lemma exMM_key: "keys exMM 1 = Some (exN\<lparr>meta := Some exTypeKs\<rparr>)" "mlist (exN\<lparr>meta := Some exTypeKs\<rparr>) = [0]"
  "keys exMM 0 = Some exType"
proof -
  have "repr exTypeKs [0]" by (rule reprI [of _ _ "[]"]) (simp_all add: exTypeKs_def)
  then show "mlist (exN\<lparr>meta := Some exTypeKs\<rparr>) = [0]" by (intro mlist_repr) simp_all
qed (simp_all add: exMM_def exMem_def)

theorem compare_duplicate_witness:
  "\<exists>m1 m2. keyDup exMM (Some 1) = Some (Some (fresh exMM), m1) \<and> keyCompare m1 (Some 1) (Some (fresh exMM)) = Some (0, m2) \<and> rewound m2 = rewound m1"
proof (rule compare_duplicate [OF exMM_inv(1) exMM_key(1)])
  show "case data (exN\<lparr>meta := Some exTypeKs\<rparr>) of None \<Rightarrow> keyIsBinary exMM (Some (exN\<lparr>meta := Some exTypeKs\<rparr>)) = 0
    | Some d \<Rightarrow> dataSize (exN\<lparr>meta := Some exTypeKs\<rparr>) \<le> length d"
    by code_simp
qed (simp add: exMM_key exType_fields SSIZE_MAX_def)

text \<open>C40: \<open>keyCompareMeta\<close> moves one cursor twice per round when both arguments are the same key, so a
  key with metadata does not compare equal to itself.\<close>

theorem compare_same_key:
  assumes "inv m E" and "keys m a = Some k" and "distinct (map fst (metaEntries m a))"
  shows "\<exists>m'. keyCompareMeta m (Some a) (Some a) = Some (if mlist k = [] then 0 else KEY_META, m') \<and> rewound m' = rewound m"
  by (rule keyCompareMeta_self [OF assms])

theorem compare_same_key_witness:
  "\<exists>m'. keyCompareMeta exMM (Some 1) (Some 1) = Some (KEY_META, m') \<and> rewound m' = rewound exMM"
proof -
  have "distinct (map fst (metaEntries exMM 1))" unfolding metaEntries_def exMM_key(1) option.sel exMM_key(2) by simp
  from compare_same_key [OF exMM_inv(1) exMM_key(1) this] show ?thesis unfolding exMM_key(2) by simp
qed

section \<open>The relation of two keys\<close>

lemma namespace_mkname:
  assumes "r \<in> {''spec'', ''proc'', ''dir'', ''user'', ''system''}"
  shows "keyNameIsUser (mkname (Some r) ls) = (r = ''user'')" "keyNameIsSystem (mkname (Some r) ls) = (r = ''system'')"
  using assms by (cases ls; auto simp: mkname_def keyNameIsUser_def keyNameIsSystem_def strncmp_0_iff)+

text \<open>\<open>keyRel\<close> tells for keys of one of the namespaces whether the other is the same key, directly below, further
  below (0, 1, 2), and else whether both lie in user or both in system (-3); all other pairs give -2, unrelated keys that
  are both in spec, proc or dir included.\<close>

theorem key_rel:
  assumes k: "named k (Some r) ks" and c: "named c (Some s) cs"
    and rs: "r \<in> {''spec'', ''proc'', ''dir'', ''user'', ''system''}" "s \<in> {''spec'', ''proc'', ''dir'', ''user'', ''system''}"
  shows "keyRel m (Some k) (Some c) = Some
    (if r = s \<and> ks = cs \<and> ownerOf m k = ownerOf m c then 0
     else if r = s \<and> (\<exists>x. cs = ks @ [x]) then 1
     else if r = s \<and> strict_prefix ks cs then 2
     else if r = s \<and> r \<in> {''user'', ''system''} then -3 else -2)"
proof -
  note nk = named_fields [OF k] and nc = named_fields [OF c]
  have sz: "sized k" "sized c" using k c by (simp_all add: sized_def named_def)
  have kk: "key k = Some (mkname (Some r) ks)" "key c = Some (mkname (Some s) cs)" using k c by (simp_all add: named_def)
  have "keyCompareByNameOwner m k c = 0 \<longleftrightarrow> uname k = uname c \<and> ownerOf m k = ownerOf m c"
    using byNameOwner.cmp_zero [OF sz] by (simp add: okey_def)
  moreover have "uname k = uname c \<longleftrightarrow> r = s \<and> ks = cs"
  proof
    assume "uname k = uname c"
    then show "r = s \<and> ks = cs"
      using mkuname_inj [of "Some r" "Some s" ks cs] rs k c by (simp add: named_def plain_roots_def)
  qed (use k c in \<open>simp add: named_def\<close>)
  ultimately have cmp: "keyCmp m (Some k) (Some c) = 0 \<longleftrightarrow> r = s \<and> ks = cs \<and> ownerOf m k = ownerOf m c"
    using kk by (auto simp: keyCmp_def)
  have sl: "SLASH \<notin> set s" using rs(2) by auto
  have d: "keyIsDirectBelow (Some k) (Some c) = Some (if r = s \<and> (\<exists>x. cs = ks @ [x]) then 1 else 0)"
    using keyIsDirectBelow_named [OF k c] sl by simp
  have b: "keyIsBelow (Some k) (Some c) = Some (if r = s \<and> strict_prefix ks cs then 1 else 0)"
    using keyIsBelow_named [OF k c] sl by simp
  have u: "keyIsUser (Some k) = (if r = ''user'' then 1 else 0)" "keyIsUser (Some c) = (if s = ''user'' then 1 else 0)"
    "keyIsSystem (Some k) = (if r = ''system'' then 1 else 0)" "keyIsSystem (Some c) = (if s = ''system'' then 1 else 0)"
    using kk namespace_mkname [OF rs(1)] namespace_mkname [OF rs(2)] by (simp_all add: keyIsUser_def keyIsSystem_def nsTest_def)
  show ?thesis
    unfolding keyRel_def prod.case option.case cmp d b u using kk by auto
qed

theorem key_rel_witness:
  "keyRel exMM (Some (exKey ''user/a'')) (Some (exKey ''user/a/b'')) = Some 1"
  using key_rel [OF exKey_named(1,2), of exMM] by simp


end
