(* ===== verification/MountTrie.thy ===== *)
theory MountTrie
  imports NameProperties "HOL-Library.Multiset" "HOL-Library.Sublist" "HOL-Library.AList"
begin

text \<open>
  \<open>src/libs/elektra/trie.c\<close>: the trie that maps the names of mountpoints to backends. A node is the array
  of its 256 entries, here as an association list from the index to the text (\<open>text\<close>, whose
  length is \<open>textlen\<close>), the child and the value; an index that is missing has \<open>text[idx] == NULL\<close>, and then
  the other two are \<open>NULL\<close> as well. A \<open>NULL\<close> trie is \<open>None\<close>. Backends are a type variable.
\<close>

section \<open>The operations\<close>

datatype 'b trie = Trie (entries: "(char \<times> string \<times> 'b trie option \<times> 'b option) list") (empty_value: "'b option")

text \<open>The index of the first mismatch in \<open>substr\<close>, or \<open>None\<close> if \<open>str\<close> starts with it.\<close>

fun startsWithLoop :: "string \<Rightarrow> string \<Rightarrow> nat \<Rightarrow> nat option" where
  "startsWithLoop str [] i = None"
| "startsWithLoop [] (d # substr) i = Some i"
| "startsWithLoop (c # str) (d # substr) i = (if d \<noteq> c then Some i else startsWithLoop str substr (Suc i))"

definition elektraTrieStartsWith :: "string \<Rightarrow> string \<Rightarrow> nat option" where
  "elektraTrieStartsWith str substr = startsWithLoop str substr 0"

text \<open>The first byte of a C string.\<close>

definition trieIdx :: "string \<Rightarrow> char" where
  "trieIdx name = (case name of [] \<Rightarrow> NUL | c # _ \<Rightarrow> c)"

lemma size_child [termination_simp]:
  "map_of es c = Some (text, child, v) \<Longrightarrow>
   size_option size child < Suc (Suc (size_list (\<lambda>x. Suc (Suc (Suc (size_option size (fst (snd (snd x))) + size (snd (snd (snd x))))))) es + n))"
  by (induction es) (auto split: if_splits)

fun elektraTriePrefixLookup :: "'b trie option \<Rightarrow> string \<Rightarrow> 'b option" where
  "elektraTriePrefixLookup None name = None"
| "elektraTriePrefixLookup (Some (Trie es ev)) name = (case map_of es (trieIdx name) of
     None \<Rightarrow> ev
   | Some (text, child, value) \<Rightarrow>
       if elektraTrieStartsWith name text = None
       then (let ret = elektraTriePrefixLookup child (drop (length text) name)
             in if ret = None \<and> value = None then ev else if ret = None then value else ret)
       else ev)"

definition trieLookup :: "'b trie option \<Rightarrow> Key option \<Rightarrow> 'b option" where
  "trieLookup trie k = (case k of None \<Rightarrow> None
     | Some kk \<Rightarrow> (case trie of None \<Rightarrow> None
       | Some _ \<Rightarrow>
          let len = keyGetNameSize k + 1 in
          if len \<le> 1 then None
          else (case keyName k of None \<Rightarrow> None
            | Some n \<Rightarrow> elektraTriePrefixLookup trie (take (nat len - 2) n @ ''/''))))"

fun trieInsert :: "'b trie option \<Rightarrow> string \<Rightarrow> 'b \<Rightarrow> 'b trie" where
  "trieInsert None name v =
     (if name = [] then Trie [] (Some v) else Trie [(trieIdx name, name, None, Some v)] None)"
| "trieInsert (Some (Trie es ev)) name v =
     (if name = [] then Trie es (Some v)
      else case map_of es (trieIdx name) of
        Some (text, child, value) \<Rightarrow>
          (case elektraTrieStartsWith name text of
             None \<Rightarrow> Trie (AList.update (trieIdx name) (text, Some (trieInsert child (drop (length text) name) v), value) es) ev
           | Some p \<Rightarrow>
               let newname = drop p text;
                   text' = take p text;
                   new = trieInsert None (drop p name) v;
                   new' = Trie (AList.update (trieIdx newname) (newname, child, value) (entries new)) (empty_value new)
               in Trie (AList.update (trieIdx name) (text', Some new', None) es) ev)
      | None \<Rightarrow> Trie (AList.update (trieIdx name) (name, None, Some v) es) ev)"

text \<open>The backends in the order in which \<open>trieClose\<close> closes them.\<close>

definition allChars :: "char list" where
  "allChars = map char_of [0..<256 :: nat]"

fun trieClose :: "'b trie option \<Rightarrow> 'b list" where
  "trieClose None = []"
| "trieClose (Some (Trie es ev)) =
     concat (map (\<lambda>c. case map_of es c of None \<Rightarrow> []
       | Some (text, child, value) \<Rightarrow> trieClose child @ (case value of None \<Rightarrow> [] | Some b \<Rightarrow> [b])) allChars)
     @ (case ev of None \<Rightarrow> [] | Some b \<Rightarrow> [b])"

section \<open>The map from names to backends\<close>

fun trieMap :: "'b trie option \<Rightarrow> string \<Rightarrow> 'b option" where
  "trieMap None name = None"
| "trieMap (Some (Trie es ev)) name =
     (if name = [] then ev
      else case map_of es (hd name) of None \<Rightarrow> None
      | Some (text, child, value) \<Rightarrow>
          if prefix text name
          then (case trieMap child (drop (length text) name) of
              Some b \<Rightarrow> Some b
            | None \<Rightarrow> if name = text then value else None)
          else None)"

fun trie_ok :: "'b trie option \<Rightarrow> bool" where
  "trie_ok None \<longleftrightarrow> True"
| "trie_ok (Some (Trie es ev)) \<longleftrightarrow> distinct (map fst es)
     \<and> (\<forall>e \<in> set es. case e of (c, text, child, v) \<Rightarrow> text \<noteq> [] \<and> hd text = c \<and> cstring text \<and> trie_ok child)"

lemma trie_okD:
  assumes "trie_ok (Some (Trie es ev))" "map_of es c = Some (text, child, v)"
  shows "text \<noteq> []" "hd text = c" "cstring text" "trie_ok child"
  using assms map_of_SomeD [OF assms(2)] by auto

lemma set_update_subset: "set (AList.update k v al) \<subseteq> insert (k, v) (set al)"
  by (induction al) auto

lemma trie_ok_update:
  assumes "trie_ok (Some (Trie es ev))" "text \<noteq> []" "hd text = c" "cstring text" "trie_ok child"
  shows "trie_ok (Some (Trie (AList.update c (text, child, v) es) ev'))"
proof -
  have "set (AList.update c (text, child, v) es) \<subseteq> insert (c, text, child, v) (set es)"
    by (rule set_update_subset)
  then show ?thesis using assms distinct_update [of es c "(text, child, v)"] by auto
qed

lemma startsWithLoop_spec:
  "startsWithLoop str substr i = None \<longleftrightarrow> prefix substr str"
  "startsWithLoop str substr i = Some k \<Longrightarrow> i \<le> k \<and> k - i < length substr \<and> k - i \<le> length str \<and> take (k - i) substr = take (k - i) str
     \<and> (k - i < length str \<longrightarrow> str ! (k - i) \<noteq> substr ! (k - i))"
proof (induction str substr i rule: startsWithLoop.induct)
  case (3 c str d substr i)
  {
    case 1
    then show ?case using 3 by auto
  next
    case 2
    show ?case
    proof (cases "d = c")
      case True
      then have "startsWithLoop str substr (Suc i) = Some k" using 2 by simp
      from 3(2) [OF _ this] True have IH: "Suc i \<le> k \<and> k - Suc i < length substr \<and> k - Suc i \<le> length str
        \<and> take (k - Suc i) substr = take (k - Suc i) str \<and> (k - Suc i < length str \<longrightarrow> str ! (k - Suc i) \<noteq> substr ! (k - Suc i))" by simp
      then have "k - i = Suc (k - Suc i)" by linarith
      then show ?thesis using IH True by simp
    qed (use 2 in auto)
  }
qed auto

lemma elektraTrieStartsWith_None [simp]: "elektraTrieStartsWith str substr = None \<longleftrightarrow> prefix substr str"
  by (simp add: elektraTrieStartsWith_def startsWithLoop_spec)

lemma elektraTrieStartsWith_Some:
  assumes "elektraTrieStartsWith str substr = Some p"
  shows "p < length substr" "p \<le> length str" "take p substr = take p str" "p < length str \<Longrightarrow> str ! p \<noteq> substr ! p"
  using startsWithLoop_spec(2) [of str substr 0 p] assms by (auto simp: elektraTrieStartsWith_def)

lemma trieIdx_Cons [simp]: "s \<noteq> [] \<Longrightarrow> trieIdx s = hd s"
  by (cases s) (simp_all add: trieIdx_def)

text \<open>One entry of a node seen as a map.\<close>

definition entryMap :: "string \<times> 'b trie option \<times> 'b option \<Rightarrow> string \<Rightarrow> 'b option" where
  "entryMap e name = (case e of (text, child, value) \<Rightarrow>
     if prefix text name
     then (case trieMap child (drop (length text) name) of
         Some b \<Rightarrow> Some b
       | None \<Rightarrow> if name = text then value else None)
     else None)"

lemma trieMap_node: "trieMap (Some (Trie es ev)) name =
  (if name = [] then ev else case map_of es (hd name) of None \<Rightarrow> None | Some e \<Rightarrow> entryMap e name)"
  by (simp add: entryMap_def split: option.split prod.split)

declare trieMap.simps(2) [simp del]

lemma trieMap_update:
  "trieMap (Some (Trie (AList.update c e es) ev)) name =
   (if name \<noteq> [] \<and> hd name = c then entryMap e name else trieMap (Some (Trie es ev)) name)"
  by (simp add: trieMap_node AList.update_conv')

lemma entryMap_shift: "w \<noteq> [] \<Longrightarrow> entryMap (u @ w, child, val) (u @ q) = (if q = [] then None else entryMap (w, child, val) q)"
  by (auto simp: entryMap_def)

lemma trieInsert_map: "trie_ok t \<Longrightarrow> cstring n \<Longrightarrow>
  trieMap (Some (trieInsert t n v)) = (trieMap t)(n \<mapsto> v) \<and> trie_ok (Some (trieInsert t n v))"
proof (induction t n v rule: trieInsert.induct)
  case (1 n v)
  then show ?case by (auto simp: trieMap_node entryMap_def fun_eq_iff cstring_def split: option.split)
next
  case (2 es ev n v)
  show ?case
  proof (cases "n = []")
    case True
    then show ?thesis using "2.prems" by (auto simp: trieMap_node fun_eq_iff)
  next
    case ne: False
    show ?thesis
    proof (cases "map_of es (hd n)")
      case None
      have ins: "trieInsert (Some (Trie es ev)) n v = Trie (AList.update (hd n) (n, None, Some v) es) ev"
        using ne None by simp
      have "trieMap (Some (trieInsert (Some (Trie es ev)) n v)) m = ((trieMap (Some (Trie es ev)))(n \<mapsto> v)) m" for m
        using None ne unfolding ins by (auto simp: trieMap_update) (auto simp: entryMap_def trieMap_node)
      then show ?thesis using trie_ok_update [OF "2.prems"(1) ne refl "2.prems"(2), of None] unfolding ins by auto
    next
      case (Some e)
      obtain "text" child "value" where e: "e = (text, child, value)" by (cases e)
      note es = Some [unfolded e]
      note tx = trie_okD [OF "2.prems"(1) es]
      have old: "trieMap (Some (Trie es ev)) m = entryMap (text, child, value) m" if "m \<noteq> []" "hd m = hd n" for m
        using that es by (simp add: trieMap_node)
      show ?thesis
      proof (cases "elektraTrieStartsWith n text")
        case None
        then have pre: "prefix text n" by simp
        let ?child = "Some (trieInsert child (drop (length text) n) v)"
        have "cstring (drop (length text) n)" using "2.prems"(2) by (auto simp: cstring_def dest: in_set_dropD)
        then have IH: "trieMap ?child = (trieMap child)(drop (length text) n \<mapsto> v)" "trie_ok ?child"
          using "2.IH"(1) [OF ne _ refl refl None] es tx(4) ne by (simp_all add: fun_eq_iff)
        have ins: "trieInsert (Some (Trie es ev)) n v = Trie (AList.update (hd n) (text, ?child, value) es) ev"
          using ne es None by (simp del: elektraTrieStartsWith_None)
        have "entryMap (text, ?child, value) m = ((entryMap (text, child, value))(n \<mapsto> v)) m" for m
        proof (cases "prefix text m")
          case True
          then have "drop (length text) m = drop (length text) n \<longleftrightarrow> m = n" using pre by (auto simp: prefix_def)
          then show ?thesis using True pre by (auto simp: entryMap_def IH(1))
        next
          case False
          then show ?thesis using pre by (auto simp: entryMap_def)
        qed
        then have "trieMap (Some (trieInsert (Some (Trie es ev)) n v)) m = ((trieMap (Some (Trie es ev)))(n \<mapsto> v)) m" for m
          using old ne unfolding ins by (auto simp: trieMap_update)
        then show ?thesis using trie_ok_update [OF "2.prems"(1) tx(1) _ tx(3) IH(2)] tx(2) unfolding ins by auto
      next
        case (Some p)
        note sw = elektraTrieStartsWith_Some [OF Some]
        have p0: "0 < p"
        proof (rule ccontr)
          assume "\<not> 0 < p"
          then have "n ! 0 \<noteq> text ! 0" using sw(4) ne by simp
          then show False using tx(1,2) ne by (simp add: hd_conv_nth)
        qed
        let ?new = "trieInsert None (drop p n) v" and ?nn = "drop p text" and ?rn = "drop p n"
        let ?new' = "Some (Trie (AList.update (hd ?nn) (?nn, child, value) (entries ?new)) (empty_value ?new))"
        have ins: "trieInsert (Some (Trie es ev)) n v = Trie (AList.update (hd n) (take p text, ?new', None) es) ev"
          using ne es Some sw(1) by (simp add: Let_def)
        have tt: "text = take p text @ ?nn" "?nn \<noteq> []" "length (take p text) = p" using sw(1) by simp_all
        have n: "n = take p text @ ?rn" using sw(3) by simp
        have dif: "hd ?rn \<noteq> hd ?nn" if "?rn \<noteq> []" using sw(1,4) that by (simp add: hd_drop_conv_nth)
        have cs: "cstring ?rn" "cstring ?nn" using "2.prems"(2) tx(3) by (auto simp: cstring_def dest: in_set_dropD)
        have new: "trieMap (Some ?new) = Map.empty(?rn \<mapsto> v)" "trie_ok (Some ?new)"
          using "2.IH"(2) [OF ne _ refl refl Some refl refl] es cs ne by (simp_all add: fun_eq_iff)
        have new': "trieMap ?new' q = (if q \<noteq> [] \<and> hd q = hd ?nn then entryMap (?nn, child, value) q
             else if q = ?rn then Some v else None)" for q
          using fun_cong [OF new(1), of q] by (simp only: trieMap_update trie.collapse) auto
        have ok': "trie_ok ?new'"
          using trie_ok_update [of "entries ?new" "empty_value ?new" ?nn "hd ?nn" child "value"] new(2) tt(2) cs tx(4)
          by (simp only: trie.collapse) auto
        have sub: "entryMap (text, child, value) (take p text @ q) = (if q = [] then None else entryMap (?nn, child, value) q)" for q
          using entryMap_shift [OF tt(2), of "take p text" child "value" q] tt(1) by simp
        have far: "entryMap (?nn, child, value) q = None" if "hd q \<noteq> hd ?nn \<or> q = []" for q
          using that tt(2) by (cases "?nn"; cases q) (auto simp: entryMap_def)
        have "entryMap (take p text, ?new', None) m = ((entryMap (text, child, value))(n \<mapsto> v)) m" for m
        proof (cases "prefix (take p text) m")
          case True
          then obtain q where q: "m = take p text @ q" by (auto simp: prefix_def)
          have mn: "m = n \<longleftrightarrow> q = ?rn" unfolding q by (subst n) simp
          have "entryMap (take p text, ?new', None) m = trieMap ?new' q"
            using q tt(3) by (simp add: entryMap_def split: option.split)
          also have "\<dots> = ((entryMap (text, child, value))(n \<mapsto> v)) m"
            unfolding new' q using mn [unfolded q] sub [of q] far [of q] dif by auto
          finally show ?thesis .
        next
          case False
          moreover have "\<not> prefix text m" using False tt(1) by (metis prefix_order.trans prefixI)
          moreover have "m \<noteq> n" using False n by (metis prefixI)
          ultimately show ?thesis by (simp add: entryMap_def)
        qed
        then have "trieMap (Some (trieInsert (Some (Trie es ev)) n v)) m = ((trieMap (Some (Trie es ev)))(n \<mapsto> v)) m" for m
          using old ne unfolding ins by (auto simp: trieMap_update)
        moreover have "trie_ok (Some (trieInsert (Some (Trie es ev)) n v))"
          unfolding ins
        proof (rule trie_ok_update [OF "2.prems"(1) _ _ _ ok'])
          show "take p text \<noteq> []" using p0 tx(1) by simp
          show "hd (take p text) = hd n" using p0 tx(2) by simp
          show "cstring (take p text)" using tx(3) by (auto simp: cstring_def dest: in_set_takeD)
        qed
        ultimately show ?thesis by auto
      qed
    qed
  qed
qed

section \<open>The longest prefix\<close>

definition longest_match :: "(string \<Rightarrow> 'b option) \<Rightarrow> string \<Rightarrow> 'b option \<Rightarrow> bool" where
  "longest_match M s r \<longleftrightarrow> (case r of
     None \<Rightarrow> \<forall>p. prefix p s \<longrightarrow> M p = None
   | Some b \<Rightarrow> \<exists>p. prefix p s \<and> M p = Some b \<and> (\<forall>q. prefix q s \<longrightarrow> M q \<noteq> None \<longrightarrow> length q \<le> length p))"

lemma longest_match_unique: "longest_match M s r \<Longrightarrow> longest_match M s r' \<Longrightarrow> r = r'"
proof (cases r; cases r')
  fix b b' assume "longest_match M s r" "longest_match M s r'" and r: "r = Some b" "r' = Some b'"
  then obtain p q where "prefix p s" "M p = Some b" "prefix q s" "M q = Some b'" "length p = length q"
    unfolding longest_match_def by (auto intro: le_antisym) (metis le_antisym option.distinct(1))
  moreover from this have "p = q" by (metis prefix_length_prefix prefix_order.antisym order_refl)
  ultimately show ?thesis using r by simp
qed (auto simp: longest_match_def)

lemma longest_empty:
  assumes "\<And>p. prefix p s \<Longrightarrow> p \<noteq> [] \<Longrightarrow> M p = None" "M [] = r"
  shows "longest_match M s r"
proof (cases r)
  case None
  then show ?thesis using assms unfolding longest_match_def by (simp, metis)
next
  case (Some b)
  have "prefix [] s" by simp
  moreover have "length q \<le> length []" if "prefix q s" "M q \<noteq> None" for q using assms(1) that by (metis le0 list.size(3))
  ultimately have "\<exists>p. prefix p s \<and> M p = Some b \<and> (\<forall>q. prefix q s \<longrightarrow> M q \<noteq> None \<longrightarrow> length q \<le> length p)"
    using Some assms(2) by blast
  then show ?thesis using Some by (simp add: longest_match_def)
qed

lemma elektraTriePrefixLookup_longest:
  "trie_ok t \<Longrightarrow> cstring s \<Longrightarrow> longest_match (trieMap t) s (elektraTriePrefixLookup t s)"
proof (induction t s rule: elektraTriePrefixLookup.induct)
  case (1 s)
  then show ?case by (simp add: longest_match_def)
next
  case (2 es ev s)
  let ?M = "trieMap (Some (Trie es ev))"
  have M0: "?M [] = ev" by (simp add: trieMap_node)
  have s: "s \<noteq> []" if "map_of es (trieIdx s) = Some e" for e
  proof
    assume "s = []"
    moreover obtain "text" child val where "e = (text, child, val)" by (cases e)
    ultimately have "text \<noteq> [] \<and> hd text = NUL \<and> cstring text" using that trie_okD [OF "2.prems"(1)] by (auto simp: trieIdx_def)
    then show False by (metis cstring_def list.set_sel(1))
  qed
  show ?case
  proof (cases "map_of es (trieIdx s)")
    case None
    have "?M p = None" if "prefix p s" "p \<noteq> []" for p
      using that None by (cases p; cases s) (auto simp: trieMap_node trieIdx_def)
    then have "longest_match ?M s ev" using M0 by (intro longest_empty)
    then show ?thesis using None by simp
  next
    case (Some e)
    obtain "text" child val where e: "e = (text, child, val)" by (cases e)
    note es = Some [unfolded e]
    note tx = trie_okD [OF "2.prems"(1) es]
    have sne: "s \<noteq> []" by (rule s [OF Some])
    have Mp: "?M p = entryMap (text, child, val) p" if "prefix p s" "p \<noteq> []" for p
      using that es by (cases p; cases s) (auto simp: trieMap_node trieIdx_def)
    show ?thesis
    proof (cases "prefix text s")
      case False
      have "?M p = None" if "prefix p s" "p \<noteq> []" for p
        using Mp [OF that] False that(1) by (auto simp: entryMap_def)
      then have "longest_match ?M s ev" using M0 by (intro longest_empty)
      then show ?thesis using es False by (simp del: elektraTrieStartsWith_None) simp
    next
      case True
      let ?s = "drop (length text) s"
      let ?ret = "elektraTriePrefixLookup child ?s"
      have sw: "elektraTrieStartsWith s text = None" using True by simp
      obtain u where u: "s = text @ u" using True by (auto simp: prefix_def)
      have pre: "prefix (text @ q) s \<longleftrightarrow> prefix q ?s" for q by (simp add: u)
      have IH: "longest_match (trieMap child) ?s ?ret"
        using "2.IH" [OF es refl refl sw] tx(4) "2.prems"(2) by (auto simp: cstring_def dest: in_set_dropD)
      have at: "?M (text @ q) = (case trieMap child q of Some b \<Rightarrow> Some b | None \<Rightarrow> if q = [] then val else None)" if "prefix q ?s" for q
        using Mp [of "text @ q"] that tx(1) pre [of q] by (simp add: entryMap_def)
      have out: "?M p = None" if "prefix p s" "p \<noteq> []" "\<not> prefix text p" for p
        using Mp [OF that(1,2)] that(3) by (simp add: entryMap_def)
      have split: "p = [] \<or> \<not> prefix text p \<or> (\<exists>q. p = text @ q \<and> prefix q ?s)" if "prefix p s" for p
      proof (cases "prefix text p")
        case True
        then obtain q where "p = text @ q" by (auto simp: prefix_def)
        then show ?thesis using that pre by blast
      qed simp
      show ?thesis
      proof (cases ?ret)
        case (Some b)
        then obtain q where q: "prefix q ?s" "trieMap child q = Some b"
          "\<And>q'. prefix q' ?s \<Longrightarrow> trieMap child q' \<noteq> None \<Longrightarrow> length q' \<le> length q"
          using IH by (auto simp: longest_match_def)
        have "prefix (text @ q) s" using q(1) pre by blast
        moreover have "?M (text @ q) = Some b" using at [OF q(1)] q(2) by simp
        moreover have "length p \<le> length (text @ q)" if "prefix p s" "?M p \<noteq> None" for p
        proof -
          from split [OF that(1)] consider "p = []" | "\<not> prefix text p" "p \<noteq> []" | q' where "p = text @ q'" "prefix q' ?s" by blast
          then show ?thesis
          proof cases
            case 2
            from out [OF that(1) 2(2) 2(1)] that(2) show ?thesis by simp
          next
            case 3
            then have "q' = [] \<or> trieMap child q' \<noteq> None" using at [OF 3(2)] that(2) by (cases "trieMap child q'") (simp_all split: if_splits)
            then have "length q' \<le> length q" using q(3) [OF 3(2)] by (elim disjE) simp_all
            then show ?thesis using 3(1) by simp
          qed simp
        qed
        ultimately have "longest_match ?M s (Some b)" unfolding longest_match_def by auto
        then show ?thesis using es sw Some by (simp del: elektraTrieStartsWith_None)
      next
        case None
        then have noch: "trieMap child q = None" if "prefix q ?s" for q using IH that by (simp add: longest_match_def)
        show ?thesis
        proof (cases val)
          case None
          have "?M p = None" if "prefix p s" "p \<noteq> []" for p
          proof (cases "prefix text p")
            case False
            then show ?thesis by (rule out [OF that])
          next
            case True
            from split [OF that(1)] that(2) True obtain q where "p = text @ q" "prefix q ?s" by blast
            then show ?thesis using at noch None by simp
          qed
          then have "longest_match ?M s ev" using M0 by (intro longest_empty)
          then show ?thesis using es sw \<open>?ret = None\<close> None by (simp del: elektraTrieStartsWith_None)
        next
          case (Some b)
          have "?M text = Some b" using at [of "[]"] noch [of "[]"] Some by simp
          moreover have "length p \<le> length text" if "prefix p s" "?M p \<noteq> None" for p
          proof -
            from split [OF that(1)] consider "p = []" | "\<not> prefix text p" "p \<noteq> []" | q' where "p = text @ q'" "prefix q' ?s" by blast
            then show ?thesis
            proof cases
              case 2
              from out [OF that(1) 2(2) 2(1)] that(2) show ?thesis by simp
            next
              case 3
              then have "q' = []" using at [OF 3(2)] that(2) noch [OF 3(2)] by (simp split: if_splits)
              then show ?thesis using 3(1) by simp
            qed simp
          qed
          ultimately have "longest_match ?M s (Some b)" using True unfolding longest_match_def by auto
          then show ?thesis using es sw \<open>?ret = None\<close> Some by (simp del: elektraTrieStartsWith_None)
        qed
      qed
    qed
  qed
qed

section \<open>Closing\<close>

definition optMset :: "'b option \<Rightarrow> 'b multiset" where
  "optMset v = (case v of None \<Rightarrow> {#} | Some b \<Rightarrow> {#b#})"

definition entryClose :: "(string \<times> 'b trie option \<times> 'b option) option \<Rightarrow> 'b multiset" where
  "entryClose e = (case e of None \<Rightarrow> {#} | Some (text, child, value) \<Rightarrow> mset (trieClose child) + optMset value)"

lemma optMset_simps [simp]: "optMset None = {#}" "optMset (Some b) = {#b#}"
  by (simp_all add: optMset_def)

lemma entryClose_simps [simp]: "entryClose None = {#}"
  "entryClose (Some (text, child, value)) = mset (trieClose child) + optMset value"
  by (simp_all add: entryClose_def)

lemma set_allChars: "set allChars = UNIV" and distinct_allChars: "distinct allChars"
proof -
  show "set allChars = UNIV" by (simp add: allChars_def UNIV_char_of_nat)
  have "inj_on (char_of :: nat \<Rightarrow> char) {0..<256}"
    by (rule inj_on_inverseI [where g = of_char]) (simp add: of_char_of)
  then show "distinct allChars" by (simp add: allChars_def distinct_map)
qed

lemma mset_concat: "mset (concat (map f xs)) = (\<Sum>x \<leftarrow> xs. mset (f x))"
  by (induction xs) simp_all

lemma mset_trieClose: "mset (trieClose (Some (Trie es ev))) = (\<Sum>c \<in> UNIV. entryClose (map_of es c)) + optMset ev"
proof -
  have "mset (case map_of es c of None \<Rightarrow> [] | Some (text, child, value) \<Rightarrow> trieClose child @ (case value of None \<Rightarrow> [] | Some b \<Rightarrow> [b]))
      = entryClose (map_of es c)" for c
    by (auto simp: optMset_def split: option.split)
  then have "mset (concat (map (\<lambda>c. case map_of es c of None \<Rightarrow> []
      | Some (text, child, value) \<Rightarrow> trieClose child @ (case value of None \<Rightarrow> [] | Some b \<Rightarrow> [b])) allChars))
      = (\<Sum>c \<leftarrow> allChars. entryClose (map_of es c))"
    unfolding mset_concat by (simp only:)
  also have "\<dots> = (\<Sum>c \<in> UNIV. entryClose (map_of es c))"
    by (simp add: sum_list_distinct_conv_sum_set distinct_allChars set_allChars)
  finally show ?thesis by (simp add: optMset_def split: option.split)
qed

declare trieClose.simps(2) [simp del]

lemma mset_trieClose_update:
  "mset (trieClose (Some (Trie (AList.update c e es) ev))) + entryClose (map_of es c)
   = mset (trieClose (Some (Trie es ev))) + entryClose (Some e)"
proof -
  have "(\<Sum>d \<in> UNIV - {c}. entryClose (if d = c then Some e else map_of es d)) = (\<Sum>d \<in> UNIV - {c}. entryClose (map_of es d))"
    by (rule sum.cong) simp_all
  then have "(\<Sum>d \<in> UNIV. entryClose (map_of (AList.update c e es) d)) + entryClose (map_of es c)
      = (\<Sum>d \<in> UNIV. entryClose (map_of es d)) + entryClose (Some e)"
    by (simp add: sum.remove [of UNIV c] AList.update_conv')
  then show ?thesis by (simp add: mset_trieClose)
qed

lemma trieInsert_close: "trie_ok t \<Longrightarrow> cstring n \<Longrightarrow> trieMap t n = None \<Longrightarrow>
  mset (trieClose (Some (trieInsert t n v))) = add_mset v (mset (trieClose t))"
proof (induction t n v rule: trieInsert.induct)
  case (1 n v)
  have "mset (trieClose (Some (Trie [(trieIdx n, n, None, Some v)] None))) = {#v#}"
    using mset_trieClose_update [of "trieIdx n" "(n, None, Some v)" "[]" None] by (simp add: mset_trieClose del: mset.simps)
  moreover have "mset (trieClose (Some (Trie [] (Some v)))) = {#v#}" unfolding mset_trieClose by simp
  ultimately show ?case by (cases "n = []") (simp_all del: trieIdx_Cons)
next
  case (2 es ev n v)
  show ?case
  proof (cases "n = []")
    case True
    then have "ev = None" using "2.prems"(3) by (simp add: trieMap_node)
    then show ?thesis using True by (simp add: mset_trieClose)
  next
    case ne: False
    show ?thesis
    proof (cases "map_of es (hd n)")
      case None
      have "trieInsert (Some (Trie es ev)) n v = Trie (AList.update (hd n) (n, None, Some v) es) ev" using ne None by simp
      then show ?thesis using mset_trieClose_update [of "hd n" "(n, None, Some v)" es ev] None ne by simp
    next
      case (Some e)
      obtain "text" child "value" where e: "e = (text, child, value)" by (cases e)
      note es = Some [unfolded e]
      note tx = trie_okD [OF "2.prems"(1) es]
      have upd: "mset (trieClose (Some (Trie (AList.update (hd n) (t', c', v') es) ev))) = add_mset v (mset (trieClose (Some (Trie es ev))))"
        if "mset (trieClose c') + optMset v' = add_mset v (mset (trieClose child) + optMset value)" for t' c' v'
        using mset_trieClose_update [of "hd n" "(t', c', v')" es ev] that es by simp
      show ?thesis
      proof (cases "elektraTrieStartsWith n text")
        case None
        let ?rn = "drop (length text) n"
        have "trieMap child ?rn = None" using None "2.prems"(3) ne es by (simp add: trieMap_node entryMap_def split: option.splits)
        moreover have "cstring ?rn" using "2.prems"(2) by (auto simp: cstring_def dest: in_set_dropD)
        ultimately have IH: "mset (trieClose (Some (trieInsert child ?rn v))) = add_mset v (mset (trieClose child))"
          using "2.IH"(1) [OF ne _ refl refl None] es tx(4) ne by simp
        have ins: "trieInsert (Some (Trie es ev)) n v = Trie (AList.update (hd n) (text, Some (trieInsert child ?rn v), value) es) ev"
          using ne es None by (simp del: elektraTrieStartsWith_None)
        show ?thesis unfolding ins by (rule upd) (simp add: IH)
      next
        case (Some p)
        note sw = elektraTrieStartsWith_Some [OF Some]
        let ?new = "trieInsert None (drop p n) v" and ?nn = "drop p text" and ?rn = "drop p n"
        have ins: "trieInsert (Some (Trie es ev)) n v = Trie (AList.update (hd n) (take p text,
            Some (Trie (AList.update (hd ?nn) (?nn, child, value) (entries ?new)) (empty_value ?new)), None) es) ev"
          using ne es Some sw(1) by (simp add: Let_def)
        have cs: "cstring ?rn" using "2.prems"(2) by (auto simp: cstring_def dest: in_set_dropD)
        have IH: "mset (trieClose (Some ?new)) = {#v#}"
          using "2.IH"(2) [OF ne _ refl refl Some refl refl] es cs ne by simp
        have dif: "hd ?rn \<noteq> hd ?nn" if "?rn \<noteq> []" using sw(1,4) that by (simp add: hd_drop_conv_nth)
        have "map_of (entries ?new) (hd ?nn) = None"
        proof (cases "?rn = []")
          case False
          from dif [OF False] False show ?thesis by simp
        qed simp
        then have "mset (trieClose (Some (Trie (AList.update (hd ?nn) (?nn, child, value) (entries ?new)) (empty_value ?new))))
            = add_mset v (mset (trieClose child) + optMset value)"
          using mset_trieClose_update [of "hd ?nn" "(?nn, child, value)" "entries ?new" "empty_value ?new"] IH
          by (simp only: trie.collapse entryClose_simps) simp
        then show ?thesis unfolding ins by (intro upd) simp
      qed
    qed
  qed
qed

section \<open>Mountpoints\<close>

text \<open>
  \<open>mountMountBackend\<close> (\<open>mount.c\<close>) inserts a backend under the name of its mountpoint and a slash. The
  mountpoints are given as namespace, levels and backend, in the order in which they are mounted.
\<close>

fun mountAll :: "(string \<times> string list \<times> 'b) list \<Rightarrow> 'b trie option \<Rightarrow> 'b trie option" where
  "mountAll [] t = t"
| "mountAll ((r, ls, b) # ms) t = mountAll ms (Some (trieInsert t (mkname (Some r) ls @ [SLASH]) b))"

lemma cstring_mkname: "good_levels (Some r) ls \<Longrightarrow> cstring (mkname (Some r) ls)"
  by (induction ls) (auto simp: mkname_def good_level_def cstring_def join_def)

lemma mountAll_map: "trie_ok t \<Longrightarrow> \<forall>(r, ls, b) \<in> set ms. good_levels (Some r) ls \<Longrightarrow>
  trie_ok (mountAll ms t) \<and>
  trieMap (mountAll ms t) = trieMap t ++ map_of (rev (map (\<lambda>(r, ls, b). (mkname (Some r) ls @ [SLASH], b)) ms))"
proof (induction ms t rule: mountAll.induct)
  case (2 r ls b ms t)
  have g: "good_levels (Some r) ls" using "2.prems"(2) by simp
  have "cstring (mkname (Some r) ls @ [SLASH])" using cstring_mkname [OF g] by (simp add: cstring_def)
  note ins = trieInsert_map [OF "2.prems"(1) this, of b]
  have "\<forall>(r, ls, b) \<in> set ms. good_levels (Some r) ls" using "2.prems"(2) by simp
  from "2.IH" [OF conjunct2 [OF ins] this] ins show ?case
    by (auto simp: map_add_def fun_eq_iff split: option.split)
qed simp

text \<open>As strings that end in a slash, names are prefixes of each other exactly as their levels are.\<close>

lemma prefix_mkname:
  assumes "good_levels (Some r) ls" "good_levels (Some c) cs"
  shows "prefix (mkname (Some r) ls @ [SLASH]) (mkname (Some c) cs @ [SLASH]) \<longleftrightarrow> r = c \<and> prefix ls cs"
proof
  assume "prefix (mkname (Some r) ls @ [SLASH]) (mkname (Some c) cs @ [SLASH])"
  then obtain t where "mkname (Some c) cs @ [SLASH] = mkname (Some r) ls @ SLASH # t" by (auto simp: prefix_def)
  then have "levels (mkname (Some c) cs @ SLASH # []) = levels (mkname (Some r) ls @ SLASH # t)" by simp
  then have "c # cs = r # ls @ levels t"
    unfolding levels_append_slash [OF levels_mkname(2) [OF assms(1)]] levels_append_slash [OF levels_mkname(2) [OF assms(2)]]
    using levels_mkname(1) [OF assms(1)] levels_mkname(1) [OF assms(2)] by simp
  then show "r = c \<and> prefix ls cs" by simp
next
  assume "r = c \<and> prefix ls cs"
  then obtain us where "c = r" "cs = ls @ us" by (auto simp: prefix_def)
  then show "prefix (mkname (Some r) ls @ [SLASH]) (mkname (Some c) cs @ [SLASH])"
    by (cases us) (simp_all add: mkname_def)
qed

lemma trieLookup_named:
  assumes "named k (Some r) ks"
  shows "trieLookup t (Some k) = elektraTriePrefixLookup t (mkname (Some r) ks @ [SLASH])"
proof -
  have "key k = Some (mkname (Some r) ks)" "keySize k = length (mkname (Some r) ks) + 1" "mkname (Some r) ks \<noteq> []"
    using assms by (auto simp: named_def mkname_not_Nil)
  then show ?thesis by (cases t) (simp_all add: trieLookup_def keyGetNameSize_def keyName_def)
qed

section \<open>Properties\<close>

text \<open>C20: \<open>trieInsert\<close> implements the update of a map from names to backends: it keeps the shape
  of the trie, and afterwards the trie stands for the map with the new binding.\<close>

theorem trie_insert:
  assumes "trie_ok t" "cstring n"
  shows "trieMap (Some (trieInsert t n v)) = (trieMap t)(n \<mapsto> v) \<and> trie_ok (Some (trieInsert t n v))"
  by (rule trieInsert_map [OF assms])

theorem trie_insert_witness:
  "trieMap (Some (trieInsert (Some (trieInsert None ''user/ab/'' (1 :: nat))) ''user/ac/'' 2))
     = (trieMap (Some (trieInsert None ''user/ab/'' 1)))(''user/ac/'' \<mapsto> 2)
   \<and> trie_ok (Some (trieInsert (Some (trieInsert None ''user/ab/'' (1 :: nat))) ''user/ac/'' 2))"
  by (rule trie_insert) (simp_all add: cstring_def trieIdx_def)

lemma trieLookup_nearest:
  assumes "\<forall>(r, ls, b) \<in> set ms. good_levels (Some r) ls" "named k (Some c) ks"
  shows "case trieLookup (mountAll ms None) (Some k) of
      None \<Rightarrow> \<forall>(r, ls, b) \<in> set ms. \<not> (r = c \<and> prefix ls ks)
    | Some b \<Rightarrow> \<exists>ls. (c, ls, b) \<in> set ms \<and> prefix ls ks \<and>
        (\<forall>(r, ls', b') \<in> set ms. r = c \<and> prefix ls' ks \<longrightarrow> prefix ls' ls)"
proof -
  let ?s = "mkname (Some c) ks @ [SLASH]" and ?f = "\<lambda>(r, ls, b). (mkname (Some r) ls @ [SLASH], b)"
  have gk: "good_levels (Some c) ks" using assms(2) by (simp add: named_def)
  have M: "trie_ok (mountAll ms None)" "trieMap (mountAll ms None) = map_of (rev (map ?f ms))"
    using mountAll_map [of None ms] assms(1) by (simp_all add: map_add_def fun_eq_iff split: option.splits)
  have "cstring ?s" using cstring_mkname [OF gk] by (simp add: cstring_def)
  then have L: "longest_match (map_of (rev (map ?f ms))) ?s (trieLookup (mountAll ms None) (Some k))"
    using elektraTriePrefixLookup_longest [OF M(1)] M(2) by (simp add: trieLookup_named [OF assms(2)])
  have dom: "map_of (rev (map ?f ms)) (mkname (Some r) ls @ [SLASH]) \<noteq> None" if "(r, ls, b) \<in> set ms" for r ls b
  proof -
    from that have "mkname (Some r) ls @ [SLASH] \<in> fst ` set (rev (map ?f ms))" by force
    then show ?thesis by (simp only: map_of_eq_None_iff not_not)
  qed
  have pre: "prefix (mkname (Some r) ls @ [SLASH]) ?s \<longleftrightarrow> r = c \<and> prefix ls ks" if "(r, ls, b) \<in> set ms" for r ls b
    using prefix_mkname [OF _ gk] assms(1) that by blast
  show ?thesis
  proof (cases "trieLookup (mountAll ms None) (Some k)")
    case None
    then have "\<not> (r = c \<and> prefix ls ks)" if "(r, ls, b) \<in> set ms" for r ls b
      using L dom [OF that] pre [OF that] by (auto simp: longest_match_def)
    then show ?thesis using None by (simp only: option.case) blast
  next
    case (Some b)
    then obtain p where p: "prefix p ?s" "map_of (rev (map ?f ms)) p = Some b"
      "\<And>q. prefix q ?s \<Longrightarrow> map_of (rev (map ?f ms)) q \<noteq> None \<Longrightarrow> length q \<le> length p"
      using L unfolding Some longest_match_def option.case by blast
    from map_of_SomeD [OF p(2)] obtain r ls where e: "(r, ls, b) \<in> set ms" "p = mkname (Some r) ls @ [SLASH]" by auto
    have rc: "r = c" "prefix ls ks" using pre [OF e(1)] p(1) e(2) by simp_all
    have "prefix ls' ls" if m: "(c, ls', b') \<in> set ms" "prefix ls' ks" for ls' b'
    proof -
      have "prefix (mkname (Some c) ls' @ [SLASH]) ?s" using pre [OF m(1)] m(2) by simp
      then have "prefix (mkname (Some c) ls' @ [SLASH]) p"
        using p(1) p(3) [OF _ dom [OF m(1)]] prefix_length_prefix by blast
      then show ?thesis using prefix_mkname e rc(1) m(1) assms(1) by blast
    qed
    then show ?thesis using Some e(1) rc by (simp only: option.case) blast
  qed
qed

text \<open>C21: \<open>trieLookup\<close> finds for every key the backend of the nearest mountpoint: after mounting
  any backends below the namespaces, the result belongs to a mountpoint whose levels are those of the key or of a key
  above it, no other such mountpoint has more levels, and a mountpoint is missed only if none matches.\<close>

theorem trie_lookup_nearest:
  assumes "\<forall>(r, ls, b) \<in> set ms. good_levels (Some r) ls" "named k (Some c) ks"
  shows "case trieLookup (mountAll ms None) (Some k) of
      None \<Rightarrow> \<forall>(r, ls, b) \<in> set ms. \<not> (r = c \<and> prefix ls ks)
    | Some b \<Rightarrow> \<exists>ls. (c, ls, b) \<in> set ms \<and> prefix ls ks \<and>
        (\<forall>(r, ls', b') \<in> set ms. r = c \<and> prefix ls' ks \<longrightarrow> prefix ls' ls)"
  by (rule trieLookup_nearest [OF assms])

theorem trie_lookup_nearest_witness:
  "case trieLookup (mountAll [(''user'', [''a''], 1 :: nat), (''user'', [], 2), (''system'', [], 3)] None) (Some (exKey ''user/a/b'')) of
      None \<Rightarrow> \<forall>(r, ls, b) \<in> set [(''user'', [''a''], 1 :: nat), (''user'', [], 2), (''system'', [], 3)]. \<not> (r = ''user'' \<and> prefix ls [''a'', ''b''])
    | Some b \<Rightarrow> \<exists>ls. (''user'', ls, b) \<in> set [(''user'', [''a''], 1 :: nat), (''user'', [], 2), (''system'', [], 3)] \<and> prefix ls [''a'', ''b''] \<and>
        (\<forall>(r, ls', b') \<in> set [(''user'', [''a''], 1 :: nat), (''user'', [], 2), (''system'', [], 3)]. r = ''user'' \<and> prefix ls' [''a'', ''b''] \<longrightarrow> prefix ls' ls)"
  by (rule trie_lookup_nearest [OF _ exKey_named(2)]) code_simp



end
