(* ===== verification/Split.thy ===== *)
theory Split
  imports Client KeyRelation MountTrie
begin

text \<open>
  Mounting and splitting: \<open>src/libs/elektra/mount.c\<close>, \<open>split.c\<close> and the sizes of \<open>backend.c\<close>. A handle holds the trie that
  tells which backend a key belongs to, and a list of all mountpoints. For \<open>kdbGet\<close> and \<open>kdbSet\<close> a second
  list, the split, gets the parts of the keyset that go to the single backends. The four parallel arrays of
  a split are one list of parts here; plugins and the messages of warnings, whose macro is generated, are left
  out: \<open>warn\<close> stands for \<open>ELEKTRA_ADD_WARNING\<close>.
\<close>

section \<open>State\<close>

type_synonym baddr = nat

type_synonym paddr = nat

record Backend =
  mountpoint :: "addr option"
  setplugins :: "nat \<Rightarrow> paddr option"
  getplugins :: "nat \<Rightarrow> paddr option"
  errorplugins :: "nat \<Rightarrow> paddr option"
  specsize :: int
  dirsize :: int
  usersize :: int
  systemsize :: int
  refcounter :: nat

text \<open>The slots of the plugins of a backend are numbered from 0.\<close>

type_synonym bmem = "baddr \<Rightarrow> Backend option"

abbreviation SPLIT_FLAG_SYNC :: flags_t where "SPLIT_FLAG_SYNC \<equiv> 1"
abbreviation SPLIT_FLAG_CASCADING :: flags_t where "SPLIT_FLAG_CASCADING \<equiv> 2"
abbreviation APPROXIMATE_NR_OF_BACKENDS :: nat where "APPROXIMATE_NR_OF_BACKENDS \<equiv> 16"

record Part =
  part_keys :: KeySet
  part_handle :: "baddr option"
  part_parent :: "addr option"
  part_sync :: flags_t

record Split =
  parts :: "Part list"
  split_alloc :: nat

datatype GlobalpluginPositions = PREROLLBACK | POSTROLLBACK | PREGETSTORAGE | POSTGETSTORAGE | POSTGETCLEANUP
  | PRESETSTORAGE | PRESETCLEANUP | PRECOMMIT | POSTCOMMIT

record KDB =
  kdb_trie :: "baddr trie option"
  kdb_split :: Split
  defaultBackend :: "baddr option"
  initBackend :: "baddr option"
  globalPlugins :: "GlobalpluginPositions \<Rightarrow> paddr option"

text \<open>The key behind a pointer.\<close>

abbreviation keyAt :: "mem \<Rightarrow> addr option \<Rightarrow> Key option" where
  "keyAt m p \<equiv> Option.bind p (keys m)"

section \<open>Looking backends up\<close>

definition mountGetBackend :: "KDB \<Rightarrow> Key option \<Rightarrow> baddr option" where
  "mountGetBackend handle k =
     (if k = None \<or> keyName k = Some [] then defaultBackend handle
      else case trieLookup (kdb_trie handle) k of None \<Rightarrow> defaultBackend handle | Some ret \<Rightarrow> Some ret)"

definition mountGetMountpoint :: "KDB \<Rightarrow> bmem \<Rightarrow> Key option \<Rightarrow> addr option option" where
  "mountGetMountpoint handle B key1 = (case mountGetBackend handle key1 of None \<Rightarrow> Some None
     | Some b \<Rightarrow> do { backend \<leftarrow> B b; Some (mountpoint backend) })"

section \<open>The list of parts\<close>

definition splitNew :: Split where
  "splitNew = \<lparr>parts = [], split_alloc = APPROXIMATE_NR_OF_BACKENDS\<rparr>"

definition splitResize :: "Split \<Rightarrow> Split" where
  "splitResize s = s\<lparr>split_alloc := split_alloc s * 2\<rparr>"

definition splitAppend :: "mem \<Rightarrow> Split option \<Rightarrow> baddr option \<Rightarrow> addr option \<Rightarrow> flags_t \<Rightarrow> (int \<times> mem \<times> Split option) option" where
  "splitAppend m s backend parentKey syncbits = (case s of
     None \<Rightarrow> do { (_, m1) \<leftarrow> keyDel m parentKey; Some (-1, m1, None) }
   | Some sp \<Rightarrow> do {
       let sp1 = (if length (parts sp) + 1 > split_alloc sp then splitResize sp else sp);
       let n = length (parts sp);
       (m1, ks) \<leftarrow> ksNew m 0 [];
       if n < split_alloc sp1
       then Some (int n, m1, Some (sp1\<lparr>parts := parts sp1 @ [\<lparr>part_keys = ks, part_handle = backend, part_parent = parentKey, part_sync = syncbits\<rparr>]\<rparr>))
       else None })"

fun delParts :: "mem \<Rightarrow> Part list \<Rightarrow> mem option" where
  "delParts m [] = Some m"
| "delParts m (p # ps) = do {
     (_, m1) \<leftarrow> ksDel m (Some (part_keys p));
     m2 \<leftarrow> (case part_parent p of None \<Rightarrow> Some m1 | Some a \<Rightarrow> decRef m1 a);
     (_, m3) \<leftarrow> keyDel m2 (part_parent p);
     delParts m3 ps }"

definition splitDel :: "mem \<Rightarrow> Split \<Rightarrow> mem option" where
  "splitDel m s = delParts m (parts s)"

definition splitRemove :: "mem \<Rightarrow> Split \<Rightarrow> nat \<Rightarrow> (mem \<times> Split) option" where
  "splitRemove m s w = (if w < length (parts s) then do {
       (_, m1) \<leftarrow> ksDel m (Some (part_keys (parts s ! w)));
       (_, m2) \<leftarrow> keyDel m1 (part_parent (parts s ! w));
       Some (m2, s\<lparr>parts := dropAt w (parts s)\<rparr>) }
     else None)"

text \<open>
  In a part that cascades the backend alone does not decide: of its parts the one with a parent in the namespace of the key
  is taken. For other namespaces the search ends.
\<close>

fun splitSearchLoop :: "mem \<Rightarrow> Part list \<Rightarrow> nat \<Rightarrow> baddr option \<Rightarrow> Key option \<Rightarrow> nat option" where
  "splitSearchLoop m [] i backend parent = None"
| "splitSearchLoop m (p # ps) i backend parent =
     (if backend = part_handle p then
        if test_bit (part_sync p) SPLIT_FLAG_CASCADING then
          (case keyGetNamespace parent of
             KEY_NS_SPEC \<Rightarrow> if keyIsSpec (keyAt m (part_parent p)) \<noteq> 0 then Some i else splitSearchLoop m ps (Suc i) backend parent
           | KEY_NS_DIR \<Rightarrow> if keyIsDir (keyAt m (part_parent p)) \<noteq> 0 then Some i else splitSearchLoop m ps (Suc i) backend parent
           | KEY_NS_USER \<Rightarrow> if keyIsUser (keyAt m (part_parent p)) \<noteq> 0 then Some i else splitSearchLoop m ps (Suc i) backend parent
           | KEY_NS_SYSTEM \<Rightarrow> if keyIsSystem (keyAt m (part_parent p)) \<noteq> 0 then Some i else splitSearchLoop m ps (Suc i) backend parent
           | _ \<Rightarrow> None)
        else Some i
      else splitSearchLoop m ps (Suc i) backend parent)"

definition splitSearchBackend :: "mem \<Rightarrow> Split \<Rightarrow> baddr option \<Rightarrow> Key option \<Rightarrow> nat option" where
  "splitSearchBackend m s backend parent = splitSearchLoop m (parts s) 0 backend parent"

definition setPart :: "nat \<Rightarrow> (Part \<Rightarrow> Part) \<Rightarrow> Split \<Rightarrow> Split" where
  "setPart i f s = s\<lparr>parts := (parts s)[i := f (parts s ! i)]\<rparr>"

section \<open>Distributing keys\<close>

text \<open>The loop of \<open>splitDivide\<close>; the first argument is more than the number of keys.\<close>

fun divideLoop :: "nat \<Rightarrow> KDB \<Rightarrow> mem \<Rightarrow> Split \<Rightarrow> KeySet \<Rightarrow> int \<Rightarrow> (int \<times> mem \<times> Split \<times> KeySet) option" where
  "divideLoop 0 handle m s ks needsSync = None"
| "divideLoop (Suc n) handle m s ks needsSync = do {
     (cur, ks1) \<leftarrow> ksNext ks;
     case cur of None \<Rightarrow> Some (needsSync, m, s, ks1)
     | Some curKey \<Rightarrow> do {
         k \<leftarrow> keys m curKey;
         case mountGetBackend handle (Some k) of None \<Rightarrow> Some (-1, m, s, ks1)
         | Some curHandle \<Rightarrow>
             (case splitSearchBackend m s (Some curHandle) (Some k) of
                None \<Rightarrow> divideLoop n handle m s ks1 needsSync
              | Some curFound \<Rightarrow> do {
                  (_, m1, ks2) \<leftarrow> ksAppendKey m (part_keys (parts s ! curFound)) (Some curKey);
                  k1 \<leftarrow> keys m1 curKey;
                  let s1 = setPart curFound (\<lambda>p. p\<lparr>part_keys := ks2\<rparr>) s;
                  if keyNeedSync (Some k1) = 1
                  then divideLoop n handle m1 (setPart curFound (\<lambda>p. p\<lparr>part_sync := part_sync p OR 1\<rparr>) s1) ks1 1
                  else divideLoop n handle m1 s1 ks1 needsSync }) } }"

definition splitDivide :: "KDB \<Rightarrow> mem \<Rightarrow> Split \<Rightarrow> KeySet \<Rightarrow> (int \<times> mem \<times> Split \<times> KeySet) option" where
  "splitDivide handle m s ks = divideLoop (Suc (ks_size ks)) handle m s (ksRewind ks) 0"

fun appointLoop :: "nat \<Rightarrow> KDB \<Rightarrow> nat \<Rightarrow> mem \<Rightarrow> Split \<Rightarrow> KeySet \<Rightarrow> (int \<times> mem \<times> Split \<times> KeySet) option" where
  "appointLoop 0 handle defFound m s ks = None"
| "appointLoop (Suc n) handle defFound m s ks = do {
     (cur, ks1) \<leftarrow> ksNext ks;
     case cur of None \<Rightarrow> Some (1, m, s, ks1)
     | Some curKey \<Rightarrow> do {
         k \<leftarrow> keys m curKey;
         case mountGetBackend handle (Some k) of None \<Rightarrow> Some (-1, m, s, ks1)
         | Some curHandle \<Rightarrow>
             let curFound = (case splitSearchBackend m s (Some curHandle) (Some k) of None \<Rightarrow> defFound | Some i \<Rightarrow> i) in
             if part_sync (parts s ! curFound) AND SPLIT_FLAG_SYNC \<noteq> 0 then appointLoop n handle defFound m s ks1
             else do {
               (_, m1, ks2) \<leftarrow> ksAppendKey m (part_keys (parts s ! curFound)) (Some curKey);
               appointLoop n handle defFound m1 (setPart curFound (\<lambda>p. p\<lparr>part_keys := ks2\<rparr>) s) ks1 } } }"

definition splitAppoint :: "KDB \<Rightarrow> mem \<Rightarrow> Split \<Rightarrow> KeySet \<Rightarrow> (int \<times> mem \<times> Split \<times> KeySet) option" where
  "splitAppoint handle m s ks = do {
     (defFound, m1, s1) \<leftarrow> splitAppend m (Some s) None None 0;
     s2 \<leftarrow> s1;
     appointLoop (Suc (ks_size ks)) handle (nat defFound) m1 s2 (ksRewind ks) }"

fun mergeLoop :: "mem \<Rightarrow> KeySet \<Rightarrow> Part list \<Rightarrow> (mem \<times> KeySet) option" where
  "mergeLoop m dest [] = Some (m, dest)"
| "mergeLoop m dest (p # ps) = do { (_, m1, dest1) \<leftarrow> ksAppend m dest (Some (part_keys p)); mergeLoop m1 dest1 ps }"

definition splitMerge :: "mem \<Rightarrow> Split \<Rightarrow> KeySet \<Rightarrow> (int \<times> mem \<times> KeySet) option" where
  "splitMerge m s dest = do { (m1, dest1) \<leftarrow> mergeLoop m dest (parts s); Some (1, m1, dest1) }"

section \<open>Sizes and sync bits\<close>

text \<open>The size a backend remembers for a namespace; \<open>None\<close> where the switches of the code have no such field.\<close>

definition sizedNamespace :: "elektraNamespace \<Rightarrow> bool" where
  "sizedNamespace ns \<longleftrightarrow> ns \<in> set [KEY_NS_SPEC, KEY_NS_DIR, KEY_NS_USER, KEY_NS_SYSTEM]"

definition nsSize :: "elektraNamespace \<Rightarrow> Backend \<Rightarrow> int" where
  "nsSize ns b = (case ns of KEY_NS_SPEC \<Rightarrow> specsize b | KEY_NS_DIR \<Rightarrow> dirsize b
     | KEY_NS_USER \<Rightarrow> usersize b | _ \<Rightarrow> systemsize b)"

definition setNsSize :: "elektraNamespace \<Rightarrow> int \<Rightarrow> Backend \<Rightarrow> Backend" where
  "setNsSize ns n b = (case ns of KEY_NS_SPEC \<Rightarrow> b\<lparr>specsize := n\<rparr> | KEY_NS_DIR \<Rightarrow> b\<lparr>dirsize := n\<rparr>
     | KEY_NS_USER \<Rightarrow> b\<lparr>usersize := n\<rparr> | _ \<Rightarrow> b\<lparr>systemsize := n\<rparr>)"

text \<open>The parameter of the size is an \<open>int\<close>. The other namespaces are an assertion, which without assertions is the return value \<open>-1\<close>.\<close>

definition backendUpdateSize :: "mem \<Rightarrow> bmem \<Rightarrow> baddr option \<Rightarrow> addr option \<Rightarrow> int \<Rightarrow> (int \<times> bmem) option" where
  "backendUpdateSize m B backend parent n =
     (let ns = keyGetNamespace (keyAt m parent) in
      if sizedNamespace ns then do { a \<leftarrow> backend; b \<leftarrow> B a; Some (0, B(a \<mapsto> setNsSize ns (toInt n) b)) }
      else Some (-1, B))"

fun updateSizes :: "mem \<Rightarrow> bmem \<Rightarrow> Part list \<Rightarrow> (int \<times> bmem) option" where
  "updateSizes m B [] = Some (1, B)"
| "updateSizes m B (p # ps) =
     (let ns = keyGetNamespace (keyAt m (part_parent p)) in
      if sizedNamespace ns
      then do { a \<leftarrow> part_handle p; b \<leftarrow> B a; updateSizes m (B(a \<mapsto> setNsSize ns (ksGetSize (Some (part_keys p))) b)) ps }
      else Some (-1, B))"

definition splitUpdateSize :: "mem \<Rightarrow> bmem \<Rightarrow> Split \<Rightarrow> (int \<times> bmem) option" where
  "splitUpdateSize m B s = updateSizes m B (parts s)"

text \<open>The loop of \<open>splitSync\<close>, which returns the parts with the bits it has set so far.\<close>

fun syncLoop :: "mem \<Rightarrow> bmem \<Rightarrow> nat \<Rightarrow> Part list \<Rightarrow> int \<Rightarrow> (int \<times> Part list) option" where
  "syncLoop m B i [] needsSync = Some (needsSync, [])"
| "syncLoop m B i (p # ps) needsSync =
     (let ns = keyGetNamespace (keyAt m (part_parent p)) in
      if sizedNamespace ns then do {
        a \<leftarrow> part_handle p; b \<leftarrow> B a;
        if nsSize ns b = -1 then Some (- int i - 2, p # ps)
        else if nsSize ns b \<noteq> ksGetSize (Some (part_keys p))
        then do { (r, qs) \<leftarrow> syncLoop m B (Suc i) ps 1; Some (r, p\<lparr>part_sync := set_bit_flag (part_sync p) SPLIT_FLAG_SYNC\<rparr> # qs) }
        else do { (r, qs) \<leftarrow> syncLoop m B (Suc i) ps needsSync; Some (r, p # qs) } }
      else Some (-1, p # ps))"

definition splitSync :: "mem \<Rightarrow> bmem \<Rightarrow> Split \<Rightarrow> (int \<times> Split) option" where
  "splitSync m B s = do { (r, qs) \<leftarrow> syncLoop m B 0 (parts s) 0; Some (r, s\<lparr>parts := qs\<rparr>) }"

text \<open>The loop of \<open>splitPrepare\<close> with its index; a removed part leaves the index where it is.\<close>

fun prepareLoop :: "nat \<Rightarrow> mem \<Rightarrow> Split \<Rightarrow> nat \<Rightarrow> (mem \<times> Split) option" where
  "prepareLoop 0 m s i = None"
| "prepareLoop (Suc n) m s i =
     (if i < length (parts s) then
        if part_sync (parts s ! i) AND 1 = 1 then do {
          (d, m1) \<leftarrow> ksDeepDup m (Some (part_keys (parts s ! i)));
          ks \<leftarrow> d;
          (_, m2) \<leftarrow> ksDel m1 (Some (part_keys (parts s ! i)));
          prepareLoop n m2 (setPart i (\<lambda>p. p\<lparr>part_keys := ks\<rparr>) s) (Suc i) }
        else do { (m1, s1) \<leftarrow> splitRemove m s i; prepareLoop n m1 s1 i }
      else Some (m, s))"

definition splitPrepare :: "mem \<Rightarrow> Split \<Rightarrow> (mem \<times> Split) option" where
  "splitPrepare m s = prepareLoop (Suc (length (parts s))) m s 0"

section \<open>After reading\<close>

text \<open>
  Dropping the current key: the message is that of the code, its parts are given to \<open>warn\<close>, which is called with the
  number of the warning. A backend without a mountpoint makes the code copy from a null pointer.
\<close>

type_synonym warner = "mem \<Rightarrow> addr option \<Rightarrow> nat \<Rightarrow> string \<Rightarrow> mem option"

definition elektraDropCurrentKey ::
    "warner \<Rightarrow> mem \<Rightarrow> bmem \<Rightarrow> KeySet \<Rightarrow> addr option \<Rightarrow> baddr option \<Rightarrow> baddr option \<Rightarrow> string \<Rightarrow> (mem \<times> KeySet) option" where
  "elektraDropCurrentKey warn m B ks warningKey curHandle otherHandle msg = do {
     let k = keyAt m (ksCurrent (Some ks));
     ca \<leftarrow> curHandle;
     cb \<leftarrow> B ca;
     curName \<leftarrow> keyName (keyAt m (mountpoint cb));
     let curValue = keyString m (keyAt m (mountpoint cb));
     other \<leftarrow> (case otherHandle of None \<Rightarrow> Some []
        | Some oa \<Rightarrow> do { ob \<leftarrow> B oa; otherName \<leftarrow> keyName (keyAt m (mountpoint ob));
            Some (CHR 0x22 # '' but instead to '' @ CHR 0x22 # otherName @ CHR 0x22 # '' with name '' @ CHR 0x22 # keyString m (keyAt m (mountpoint ob))) });
     let warningMsg = ''drop key '' @ (case keyName k of None \<Rightarrow> ''(no name)'' | Some n \<Rightarrow> n)
        @ '' not belonging to '' @ CHR 0x22 # curName @ CHR 0x22 # '' with name '' @ CHR 0x22 # curValue @ other
        @ CHR 0x22 # '' because '' @ msg;
     m1 \<leftarrow> warn m warningKey 79 warningMsg;
     let c = ksGetCursor (Some ks);
     (p, m2, ks1) \<leftarrow> elektraKsPopAtCursor m1 ks c;
     (_, m3) \<leftarrow> keyDel m2 p;
     ks2 \<leftarrow> ksSetCursor ks1 c;
     (_, ks3) \<leftarrow> elektraKsPrev ks2;
     Some (m3, ks3) }"

text \<open>Why a key of the right backend is dropped from a part with the given parent.\<close>

definition wrongNamespace :: "elektraNamespace \<Rightarrow> Key option \<Rightarrow> string option" where
  "wrongNamespace ns parent = (case ns of
     KEY_NS_SPEC \<Rightarrow> if keyIsSpec parent = 0 then Some ''it is not spec'' else None
   | KEY_NS_DIR \<Rightarrow> if keyIsDir parent = 0 then Some ''it is not dir'' else None
   | KEY_NS_USER \<Rightarrow> if keyIsUser parent = 0 then Some ''it is not user'' else None
   | KEY_NS_SYSTEM \<Rightarrow> if keyIsSystem parent = 0 then Some ''it is not system'' else None
   | KEY_NS_PROC \<Rightarrow> Some ''it has a proc key name''
   | KEY_NS_EMPTY \<Rightarrow> Some ''it has an empty name''
   | KEY_NS_META \<Rightarrow> Some ''it has a metaname''
   | KEY_NS_CASCADING \<Rightarrow> Some ''it has a cascading name''
   | KEY_NS_NONE \<Rightarrow> None)"

fun postprocessLoop :: "nat \<Rightarrow> warner \<Rightarrow> KDB \<Rightarrow> mem \<Rightarrow> bmem \<Rightarrow> baddr option \<Rightarrow> addr option \<Rightarrow> KeySet \<Rightarrow> addr option \<Rightarrow> (int \<times> mem \<times> KeySet) option" where
  "postprocessLoop 0 warn handle m B h par ks warningKey = None"
| "postprocessLoop (Suc n) warn handle m B h par ks warningKey = do {
     (c, ks1) \<leftarrow> ksNext ks;
     case c of None \<Rightarrow> Some (0, m, ks1)
     | Some cur \<Rightarrow> do {
         k \<leftarrow> keys m cur;
         case mountGetBackend handle (Some k) of None \<Rightarrow> Some (-1, m, ks1)
         | Some curHandle \<Rightarrow> do {
             k1 \<leftarrow> snd (keyClearSync (Some k));
             let m1 = storeKey m cur k1;
             if Some curHandle \<noteq> h then do {
               (m2, ks2) \<leftarrow> elektraDropCurrentKey warn m1 B ks1 warningKey (Some curHandle) h ''it is hidden by other mountpoint'';
               postprocessLoop n warn handle m2 B h par ks2 warningKey }
             else if keyGetNamespace (Some k1) = KEY_NS_NONE then Some (-1, m1, ks1)
             else case wrongNamespace (keyGetNamespace (Some k1)) (keyAt m1 par) of
                 None \<Rightarrow> postprocessLoop n warn handle m1 B h par ks1 warningKey
               | Some msg \<Rightarrow> do {
                   (m2, ks2) \<leftarrow> elektraDropCurrentKey warn m1 B ks1 warningKey (Some curHandle) None msg;
                   postprocessLoop n warn handle m2 B h par ks2 warningKey } } } }"

definition elektraSplitPostprocess :: "warner \<Rightarrow> KDB \<Rightarrow> mem \<Rightarrow> bmem \<Rightarrow> Part \<Rightarrow> addr option \<Rightarrow> (int \<times> mem \<times> Part) option" where
  "elektraSplitPostprocess warn handle m B p warningKey = do {
     (r, m1, ks) \<leftarrow> postprocessLoop (Suc (ks_size (part_keys p))) warn handle m B (part_handle p) (part_parent p) (ksRewind (part_keys p)) warningKey;
     Some (r, m1, p\<lparr>part_keys := ks\<rparr>) }"

text \<open>\<open>splitGet\<close> leaves out the last, default part.\<close>

fun getLoop :: "warner \<Rightarrow> KDB \<Rightarrow> mem \<Rightarrow> bmem \<Rightarrow> Part list \<Rightarrow> addr option \<Rightarrow> int \<Rightarrow> (int \<times> mem \<times> bmem \<times> Part list) option" where
  "getLoop warn handle m B [] warningKey ret = Some (ret, m, B, [])"
| "getLoop warn handle m B (p # ps) warningKey ret =
     (if test_bit (part_sync p) 0 then do { (r, m', B', qs) \<leftarrow> getLoop warn handle m B ps warningKey ret; Some (r, m', B', p # qs) }
      else do {
        (r1, m1, p1) \<leftarrow> elektraSplitPostprocess warn handle m B p warningKey;
        (r2, B1) \<leftarrow> backendUpdateSize m1 B (part_handle p1) (part_parent p1) (ksGetSize (Some (part_keys p1)));
        (r, m', B', qs) \<leftarrow> getLoop warn handle m1 B1 ps warningKey (if r1 = -1 \<or> r2 = -1 then -1 else ret);
        Some (r, m', B', p1 # qs) })"

definition splitGet :: "warner \<Rightarrow> KDB \<Rightarrow> mem \<Rightarrow> bmem \<Rightarrow> Split \<Rightarrow> addr option \<Rightarrow> (int \<times> mem \<times> bmem \<times> Split) option" where
  "splitGet warn handle m B s warningKey = (if parts s = [] then None
     else do {
       (ret, m1, B1, qs) \<leftarrow> getLoop warn handle m B (butlast (parts s)) warningKey 1;
       Some (ret, m1, B1, s\<lparr>parts := qs @ [last (parts s)]\<rparr>) })"


section \<open>Making the list of parts\<close>

definition elektraKeySetNameByNamespace :: "mem \<Rightarrow> addr option \<Rightarrow> elektraNamespace \<Rightarrow> (int \<times> mem) option" where
  "elektraKeySetNameByNamespace m parentKey ns = (case ns of
     KEY_NS_SPEC \<Rightarrow> do { (_, m1) \<leftarrow> keySetName m parentKey (Some ''spec''); Some (1, m1) }
   | KEY_NS_DIR \<Rightarrow> do { (_, m1) \<leftarrow> keySetName m parentKey (Some ''dir''); Some (1, m1) }
   | KEY_NS_USER \<Rightarrow> do { (_, m1) \<leftarrow> keySetName m parentKey (Some ''user''); Some (1, m1) }
   | KEY_NS_SYSTEM \<Rightarrow> do { (_, m1) \<leftarrow> keySetName m parentKey (Some ''system''); Some (1, m1) }
   | _ \<Rightarrow> Some (0, m))"

text \<open>Whether a mountpoint is taken over: it holds the parent key, or lies below it.\<close>

definition buildupTakes :: "mem \<Rightarrow> baddr option \<Rightarrow> Part \<Rightarrow> addr option \<Rightarrow> bool option" where
  "buildupTakes m backend p parentKey =
     (if parentKey = None then Some True
      else do {
        r1 \<leftarrow> (if backend = part_handle p then keyRel m (keyAt m (part_parent p)) (keyAt m parentKey) else Some (-1));
        if r1 \<ge> 0 then Some True
        else do { r2 \<leftarrow> keyRel m (keyAt m parentKey) (keyAt m (part_parent p)); Some (r2 \<ge> 0) } })"

fun buildupLoop :: "mem \<Rightarrow> baddr option \<Rightarrow> Part list \<Rightarrow> Split \<Rightarrow> addr option \<Rightarrow> (mem \<times> Split) option" where
  "buildupLoop m backend [] s parentKey = Some (m, s)"
| "buildupLoop m backend (p # ps) s parentKey = do {
     takes \<leftarrow> buildupTakes m backend p parentKey;
     if takes then do {
       (d, m1) \<leftarrow> keyDup m (part_parent p);
       (_, m2, s1) \<leftarrow> splitAppend m1 (Some s) (part_handle p) d (part_sync p);
       s2 \<leftarrow> s1;
       buildupLoop m2 backend ps s2 parentKey }
     else buildupLoop m backend ps s parentKey }"

definition splitBuildupPlain :: "mem \<Rightarrow> Split \<Rightarrow> KDB \<Rightarrow> addr option \<Rightarrow> (mem \<times> Split) option" where
  "splitBuildupPlain m s kdb parentKey =
     buildupLoop m (mountGetBackend kdb (keyAt m parentKey)) (parts (kdb_split kdb)) s parentKey"

fun buildupNamespaces :: "mem \<Rightarrow> Split \<Rightarrow> KDB \<Rightarrow> addr option \<Rightarrow> addr \<Rightarrow> elektraNamespace list \<Rightarrow> (mem \<times> Split) option" where
  "buildupNamespaces m s kdb parentKey a [] = Some (m, s)"
| "buildupNamespaces m s kdb parentKey a (ns # nss) = do {
     (r, m1) \<leftarrow> elektraKeySetNameByNamespace m (Some a) ns;
     if r = 0 then buildupNamespaces m1 s kdb parentKey a nss
     else do {
       k \<leftarrow> keys m1 a;
       k1 \<leftarrow> snd (keyAddName (Some k) (keyName (keyAt m1 parentKey)));
       (m2, s1) \<leftarrow> splitBuildupPlain (storeKey m1 a k1) s kdb (Some a);
       buildupNamespaces m2 s1 kdb parentKey a nss } }"

definition splitBuildup :: "mem \<Rightarrow> Split \<Rightarrow> KDB \<Rightarrow> addr option \<Rightarrow> (int \<times> mem \<times> Split) option" where
  "splitBuildup m s kdb parentKey =
     (case keyName (keyAt m parentKey) of
        None \<Rightarrow> do { (m1, s1) \<leftarrow> splitBuildupPlain m s kdb None; Some (1, m1, s1) }
      | Some name \<Rightarrow>
          if strcmp name '''' = 0 \<or> strcmp name ''/'' = 0 then do { (m1, s1) \<leftarrow> splitBuildupPlain m s kdb None; Some (1, m1, s1) }
          else if hd name = SLASH then do {
            (a, m1) \<leftarrow> keyNew m None [];
            (m2, s1) \<leftarrow> buildupNamespaces m1 s kdb parentKey a namespaces;
            (_, m3) \<leftarrow> keyDel m2 (Some a);
            Some (1, m3, s1) }
          else do { (m1, s1) \<leftarrow> splitBuildupPlain m s kdb parentKey; Some (1, m1, s1) })"

definition splitUpdateFileName :: "mem \<Rightarrow> Split \<Rightarrow> KDB \<Rightarrow> addr option \<Rightarrow> mem option" where
  "splitUpdateFileName m s handle a = (case mountGetBackend handle (keyAt m a) of None \<Rightarrow> Some m
     | Some curHandle \<Rightarrow> (case splitSearchBackend m s (Some curHandle) (keyAt m a) of None \<Rightarrow> Some m
       | Some curFound \<Rightarrow> do {
           (_, m1) \<leftarrow> keySetString m a (Some (keyString m (keyAt m (part_parent (parts s ! curFound)))));
           Some m1 }))"

section \<open>Mounting\<close>

text \<open>Inserting a backend into the trie, and a new key into the list of mountpoints.\<close>

definition mountAt :: "mem \<Rightarrow> KDB \<Rightarrow> baddr \<Rightarrow> string \<Rightarrow> string \<Rightarrow> string \<Rightarrow> flags_t \<Rightarrow> (mem \<times> KDB) option" where
  "mountAt m kdb b mp name val syncbits = do {
     let kdb1 = kdb\<lparr>kdb_trie := Some (trieInsert (kdb_trie kdb) mp b)\<rparr>;
     (a, m1) \<leftarrow> keyNew m (Some name) [VA_VALUE (Some (val @ [NUL]))];
     (_, m2, s) \<leftarrow> splitAppend m1 (Some (kdb_split kdb1)) (Some b) (Some a) syncbits;
     s1 \<leftarrow> s;
     Some (m2, kdb1\<lparr>kdb_split := s1\<rparr>) }"

text \<open>What the loops over the namespaces of a root and of a cascading backend insert; spec is mounted separately.\<close>

definition rootName :: "elektraNamespace \<Rightarrow> string option" where
  "rootName ns = (case ns of KEY_NS_SPEC \<Rightarrow> Some ''spec'' | KEY_NS_DIR \<Rightarrow> Some ''dir'' | KEY_NS_USER \<Rightarrow> Some ''user''
     | KEY_NS_SYSTEM \<Rightarrow> Some ''system'' | _ \<Rightarrow> None)"

fun mountRoot :: "mem \<Rightarrow> KDB \<Rightarrow> baddr \<Rightarrow> addr option \<Rightarrow> elektraNamespace list \<Rightarrow> nat \<Rightarrow> (mem \<times> KDB \<times> nat) option" where
  "mountRoot m kdb b mp [] rc = Some (m, kdb, rc)"
| "mountRoot m kdb b mp (ns # nss) rc = (case rootName ns of
     None \<Rightarrow> mountRoot m kdb b mp nss rc
   | Some r \<Rightarrow> do {
       name \<leftarrow> keyName (keyAt m mp);
       (m1, kdb1) \<leftarrow> mountAt m kdb b (r @ name) r ''root'' 2;
       mountRoot m1 kdb1 b mp nss (rc + 1) })"

fun mountCascading :: "mem \<Rightarrow> KDB \<Rightarrow> baddr \<Rightarrow> addr option \<Rightarrow> elektraNamespace list \<Rightarrow> nat \<Rightarrow> (mem \<times> KDB \<times> nat) option" where
  "mountCascading m kdb b mp [] rc = Some (m, kdb, rc)"
| "mountCascading m kdb b mp (ns # nss) rc = (if ns = KEY_NS_SPEC \<or> rootName ns = None then mountCascading m kdb b mp nss rc
     else do {
       name \<leftarrow> keyName (keyAt m mp);
       let mountpoint = the (rootName ns) @ name @ ''/'';
       (m1, kdb1) \<leftarrow> mountAt m kdb b mountpoint mountpoint (keyString m (keyAt m mp)) 2;
       mountCascading m1 kdb1 b mp nss (rc + 1) })"

definition mountBackend :: "mem \<Rightarrow> bmem \<Rightarrow> KDB \<Rightarrow> baddr \<Rightarrow> (int \<times> mem \<times> bmem \<times> KDB) option" where
  "mountBackend m B kdb b = do {
     backend \<leftarrow> B b;
     let mp = mountpoint backend;
     name \<leftarrow> keyName (keyAt m mp);
     (m1, kdb1, rc) \<leftarrow>
       (if strcmp name '''' = 0 then do { (m1, kdb1) \<leftarrow> mountAt m kdb b ''system/elektra/'' ''system/elektra/'' ''default'' 0; Some (m1, kdb1, 1) }
        else if strcmp name ''/'' = 0 then mountRoot m kdb b mp namespaces 0
        else if hd name = SLASH then mountCascading m kdb b mp namespaces 0
        else do {
          let kdb1 = kdb\<lparr>kdb_trie := Some (trieInsert (kdb_trie kdb) (name @ ''/'') b)\<rparr>;
          (d, m1) \<leftarrow> keyDup m mp;
          (_, m2, s) \<leftarrow> splitAppend m1 (Some (kdb_split kdb1)) (Some b) d 0;
          s1 \<leftarrow> s;
          Some (m2, kdb1\<lparr>kdb_split := s1\<rparr>, 1) });
     Some (1, m1, B(b \<mapsto> backend\<lparr>refcounter := rc\<rparr>), kdb1) }"


end
