(* ===== verification/SplitFacts.thy ===== *)
theory SplitFacts
  imports Split
begin

text \<open>
  Facts about the split: the search for the part of a key, dividing a keyset into the parts of its
  backends and merging them again, and the sizes by which \<open>kdbSet\<close> notices removed keys.
\<close>

section \<open>The part of a key\<close>

text \<open>Two keys of the same name; all lookups of backends and parts depend on nothing else.\<close>

definition nameEq :: "Key option \<Rightarrow> Key option \<Rightarrow> bool" where
  "nameEq = rel_option (\<lambda>k k'. key k = key k' \<and> keySize k = keySize k')"

lemma nameEq_refl [simp]: "nameEq k k"
  by (cases k) (simp_all add: nameEq_def)

lemma nameEq_sym: "nameEq k k' \<Longrightarrow> nameEq k' k"
  by (cases k; cases k') (simp_all add: nameEq_def)

lemma nameEq_cases:
  assumes "nameEq k k'"
  obtains "k = None" "k' = None" | x y where "k = Some x" "k' = Some y" "key x = key y" "keySize x = keySize y"
  using assms by (cases k; cases k') (simp_all add: nameEq_def)

lemma nameEq_ns:
  assumes "nameEq k k'"
  shows "keyGetNamespace k = keyGetNamespace k'" "keyIsSpec k = keyIsSpec k'" "keyIsDir k = keyIsDir k'" "keyIsUser k = keyIsUser k'"
    "keyIsSystem k = keyIsSystem k'"
  using assms unfolding keyIsSpec_def keyIsDir_def keyIsUser_def keyIsSystem_def keyGetNamespace_def nsTest_def
  by (cases rule: nameEq_cases; simp)+

lemma nameEq_backend:
  assumes "nameEq k k'"
  shows "mountGetBackend handle k = mountGetBackend handle k'"
  using assms
proof (cases rule: nameEq_cases)
  case (2 x y)
  have "keyName k = keyName k'" "keyGetNameSize k = keyGetNameSize k'" using 2 by (simp_all add: keyName_def keyGetNameSize_def split: option.split)
  moreover have "trieLookup t k = trieLookup t k'" for t :: "baddr trie option"
    unfolding trieLookup_def \<open>keyName k = keyName k'\<close> \<open>keyGetNameSize k = keyGetNameSize k'\<close> using 2(1,2) by simp
  ultimately show ?thesis using 2(1,2) by (simp add: mountGetBackend_def)
qed simp

lemma kept_nameEq: "kept m m' \<Longrightarrow> (\<And>b. keys m' b = None \<longleftrightarrow> keys m b = None) \<Longrightarrow> nameEq (keys m b) (keys m' b)"
proof -
  assume k: "kept m m'" and l: "\<And>b. keys m' b = None \<longleftrightarrow> keys m b = None"
  show ?thesis
  proof (cases "keys m b")
    case None
    then show ?thesis using l [of b] by (simp add: nameEq_def)
  next
    case (Some x)
    then obtain y where y: "keys m' b = Some y" using l [of b] by auto
    then show ?thesis using core_eqD [OF keptD [OF k Some y]] Some by (simp add: nameEq_def)
  qed
qed

definition samePart :: "Part \<Rightarrow> Part \<Rightarrow> bool" where
  "samePart p q \<longleftrightarrow> part_handle p = part_handle q \<and> part_parent p = part_parent q
     \<and> test_bit (part_sync p) SPLIT_FLAG_CASCADING = test_bit (part_sync q) SPLIT_FLAG_CASCADING"

lemma splitSearchLoop_cong:
  assumes "list_all2 samePart ps qs" "\<And>b. nameEq (keys m b) (keys m' b)" "nameEq k k'"
  shows "splitSearchLoop m ps i b k = splitSearchLoop m' qs i b k'"
  using assms(1)
proof (induction ps qs arbitrary: i rule: list_all2_induct)
  case (Cons p ps q qs)
  have "nameEq (keyAt m (part_parent p)) (keyAt m' (part_parent q))"
    using Cons.hyps(1) assms(2) by (cases "part_parent q") (simp_all add: samePart_def)
  note e = nameEq_ns(2-5) [OF this] nameEq_ns(1) [OF assms(3)]
  have IH: "splitSearchLoop m ps (Suc i) b k = splitSearchLoop m' qs (Suc i) b k'" by (rule Cons.IH)
  have p: "part_handle p = part_handle q" "test_bit (part_sync p) SPLIT_FLAG_CASCADING = test_bit (part_sync q) SPLIT_FLAG_CASCADING"
    using Cons.hyps(1) by (simp_all add: samePart_def)
  show ?case unfolding splitSearchLoop.simps e p IH by (rule refl)
qed simp

lemma splitSearchLoop_bound: "splitSearchLoop m ps i b k = Some j \<Longrightarrow> i \<le> j \<and> j < i + length ps"
  by (induction ps arbitrary: i) (force split: if_splits elektraNamespace.splits)+

text \<open>The part found has the backend, and if it cascades, a parent in the namespace of the key.\<close>

definition keyRoute :: "KDB \<Rightarrow> mem \<Rightarrow> Part list \<Rightarrow> addr \<Rightarrow> nat option" where
  "keyRoute handle m ps a = (case mountGetBackend handle (keys m a) of None \<Rightarrow> None
     | Some b \<Rightarrow> splitSearchLoop m ps 0 (Some b) (keys m a))"

lemma keyRoute_bound: "keyRoute handle m ps a = Some i \<Longrightarrow> i < length ps"
  using splitSearchLoop_bound by (fastforce simp: keyRoute_def split: option.splits)

lemma keyRoute_cong:
  assumes "list_all2 samePart ps qs" "\<And>b. nameEq (keys m b) (keys m' b)"
  shows "keyRoute handle m ps a = keyRoute handle m' qs a"
  unfolding keyRoute_def nameEq_backend [OF assms(2)] splitSearchLoop_cong [OF assms assms(2)] ..

section \<open>Dividing\<close>

definition wantsSync :: "mem \<Rightarrow> addr \<Rightarrow> bool" where
  "wantsSync m a \<longleftrightarrow> keyNeedSync (keys m a) = 1"

text \<open>The parts after the keys \<open>as\<close>: in each part the keys that belong there, in their order, and the sync bit if one of them needs it.\<close>

definition divided :: "KDB \<Rightarrow> mem \<Rightarrow> Part list \<Rightarrow> addr list \<Rightarrow> Part list \<Rightarrow> bool" where
  "divided handle m0 ps0 as ps \<longleftrightarrow> length ps = length ps0 \<and>
     (\<forall>i < length ps. part_handle (ps ! i) = part_handle (ps0 ! i) \<and> part_parent (ps ! i) = part_parent (ps0 ! i)
        \<and> klist (part_keys (ps ! i)) = filter (\<lambda>a. keyRoute handle m0 ps0 a = Some i) as
        \<and> part_sync (ps ! i) = (if \<exists>a \<in> set as. keyRoute handle m0 ps0 a = Some i \<and> wantsSync m0 a then part_sync (ps0 ! i) OR 1 else part_sync (ps0 ! i)))"

lemma cascading_or_1: "test_bit (x OR 1) SPLIT_FLAG_CASCADING = test_bit x SPLIT_FLAG_CASCADING" for x :: flags_t
  by (simp add: test_bit_def bit.conj_disj_distrib2)

lemma divided_same: "divided handle m0 ps0 as ps \<Longrightarrow> list_all2 samePart ps ps0"
  by (auto simp: divided_def samePart_def cascading_or_1 list_all2_conv_all_nth)

lemma divided_skip: "divided handle m0 ps0 as ps \<Longrightarrow> keyRoute handle m0 ps0 a = None \<Longrightarrow> divided handle m0 ps0 (as @ [a]) ps"
  by (auto simp: divided_def)

lemma divided_step:
  assumes d: "divided handle m0 ps0 as ps" and r: "keyRoute handle m0 ps0 a = Some j"
    and ks: "klist ks = klist (part_keys (ps ! j)) @ [a]"
    and sy: "fl = (if wantsSync m0 a then part_sync (ps ! j) OR 1 else part_sync (ps ! j))"
  shows "divided handle m0 ps0 (as @ [a]) (ps[j := (ps ! j)\<lparr>part_keys := ks, part_sync := fl\<rparr>])"
proof -
  have j: "j < length ps" using keyRoute_bound [OF r] d by (simp add: divided_def)
  show ?thesis unfolding divided_def
  proof (intro conjI allI impI)
    show "length (ps[j := (ps ! j)\<lparr>part_keys := ks, part_sync := fl\<rparr>]) = length ps0" using d by (simp add: divided_def)
    fix i assume i: "i < length (ps[j := (ps ! j)\<lparr>part_keys := ks, part_sync := fl\<rparr>])"
    then have D: "part_handle (ps ! i) = part_handle (ps0 ! i)" "part_parent (ps ! i) = part_parent (ps0 ! i)"
      "klist (part_keys (ps ! i)) = filter (\<lambda>a. keyRoute handle m0 ps0 a = Some i) as"
      "part_sync (ps ! i) = (if \<exists>a \<in> set as. keyRoute handle m0 ps0 a = Some i \<and> wantsSync m0 a then part_sync (ps0 ! i) OR 1 else part_sync (ps0 ! i))"
      using d by (simp_all add: divided_def)
    let ?p = "ps[j := (ps ! j)\<lparr>part_keys := ks, part_sync := fl\<rparr>] ! i"
    show "part_handle ?p = part_handle (ps0 ! i)" "part_parent ?p = part_parent (ps0 ! i)"
      using D(1,2) j by (cases "i = j"; simp)+
    show "klist (part_keys ?p) = filter (\<lambda>a. keyRoute handle m0 ps0 a = Some i) (as @ [a])"
      using D(3) j ks r by (cases "i = j") simp_all
    show "part_sync ?p = (if \<exists>a \<in> set (as @ [a]). keyRoute handle m0 ps0 a = Some i \<and> wantsSync m0 a then part_sync (ps0 ! i) OR 1 else part_sync (ps0 ! i))"
      using D(4) j sy r by (cases "i = j") (auto simp: or.assoc)
  qed
qed

text \<open>The state of the loop: nothing but flags and counters differ from the memory at its start.\<close>

definition divState :: "KDB \<Rightarrow> mem \<Rightarrow> Part list \<Rightarrow> addr multiset \<Rightarrow> KeySet \<Rightarrow> addr list \<Rightarrow> mem \<Rightarrow> Part list \<Rightarrow> bool" where
  "divState handle m0 ps0 H ks0 as m ps \<longleftrightarrow>
     sys_inv \<lparr>heap = m, held = H, sets = ks0 # map part_keys ps\<rparr> \<and> divided handle m0 ps0 as ps \<and> kept m0 m
     \<and> (\<forall>b. keys m b = None \<longleftrightarrow> keys m0 b = None) \<and> (\<forall>b. wantsSync m b = wantsSync m0 b)
     \<and> (\<forall>b. refs m b = refs m0 b + (if b \<in> set as \<and> keyRoute handle m0 ps0 b \<noteq> None then 1 else 0))"

lemma divState_append:
  assumes d: "divState handle m0 ps0 H ks0 as m ps" and ok0: "heap_ok m0 E0"
    and srt: "sorted_wrt (\<lambda>a b. okeyA m0 a < okeyA m0 b) (as @ a # rest)"
    and live: "\<And>b. b \<in> set (as @ a # rest) \<Longrightarrow> \<exists>k. keys m0 b = Some k \<and> key k \<noteq> None"
    and r: "keyRoute handle m0 ps0 a = Some j" and small: "refs m0 a < SSIZE_MAX"
  obtains q m1 ks1 where "ksAppendKey m (part_keys (ps ! j)) (Some a) = Some (q, m1, ks1)"
    "keys m1 a \<noteq> None" "divState handle m0 ps0 H ks0 (as @ [a]) m1 (ps[j := (ps ! j)\<lparr>part_keys := ks1, part_sync := (if wantsSync m0 a then part_sync (ps ! j) OR 1 else part_sync (ps ! j))\<rparr>])"
proof -
  let ?S = "ks0 # map part_keys ps" and ?ks = "part_keys (ps ! j)"
  have si: "sys_inv \<lparr>heap = m, held = H, sets = ?S\<rparr>" and dv: "divided handle m0 ps0 as ps" and kp: "kept m0 m"
    and lv: "\<And>b. keys m b = None \<longleftrightarrow> keys m0 b = None" and ws: "\<And>b. wantsSync m b = wantsSync m0 b"
    and rf: "\<And>b. refs m b = refs m0 b + (if b \<in> set as \<and> keyRoute handle m0 ps0 b \<noteq> None then 1 else 0)"
    using d unfolding divState_def by blast+
  note I = sys_invD [OF si, simplified]
  have j: "j < length ps" using keyRoute_bound [OF r] dv by (simp add: divided_def)
  have sj: "?S ! Suc j = ?ks" "Suc j < length ?S" using j by simp_all
  let ?L = "dropAt (Suc j) ?S"
  have kl: "klist ?ks = filter (\<lambda>a. keyRoute handle m0 ps0 a = Some j) as" using dv j by (simp add: divided_def)
  have ks: "ks_ok m ?ks (klist ?ks)" using I(4) j by simp
  have ok: "heap_ok m ((H + setRefs ?L) + mset (klist ?ks))" using I(2) setRefs_split [OF sj(2)] sj(1) by (simp add: ac_simps)
  have ek: "okeyA m b = okeyA m0 b" if "b \<in> set (as @ a # rest)" for b
    using okeyA_kept [OF ok0 I(2) kp, of b] live [OF that] lv [of b] by auto
  obtain k where k: "keys m a = Some k" using live [of a] lv [of a] by fastforce
  have kn: "key k \<noteq> None" using live [of a] core_eqD(3) [OF keptD [OF kp _ k]] by fastforce
  have na: "a \<notin> set as" using srt by (auto simp: sorted_wrt_append)
  then have kr: "ksReference k < SSIZE_MAX" using rf [of a] k small by (simp add: refs_def)
  have lt: "okeyA m b < okeyA m a" if "b \<in> set (klist ?ks)" for b
    using that srt ek [of b] ek [of a] by (auto simp: kl sorted_wrt_append)
  then have new: "okeyA m b \<noteq> okeyA m a" if "b \<in> set (klist ?ks)" for b using that by fastforce
  obtain q m1 ks1 where ap: "ksAppendKey m ?ks (Some a) = Some (q, m1, ks1)" "metaRefs m1 = metaRefs m" "\<And>b. keys m1 b = None \<longleftrightarrow> keys m b = None"
    "\<And>b. b \<noteq> a \<Longrightarrow> keys m1 b = keys m b" "keyNeedSync (keys m1 a) = keyNeedSync (keys m a)" "refs m1 a = Suc (refs m a)"
    by (rule ksAppendKey_new [OF ks ok k kn kr new]) (assumption, rule that)
  note A = ksAppendKey_ok [OF ks ok k kn kr ap(1)]
  have "filter (\<lambda>b. okeyA m b < okeyA m a) (klist ?ks) = klist ?ks" "filter (\<lambda>b. okeyA m a < okeyA m b) (klist ?ks) = []"
    using lt by (auto simp: filter_id_conv filter_empty_conv dest: less_not_sym)
  then have kl1: "klist ks1 = klist ?ks @ [a]" using klist_ok [OF A(1)] by (simp add: appended_def)
  define fl where "fl = (if wantsSync m0 a then part_sync (ps ! j) OR 1 else part_sync (ps ! j))"
  let ?ps = "ps[j := (ps ! j)\<lparr>part_keys := ks1, part_sync := fl\<rparr>]"
  have S1: "ks0 # map part_keys ?ps = ?S[Suc j := ks1]" by (simp add: map_update)
  have "sys_inv \<lparr>heap = m1, held = H, sets = ?S[Suc j := ks1]\<rparr>"
    by (rule sys_inv_set [OF si, of m1 H ?L ks1])
      (use A(1,2,4,5) klist_ok [OF A(1)] set_dropAt(1) [of "Suc j" ?S] set_dropAt(2) [OF sj(2)] setRefs_update [OF sj(2)] in \<open>simp_all add: ac_simps\<close>)
  moreover have "divided handle m0 ps0 (as @ [a]) ?ps" by (rule divided_step [OF dv r kl1 fl_def])
  moreover have "kept m0 m1" by (rule kept_trans [OF kp A(4) A(5)])
  moreover have "keys m1 b = None \<longleftrightarrow> keys m0 b = None" for b using ap(3) lv by blast
  moreover have "wantsSync m1 b = wantsSync m0 b" for b
    using ap(4) [of b] ap(5) ws [of b] by (cases "b = a") (simp_all add: wantsSync_def)
  moreover have "refs m1 b = refs m0 b + (if b \<in> set (as @ [a]) \<and> keyRoute handle m0 ps0 b \<noteq> None then 1 else 0)" for b
    using ap(4) [of b] ap(6) rf [of b] r na by (cases "b = a") (simp_all add: refs_def)
  ultimately have "divState handle m0 ps0 H ks0 (as @ [a]) m1 ?ps" unfolding divState_def S1 by blast
  then show thesis using that ap(1) ap(3) [of a] k unfolding fl_def by auto
qed


lemma divideLoop_ok:
  assumes r: "repr ks0 xs" and ok0: "heap_ok m0 E0" and srt: "sorted_wrt (\<lambda>a b. okeyA m0 a < okeyA m0 b) xs"
    and live: "\<And>b. b \<in> set xs \<Longrightarrow> \<exists>k. keys m0 b = Some k \<and> key k \<noteq> None"
    and def: "\<And>k. mountGetBackend handle k \<noteq> None" and small: "\<forall>b \<in> set xs. refs m0 b < SSIZE_MAX"
  shows "i \<le> length xs \<Longrightarrow> length xs - i < n \<Longrightarrow> divState handle m0 ps0 H ks0 (take i xs) m (parts s) \<Longrightarrow>
    \<exists>m' s' ks'. divideLoop n handle m s (metaAt ks0 xs i) sync
        = Some (if \<exists>a \<in> set (drop i xs). keyRoute handle m0 ps0 a \<noteq> None \<and> wantsSync m0 a then 1 else sync, m', s', ks')
      \<and> ksRewind ks' = ksRewind ks0 \<and> divState handle m0 ps0 H ks0 xs m' (parts s')"
proof (induction n arbitrary: i m s sync)
  case (Suc n)
  show ?case
  proof (cases "i < length xs")
    case False
    then have i: "i = length xs" using Suc.prems by simp
    obtain ks' where "ksNext (metaAt ks0 xs (length xs)) = Some (None, ks')" "ksRewind ks' = ksRewind ks0"
      using ksNext_metaAt(2) [OF r] by blast
    then show ?thesis using Suc.prems(3) i by simp
  next
    case i: True
    let ?a = "xs ! i"
    have x: "drop i xs = ?a # drop (Suc i) xs" "take (Suc i) xs = take i xs @ [?a]" "take i xs @ ?a # drop (Suc i) xs = xs"
      using i by (simp_all add: Cons_nth_drop_Suc take_Suc_conv_app_nth id_take_nth_drop [symmetric])
    have nx: "ksNext (metaAt ks0 xs i) = Some (Some ?a, metaAt ks0 xs (Suc i))" by (rule ksNext_metaAt(1) [OF r i])
    have st: "divState handle m0 ps0 H ks0 (take i xs) m (parts s)" by (rule Suc.prems(3))
    then have kp: "kept m0 m" "\<And>b. keys m b = None \<longleftrightarrow> keys m0 b = None" and dv: "divided handle m0 ps0 (take i xs) (parts s)"
      unfolding divState_def by blast+
    obtain k0 where "keys m0 ?a = Some k0" using live [of ?a] i by auto
    then obtain k where k: "keys m ?a = Some k" using kp(2) [of ?a] by auto
    obtain b where b: "mountGetBackend handle (Some k) = Some b" using def [of "Some k"] by auto
    have ro: "splitSearchBackend m s (Some b) (Some k) = keyRoute handle m0 ps0 ?a"
      using keyRoute_cong [OF divided_same [OF dv], of m m0 handle ?a] kept_nameEq [OF kp] nameEq_sym b k
      by (simp add: keyRoute_def splitSearchBackend_def)
    note IH = Suc.IH [of "Suc i"]
    have le: "Suc i \<le> length xs" "length xs - Suc i < n" using i Suc.prems(2) by auto
    show ?thesis
    proof (cases "keyRoute handle m0 ps0 ?a")
      case None
      have "divState handle m0 ps0 H ks0 (take (Suc i) xs) m (parts s)"
        using st divided_skip [OF dv None] x(2) None by (auto simp: divState_def)
      then show ?thesis using IH [OF le] nx k b ro None x(1) by simp
    next
      case (Some j)
      have srt': "sorted_wrt (\<lambda>a b. okeyA m0 a < okeyA m0 b) (take i xs @ ?a # drop (Suc i) xs)" unfolding x(3) by (rule srt)
      have sm: "refs m0 ?a < SSIZE_MAX" using small i by simp
      have live': "\<exists>k. keys m0 b = Some k \<and> key k \<noteq> None" if "b \<in> set (take i xs @ ?a # drop (Suc i) xs)" for b
        using that unfolding x(3) by (rule live)
      obtain q m1 ks1 where ap: "ksAppendKey m (part_keys (parts s ! j)) (Some ?a) = Some (q, m1, ks1)" "keys m1 ?a \<noteq> None"
        "divState handle m0 ps0 H ks0 (take i xs @ [?a]) m1
          ((parts s)[j := (parts s ! j)\<lparr>part_keys := ks1, part_sync := (if wantsSync m0 ?a then part_sync (parts s ! j) OR 1 else part_sync (parts s ! j))\<rparr>])"
        by (rule divState_append [OF st ok0 srt' live' Some sm])
      obtain k1 where k1: "keys m1 ?a = Some k1" using ap(2) by auto
      have ns: "keyNeedSync (Some k1) = 1 \<longleftrightarrow> wantsSync m0 ?a" using ap(3) k1 unfolding divState_def by (metis wantsSync_def)
      have j: "j < length (parts s)" using keyRoute_bound [OF Some] dv by (simp add: divided_def)
      let ?s1 = "setPart j (\<lambda>p. p\<lparr>part_keys := ks1\<rparr>) s"
      have step: "divideLoop (Suc n) handle m s (metaAt ks0 xs i) sync =
        (if wantsSync m0 ?a then divideLoop n handle m1 (setPart j (\<lambda>p. p\<lparr>part_sync := part_sync p OR 1\<rparr>) ?s1) (metaAt ks0 xs (Suc i)) 1
         else divideLoop n handle m1 ?s1 (metaAt ks0 xs (Suc i)) sync)"
        using nx k b ro Some ap(1) k1 ns by simp
      show ?thesis
      proof (cases "wantsSync m0 ?a")
        case True
        have "divState handle m0 ps0 H ks0 (take (Suc i) xs) m1 (parts (setPart j (\<lambda>p. p\<lparr>part_sync := part_sync p OR 1\<rparr>) ?s1))"
          using ap(3) True j x(2) by (simp add: setPart_def)
        from IH [OF le this, of 1] show ?thesis unfolding step x(1) using True Some by simp
      next
        case False
        have "(parts s ! j)\<lparr>part_keys := ks1, part_sync := part_sync (parts s ! j)\<rparr> = (parts s ! j)\<lparr>part_keys := ks1\<rparr>" by simp
        then have "divState handle m0 ps0 H ks0 (take (Suc i) xs) m1 (parts ?s1)"
          using ap(3) False x(2) by (simp add: setPart_def)
        from IH [OF le this, of sync] show ?thesis unfolding step x(1) using False by simp
      qed
    qed
  qed
qed simp


lemma splitDivide_ok:
  assumes si: "sys_inv \<lparr>heap = m, held = H, sets = ks # map part_keys (parts s)\<rparr>" and e: "\<forall>p \<in> set (parts s). klist (part_keys p) = []"
    and small: "\<forall>a \<in> set (klist ks). refs m a < SSIZE_MAX" and def: "defaultBackend handle \<noteq> None"
  obtains m' s' ks' where "splitDivide handle m s ks
      = Some (if \<exists>a \<in> set (klist ks). keyRoute handle m (parts s) a \<noteq> None \<and> wantsSync m a then 1 else 0, m', s', ks')"
    "ksRewind ks' = ksRewind ks" "divState handle m (parts s) H ks (klist ks) m' (parts s')"
proof -
  note I = sys_invD [OF si, simplified]
  have ok: "ks_ok m ks (klist ks)" using I(4) by simp
  have r: "repr ks (klist ks)" by (rule ks_okD(1) [OF ok])
  have st: "divState handle m (parts s) H ks (take 0 (klist ks)) m (parts s)"
    using si e by (simp add: divState_def divided_def kept_def)
  have mb: "mountGetBackend handle k \<noteq> None" for k using def by (simp add: mountGetBackend_def split: option.split)
  have ex: "\<exists>m' s' ks'. divideLoop (Suc (ks_size ks)) handle m s (metaAt ks (klist ks) 0) 0
        = Some (if \<exists>a \<in> set (drop 0 (klist ks)). keyRoute handle m (parts s) a \<noteq> None \<and> wantsSync m a then 1 else 0, m', s', ks')
      \<and> ksRewind ks' = ksRewind ks \<and> divState handle m (parts s) H ks (klist ks) m' (parts s')"
    by (rule divideLoop_ok [OF r I(2) ks_okD(3) [OF ok] ks_okD(2) [OF ok] mb small _ _ st]) (simp_all add: repr_size [OF r])
  have z: "metaAt ks (klist ks) 0 = ksRewind ks" by (simp add: metaAt_def)
  from ex show thesis unfolding z splitDivide_def [symmetric] drop_0 using that by blast
qed

section \<open>Merging\<close>

definition allKeys :: "Part list \<Rightarrow> addr list" where
  "allKeys ps = concat (map (\<lambda>p. klist (part_keys p)) ps)"

lemma allKeys_simps [simp]: "allKeys [] = []" "allKeys (p # ps) = klist (part_keys p) @ allKeys ps"
  by (simp_all add: allKeys_def)

lemma set_append_map:
  assumes a: "ks_ok m ks xs" and b: "ks_ok m src as" and c: "ks_ok m' ks' ys" and d: "ksMap m' ys = ksMap m xs ++ ksMap m as"
    and dj: "distinct (map (okeyA m) (xs @ as))"
  shows "set ys = set xs \<union> set as"
proof -
  have "b \<in> set ys \<longleftrightarrow> (\<exists>w. ksMap m' ys w = Some b)" for b using ksMap_Some [OF c] by blast
  also have "(\<exists>w. ksMap m' ys w = Some b) \<longleftrightarrow> b \<in> set xs \<union> set as" for b
  proof
    assume "\<exists>w. ksMap m' ys w = Some b"
    then show "b \<in> set xs \<union> set as" using d ksMap_Some [OF a] ksMap_Some [OF assms(2)] by (auto simp: map_add_Some_iff)
  next
    assume m: "b \<in> set xs \<union> set as"
    show "\<exists>w. ksMap m' ys w = Some b"
    proof (cases "b \<in> set as")
      case True
      then have "ksMap m as (okeyA m b) = Some b" using ksMap_Some [OF assms(2)] by blast
      then have "ksMap m' ys (okeyA m b) = Some b" unfolding d by (simp add: map_add_Some_iff)
      then show ?thesis by blast
    next
      case False
      then have x: "b \<in> set xs" using m by simp
      then have "ksMap m xs (okeyA m b) = Some b" using ksMap_Some [OF a] by blast
      moreover have "ksMap m as (okeyA m b) = None"
      proof (cases "ksMap m as (okeyA m b)")
        case (Some c)
        then have "c \<in> set as" "okeyA m c = okeyA m b" using ksMap_Some [OF assms(2)] by blast+
        then show ?thesis using dj x by (auto simp: distinct_map)
      qed
      ultimately have "ksMap m' ys (okeyA m b) = Some b" unfolding d by (simp add: map_add_Some_iff)
      then show ?thesis by blast
    qed
  qed
  finally show ?thesis by blast
qed

lemma mergeLoop_ok:
  "ks_ok m dest xs \<Longrightarrow> heap_ok m (F + mset xs) \<Longrightarrow> flat m \<Longrightarrow> (\<forall>p \<in> set ps. ks_ok m (part_keys p) (klist (part_keys p))) \<Longrightarrow>
   distinct (map (okeyA m) (xs @ allKeys ps)) \<Longrightarrow> (\<forall>a \<in> set (allKeys ps). a \<in># F \<and> refs m a < SSIZE_MAX) \<Longrightarrow>
   \<exists>m' dest' ys. mergeLoop m dest ps = Some (m', dest') \<and> ks_ok m' dest' ys \<and> heap_ok m' (F + mset ys) \<and> kept m m'
      \<and> (\<forall>b. keys m b = None \<longrightarrow> keys m' b = None) \<and> set ys = set xs \<union> set (allKeys ps)"
proof (induction ps arbitrary: m dest xs)
  case Nil
  then show ?case by (auto simp: kept_def)
next
  case (Cons p ps)
  let ?as = "klist (part_keys p)"
  have ka: "ks_ok m (part_keys p) ?as" using Cons.prems(4) by simp
  have "appendable m a" if a: "a \<in> set ?as" for a
  proof -
    obtain k where "keys m a = Some k" "key k \<noteq> None" using ks_okD(2) [OF ka a] by blast
    moreover have "refs m a < SSIZE_MAX" using Cons.prems(6) a by simp
    ultimately show ?thesis by (simp add: appendable_def refs_def)
  qed
  then have ap: "\<forall>a \<in> set ?as. appendable m a \<and> a \<in># F" using Cons.prems(6) by simp
  obtain m1 d1 ys where A: "ksAppend m dest (Some (part_keys p)) = Some (int (length ys), m1, d1)" "ks_ok m1 d1 ys"
    "heap_ok m1 (F + mset ys)" "flat m1" "kept m m1" "\<forall>b. keys m b = None \<longrightarrow> keys m1 b = None" "quiet (set ?as) m m1"
    "ksMap m1 ys = ksMap m xs ++ ksMap m ?as"
    by (rule ksAppend_ok [OF Cons.prems(1) ka Cons.prems(2,3) ap])
  have "distinct (map (okeyA m) (xs @ ?as))" using Cons.prems(5) by auto
  then have sy: "set ys = set xs \<union> set ?as" by (rule set_append_map [OF Cons.prems(1) ka A(2,8)])
  have lF: "keys m1 b \<noteq> None" if "b \<in># F + mset ys" for b
  proof -
    have "b \<in># metaRefs m1 + (F + mset ys)" using that by auto
    then obtain k where "keys m1 b = Some k" by (rule heap_ok_live [OF A(3)])
    then show ?thesis by simp
  qed
  have lm: "keys m b \<noteq> None" if "b \<in># F + mset ys" for b using lF [OF that] A(6) [THEN spec, of b] by auto
  have ek: "okeyA m1 b = okeyA m b" if "b \<in># F + mset ys" for b
    by (rule okeyA_kept [OF Cons.prems(2) A(3,5) lm [OF that] lF [OF that]])
  have K: "ks_ok m1 (part_keys q) (klist (part_keys q))" if q: "q \<in> set ps" for q
  proof -
    have kq: "ks_ok m (part_keys q) (klist (part_keys q))" using Cons.prems(4) q by simp
    have "b \<in># F" if "b \<in> set (klist (part_keys q))" for b using Cons.prems(6) q that by (auto simp: allKeys_def)
    then show ?thesis using lF by (intro ks_ok_kept [OF kq Cons.prems(2) A(3,5) ks_okD(1) [OF kq]]) simp
  qed
  have F: "a \<in># F \<and> refs m1 a < SSIZE_MAX" if a: "a \<in> set (allKeys ps)" for a
  proof -
    have aF: "a \<in># F" "refs m a < SSIZE_MAX" using Cons.prems(6) a by simp_all
    have "a \<notin> set ?as" using Cons.prems(5) a by (auto simp: distinct_map)
    moreover obtain k1 where "keys m1 a = Some k1" using lF [of a] aF(1) by auto
    ultimately have "refs m1 a \<le> refs m a" using quietD [OF A(7)] by (fastforce simp: refs_def calm_def)
    then show ?thesis using aF by simp
  qed
  have "distinct (map (okeyA m) (ys @ allKeys ps))"
  proof -
    have d: "distinct (map (okeyA m) xs)" "distinct (map (okeyA m) ?as)" "distinct (map (okeyA m) (allKeys ps))"
      "okeyA m ` set xs \<inter> okeyA m ` set (allKeys ps) = {}" "okeyA m ` set ?as \<inter> okeyA m ` set (allKeys ps) = {}"
      using Cons.prems(5) by auto
    have "map (okeyA m) ys = map (okeyA m1) ys" using ek by simp
    moreover have "distinct (map (okeyA m1) ys)" using A(2) by (simp add: ks_ok_def strict_sorted_iff)
    ultimately have "distinct (map (okeyA m) ys)" by (simp only:)
    then show ?thesis using d(3-5) sy by auto
  qed
  moreover have "map (okeyA m1) (ys @ allKeys ps) = map (okeyA m) (ys @ allKeys ps)" using ek F by auto
  ultimately have "distinct (map (okeyA m1) (ys @ allKeys ps))" by (simp only:)
  then obtain m' dest' zs where IH: "mergeLoop m1 d1 ps = Some (m', dest')" "ks_ok m' dest' zs" "heap_ok m' (F + mset zs)" "kept m1 m'" "\<forall>b. keys m1 b = None \<longrightarrow> keys m' b = None"
    "set zs = set ys \<union> set (allKeys ps)"
    using Cons.IH [OF A(2-4)] K F by blast
  have "kept m m'" by (rule kept_trans [OF A(5) IH(4)]) (use IH(5) in blast)
  then show ?case using A(1,6) IH sy by auto
qed


section \<open>Dividing and merging\<close>

lemma concat_routes:
  assumes "distinct (map f xs)"
  shows "distinct (map f (concat (map (\<lambda>i. filter (\<lambda>a. r a = Some i) xs) [0..<n])))
    \<and> set (concat (map (\<lambda>i. filter (\<lambda>a. r a = Some i) xs) [0..<n])) = {a \<in> set xs. \<exists>i < n. r a = Some i}"
proof (induction n)
  case (Suc n)
  let ?l = "concat (map (\<lambda>i. filter (\<lambda>a. r a = Some i) xs) [0..<n])"
  have i: "inj_on f (set xs)" using assms by (simp add: distinct_map)
  have "distinct (map f (filter (\<lambda>a. r a = Some n) xs))" using assms distinct_map_filter by blast
  moreover have "f ` set ?l \<inter> f ` set (filter (\<lambda>a. r a = Some n) xs) = {}"
  proof -
    have "a = b" if "a \<in> set ?l" "b \<in> set (filter (\<lambda>a. r a = Some n) xs)" "f a = f b" for a b
      using that Suc inj_onD [OF i that(3)] by auto
    then show ?thesis using Suc by fastforce
  qed
  ultimately show ?case using Suc by (auto simp: less_Suc_eq)
qed simp

lemma divided_allKeys:
  assumes "divided handle m0 ps0 xs ps"
  shows "allKeys ps = concat (map (\<lambda>i. filter (\<lambda>a. keyRoute handle m0 ps0 a = Some i) xs) [0..<length ps])"
proof -
  have "map (\<lambda>p. klist (part_keys p)) ps = map (\<lambda>i. filter (\<lambda>a. keyRoute handle m0 ps0 a = Some i) xs) [0..<length ps]"
    using assms by (intro nth_equalityI) (simp_all add: divided_def)
  then show ?thesis by (simp add: allKeys_def)
qed

lemma sorted_same_set:
  fixes f :: "'a \<Rightarrow> 'k :: linorder"
  assumes "sorted_wrt (\<lambda>a b. f a < f b) xs" "sorted_wrt (\<lambda>a b. f a < f b) ys" "set xs = set ys"
  shows "xs = ys"
proof -
  have s: "sorted_wrt (<) (map f xs)" "sorted_wrt (<) (map f ys)" using assms(1,2) by (simp_all add: sorted_wrt_map)
  have "map f xs = map f ys" using strict_sorted_equal [OF s] assms(3) by simp
  moreover have "inj_on f (set xs \<union> set ys)" using s(1) assms(3) by (auto simp: strict_sorted_iff distinct_map)
  ultimately show ?thesis by (rule map_inj_on)
qed

lemma splitMerge_ok:
  assumes st: "divState handle m (parts s) H ks xs m1 (parts s1)" and k: "ks_ok m ks xs" and ok0: "heap_ok m E0"
    and d: "ks_ok m1 dest []" and small: "\<forall>a \<in> set xs. Suc (refs m a) < SSIZE_MAX"
  obtains m2 dest2 where "splitMerge m1 s1 dest = Some (1, m2, dest2)" "ks_ok m2 dest2 (filter (\<lambda>a. keyRoute handle m (parts s) a \<noteq> None) xs)" "kept m m2"
proof -
  let ?r = "keyRoute handle m (parts s)" and ?F = "H + setRefs (ks # map part_keys (parts s1))"
  have si: "sys_inv \<lparr>heap = m1, held = H, sets = ks # map part_keys (parts s1)\<rparr>" and dv: "divided handle m (parts s) xs (parts s1)"
    and kp: "kept m m1" and lv: "\<And>b. keys m1 b = None \<longleftrightarrow> keys m b = None"
    and rf: "\<And>b. refs m1 b = refs m b + (if b \<in> set xs \<and> ?r b \<noteq> None then 1 else 0)"
    using st unfolding divState_def by blast+
  note I = sys_invD [OF si, simplified]
  have len: "length (parts s1) = length (parts s)" using dv by (simp add: divided_def)
  have ek: "okeyA m1 b = okeyA m b" if "b \<in> set xs" for b
    using okeyA_kept [OF ok0 I(2) kp, of b] ks_okD(2) [OF k that] lv [of b] by fastforce
  have srt: "distinct (map (okeyA m) xs)" using k by (simp add: ks_ok_def strict_sorted_iff)
  have "map (okeyA m1) xs = map (okeyA m) xs" using ek by simp
  then have dx: "distinct (map (okeyA m1) xs)" using srt by (simp only:)
  note cr = concat_routes [OF dx, of ?r "length (parts s1)", folded divided_allKeys [OF dv]]
  have sa: "set (allKeys (parts s1)) = set (filter (\<lambda>a. ?r a \<noteq> None) xs)"
    using cr keyRoute_bound [of handle m "parts s"] len by auto
  have F: "a \<in># ?F \<and> refs m1 a < SSIZE_MAX" if a: "a \<in> set (allKeys (parts s1))" for a
  proof -
    obtain p where "p \<in> set (parts s1)" "a \<in> set (klist (part_keys p))" using a by (auto simp: allKeys_def)
    then have "a \<in># setRefs (map part_keys (parts s1))"
      using setRefs_mem [of "part_keys p" "map part_keys (parts s1)" a] by simp
    moreover have "refs m1 a \<le> Suc (refs m a)" "a \<in> set xs" using rf [of a] a sa by auto
    ultimately show ?thesis using small by (auto simp: setRefs_def)
  qed
  have K: "\<forall>p \<in> set (parts s1). ks_ok m1 (part_keys p) (klist (part_keys p))" using I(4) by simp
  have ok: "heap_ok m1 (?F + mset [])" using I(2) by simp
  have D: "distinct (map (okeyA m1) ([] @ allKeys (parts s1)))" using cr by simp
  obtain m2 dest2 ys where M: "mergeLoop m1 dest (parts s1) = Some (m2, dest2)" "ks_ok m2 dest2 ys" "heap_ok m2 (?F + mset ys)" "kept m1 m2"
    "\<forall>b. keys m1 b = None \<longrightarrow> keys m2 b = None" "set ys = set (allKeys (parts s1))"
    using mergeLoop_ok [OF d ok I(3) K D] F by auto
  have km: "kept m m2" by (rule kept_trans [OF kp M(4)]) (use M(5) in auto)
  have "ys = filter (\<lambda>a. ?r a \<noteq> None) xs"
  proof (rule sorted_same_set)
    show "sorted_wrt (\<lambda>a b. okeyA m2 a < okeyA m2 b) ys" using ks_okD(3) [OF M(2)] .
    have e2: "okeyA m2 b = okeyA m b" if bs: "b \<in> set (filter (\<lambda>a. ?r a \<noteq> None) xs)" for b
    proof -
      have "b \<in> set ys" using bs sa M(6) by simp
      then obtain k2 where "keys m2 b = Some k2" using ks_okD(2) [OF M(2)] by blast
      moreover obtain k0 where "keys m b = Some k0" using ks_okD(2) [OF k, of b] bs by auto
      ultimately show ?thesis using okeyA_kept [OF ok0 M(3) km, of b] by simp
    qed
    have "sorted_wrt (\<lambda>a b. okeyA m a < okeyA m b) (filter (\<lambda>a. ?r a \<noteq> None) xs)" using ks_okD(3) [OF k] by (rule sorted_wrt_filter)
    then show "sorted_wrt (\<lambda>a b. okeyA m2 a < okeyA m2 b) (filter (\<lambda>a. ?r a \<noteq> None) xs)"
      by (rule sorted_wrt_mono_rel [rotated]) (simp only: e2)
  qed (simp add: M(6) sa)
  then show thesis using that [of m2 dest2] M(1,2) km by (simp add: splitMerge_def)
qed


text \<open>A handle with a default backend only, and a split with one part for it.\<close>

definition exHandle :: KDB where
  "exHandle = \<lparr>kdb_trie = None, kdb_split = splitNew, defaultBackend = Some 0, initBackend = None, globalPlugins = (\<lambda>_. None)\<rparr>"

definition exSplit :: Split where
  "exSplit = splitNew\<lparr>parts := [\<lparr>part_keys = ksRewind (ksVNewEmpty 0), part_handle = Some 0, part_parent = None, part_sync = 0\<rparr>]\<rparr>"

lemma ex_route: "keyRoute exHandle m (parts exSplit) a = Some 0"
  by (simp add: keyRoute_def mountGetBackend_def trieLookup_def exHandle_def exSplit_def test_bit_def split: option.splits)

lemma ex_split:
  "sys_inv \<lparr>heap = exM, held = {#}, sets = exKs # map part_keys (parts exSplit)\<rparr>" "\<forall>p \<in> set (parts exSplit). klist (part_keys p) = []"
  "\<forall>a \<in> set (klist exKs). Suc (refs exM a) < SSIZE_MAX" "defaultBackend exHandle \<noteq> None" "klist exKs = [0, 1]"
proof -
  let ?e = "ksRewind (ksVNewEmpty 0)"
  have e: "ks_ok exM ?e []" using ksVNewEmpty_repr(1) by (simp add: ks_ok_def)
  have l: "klist exKs = [0, 1]" "klist ?e = []" using klist_ok [OF exKs_ok] klist_ok [OF e] by simp_all
  have p: "map part_keys (parts exSplit) = [?e]" by (simp add: exSplit_def)
  show "sys_inv \<lparr>heap = exM, held = {#}, sets = exKs # map part_keys (parts exSplit)\<rparr>"
    using ex_heap(3) exKs_ok e by (simp add: sys_inv_def p l setRefs_def add_mset_commute)
  show "\<forall>p \<in> set (parts exSplit). klist (part_keys p) = []" using l(2) by (simp add: exSplit_def)
  show "\<forall>a \<in> set (klist exKs). Suc (refs exM a) < SSIZE_MAX" by (simp add: l(1) refs_def ex_fields SSIZE_MAX_def)
qed (simp_all add: exHandle_def klist_ok [OF exKs_ok])


text \<open>C8: dividing a keyset and merging the parts into an empty keyset gives the keys that have a part back, in their order.\<close>

theorem divide_merge:
  assumes si: "sys_inv \<lparr>heap = m, held = H, sets = ks # map part_keys (parts s)\<rparr>" and e: "\<forall>p \<in> set (parts s). klist (part_keys p) = []"
    and small: "\<forall>a \<in> set (klist ks). Suc (refs m a) < SSIZE_MAX" and def: "defaultBackend handle \<noteq> None"
  shows "\<exists>r m1 s1 ks1 dest m2 dest2. splitDivide handle m s ks = Some (r, m1, s1, ks1) \<and> ksNew m1 0 [] = Some (m1, dest)
    \<and> splitMerge m1 s1 dest = Some (1, m2, dest2) \<and> klist dest2 = filter (\<lambda>a. keyRoute handle m (parts s) a \<noteq> None) (klist ks)"
proof -
  note I = sys_invD [OF si, simplified]
  have k: "ks_ok m ks (klist ks)" using I(4) by simp
  have sm: "\<forall>a \<in> set (klist ks). refs m a < SSIZE_MAX" using small by auto
  obtain r m1 s1 ks1 where D: "splitDivide handle m s ks = Some (r, m1, s1, ks1)" "divState handle m (parts s) H ks (klist ks) m1 (parts s1)"
    by (rule splitDivide_ok [OF si e sm def])
  obtain dest where d: "ksNew m1 0 [] = Some (m1, dest)" "ks_ok m1 dest []"
    using ksVNewEmpty_repr(1) by (simp add: ksNew_def ksVNew_def ks_ok_def)
  obtain m2 dest2 where M: "splitMerge m1 s1 dest = Some (1, m2, dest2)" "ks_ok m2 dest2 (filter (\<lambda>a. keyRoute handle m (parts s) a \<noteq> None) (klist ks))"
    by (rule splitMerge_ok [OF D(2) k I(2) d(2) small])
  then show ?thesis using D(1) d(1) klist_ok [OF M(2)] by blast
qed


theorem divide_merge_witness:
  "\<exists>r m1 s1 ks1 dest m2 dest2. splitDivide exHandle exM exSplit exKs = Some (r, m1, s1, ks1) \<and> ksNew m1 0 [] = Some (m1, dest)
    \<and> splitMerge m1 s1 dest = Some (1, m2, dest2) \<and> klist dest2 = [0, 1]"
  using divide_merge [OF ex_split(1-4)] by (simp add: ex_route ex_split(5))


section \<open>Sizes and removed keys\<close>

abbreviation partNs :: "mem \<Rightarrow> Part \<Rightarrow> elektraNamespace" where
  "partNs m p \<equiv> keyGetNamespace (keyAt m (part_parent p))"

abbreviation partSize :: "Part \<Rightarrow> int" where
  "partSize p \<equiv> ksGetSize (Some (part_keys p))"

text \<open>A part with a living backend, and the size this backend remembers for the part.\<close>

definition mounted :: "mem \<Rightarrow> bmem \<Rightarrow> Part \<Rightarrow> bool" where
  "mounted m B p \<longleftrightarrow> sizedNamespace (partNs m p) \<and> (\<exists>a b. part_handle p = Some a \<and> B a = Some b)"

definition remembered :: "mem \<Rightarrow> bmem \<Rightarrow> Part \<Rightarrow> int" where
  "remembered m B p = (case Option.bind (part_handle p) B of None \<Rightarrow> 0 | Some b \<Rightarrow> nsSize (partNs m p) b)"

abbreviation syncMark :: "Part \<Rightarrow> Part" where
  "syncMark p \<equiv> p\<lparr>part_sync := set_bit_flag (part_sync p) SPLIT_FLAG_SYNC\<rparr>"

lemma nsSize_set:
  assumes "sizedNamespace ns" "sizedNamespace ns'"
  shows "nsSize ns (setNsSize ns' n b) = (if ns = ns' then n else nsSize ns b)"
  using assms by (auto simp: sizedNamespace_def nsSize_def setNsSize_def)

lemma ksGetSize_nonneg: "partSize p \<noteq> -1"
  by (simp add: ksGetSize_def)

lemma updateSizes_ok:
  assumes "\<forall>p \<in> set ps. mounted m B p" "distinct (map (\<lambda>p. (part_handle p, partNs m p)) ps)"
  shows "\<exists>B'. updateSizes m B ps = Some (1, B') \<and> (\<forall>q. mounted m B q \<longrightarrow> mounted m B' q)
    \<and> (\<forall>p \<in> set ps. remembered m B' p = partSize p)
    \<and> (\<forall>q. mounted m B q \<longrightarrow> (part_handle q, partNs m q) \<notin> (\<lambda>p. (part_handle p, partNs m p)) ` set ps \<longrightarrow> remembered m B' q = remembered m B q)"
  using assms
proof (induction ps arbitrary: B)
  case (Cons p ps)
  obtain a b where ab: "sizedNamespace (partNs m p)" "part_handle p = Some a" "B a = Some b"
    using Cons.prems(1) by (auto simp: mounted_def)
  let ?B = "B(a \<mapsto> setNsSize (partNs m p) (partSize p) b)"
  have mo: "mounted m ?B q" if "mounted m B q" for q using that by (auto simp: mounted_def)
  have re: "remembered m ?B q = (if part_handle q = Some a \<and> partNs m q = partNs m p then partSize p else remembered m B q)" if "mounted m B q" for q
    using that ab by (auto simp: mounted_def remembered_def nsSize_set)
  obtain B' where IH: "updateSizes m ?B ps = Some (1, B')" "\<forall>q. mounted m ?B q \<longrightarrow> mounted m B' q"
    "\<forall>p \<in> set ps. remembered m B' p = partSize p"
    "\<forall>q. mounted m ?B q \<longrightarrow> (part_handle q, partNs m q) \<notin> (\<lambda>p. (part_handle p, partNs m p)) ` set ps \<longrightarrow> remembered m B' q = remembered m ?B q"
  proof -
    have "\<forall>p \<in> set ps. mounted m ?B p" "distinct (map (\<lambda>p. (part_handle p, partNs m p)) ps)"
      using Cons.prems mo by (simp_all del: fun_upd_apply)
    from Cons.IH [OF this] that show thesis by blast
  qed
  have "remembered m B' p = partSize p"
    using IH(4) re [of p] mo [of p] Cons.prems ab(2) by auto
  moreover have "updateSizes m B (p # ps) = Some (1, B')" using IH(1) ab by (simp add: Let_def)
  moreover have "remembered m B' q = remembered m B q"
    if "mounted m B q" "(part_handle q, partNs m q) \<notin> (\<lambda>p. (part_handle p, partNs m p)) ` set (p # ps)" for q
    using IH(4) mo [OF that(1)] re [OF that(1)] that(2) ab(2) by auto
  ultimately show ?case using IH(2,3) mo by auto
qed simp

lemma syncLoop_ok:
  assumes "\<forall>p \<in> set ps. mounted m B p \<and> remembered m B p \<noteq> -1"
  shows "syncLoop m B i ps r = Some (if \<exists>p \<in> set ps. remembered m B p \<noteq> partSize p then 1 else r,
    map (\<lambda>p. if remembered m B p \<noteq> partSize p then syncMark p else p) ps)"
  using assms
proof (induction ps arbitrary: i r)
  case (Cons p ps)
  obtain a b where ab: "sizedNamespace (partNs m p)" "part_handle p = Some a" "B a = Some b"
    using Cons.prems by (auto simp: mounted_def)
  have n: "nsSize (partNs m p) b = remembered m B p" using ab by (simp add: remembered_def)
  show ?case using Cons ab by (auto simp: Let_def n)
qed simp

text \<open>C9: after \<open>splitUpdateSize\<close> has noted the sizes of the parts, \<open>splitSync\<close> on a later split with the same mountpoints finds
  exactly the parts whose number of keys differs: it sets their sync bits, leaves all others as they are and returns whether there are any.\<close>

theorem sync_after_update:
  assumes mo: "\<forall>p \<in> set (parts s). mounted m B p" and d: "distinct (map (\<lambda>p. (part_handle p, partNs m p)) (parts s))"
    and same: "map part_handle (parts s') = map part_handle (parts s)" "map part_parent (parts s') = map part_parent (parts s)"
  shows "\<exists>B'. splitUpdateSize m B s = Some (1, B')
    \<and> splitSync m B' s' = Some (if \<exists>i < length (parts s'). partSize (parts s ! i) \<noteq> partSize (parts s' ! i) then 1 else 0,
        s'\<lparr>parts := map (\<lambda>i. if partSize (parts s ! i) \<noteq> partSize (parts s' ! i) then syncMark (parts s' ! i) else parts s' ! i) [0..<length (parts s')]\<rparr>)"
proof -
  obtain B' where B': "updateSizes m B (parts s) = Some (1, B')" "\<forall>q. mounted m B q \<longrightarrow> mounted m B' q"
    "\<forall>p \<in> set (parts s). remembered m B' p = partSize p"
    using updateSizes_ok [OF mo d] by blast
  have len: "length (parts s') = length (parts s)" using same(1) by (rule map_eq_imp_length_eq)
  have e: "part_handle (parts s' ! i) = part_handle (parts s ! i)" "part_parent (parts s' ! i) = part_parent (parts s ! i)"
    if "i < length (parts s')" for i
    using arg_cong [OF same(1), of "\<lambda>l. l ! i"] arg_cong [OF same(2), of "\<lambda>l. l ! i"] that len by simp_all
  have r: "mounted m B' (parts s' ! i)" "remembered m B' (parts s' ! i) = partSize (parts s ! i)" if i: "i < length (parts s')" for i
  proof -
    have "mounted m B' (parts s ! i)" "remembered m B' (parts s ! i) = partSize (parts s ! i)"
      using mo B'(2,3) i len nth_mem by simp_all
    then show "mounted m B' (parts s' ! i)" "remembered m B' (parts s' ! i) = partSize (parts s ! i)"
      unfolding mounted_def remembered_def e [OF i] by simp_all
  qed
  have "\<forall>p \<in> set (parts s'). mounted m B' p \<and> remembered m B' p \<noteq> -1"
    using r ksGetSize_nonneg by (auto simp: in_set_conv_nth)
  note L = syncLoop_ok [OF this, of 0 0]
  have "(\<exists>p \<in> set (parts s'). remembered m B' p \<noteq> partSize p) \<longleftrightarrow> (\<exists>i < length (parts s'). partSize (parts s ! i) \<noteq> partSize (parts s' ! i))"
    using r(2) by (auto simp: in_set_conv_nth Bex_def)
  moreover have "map (\<lambda>p. if remembered m B' p \<noteq> partSize p then syncMark p else p) (parts s')
    = map (\<lambda>i. if partSize (parts s ! i) \<noteq> partSize (parts s' ! i) then syncMark (parts s' ! i) else parts s' ! i) [0..<length (parts s')]"
    using r(2) by (intro nth_equalityI) simp_all
  ultimately have "splitSync m B' s' = Some (if \<exists>i < length (parts s'). partSize (parts s ! i) \<noteq> partSize (parts s' ! i) then 1 else 0,
        s'\<lparr>parts := map (\<lambda>i. if partSize (parts s ! i) \<noteq> partSize (parts s' ! i) then syncMark (parts s' ! i) else parts s' ! i) [0..<length (parts s')]\<rparr>)"
    by (simp only: splitSync_def L) simp
  then show ?thesis using B'(1) by (auto simp: splitUpdateSize_def)
qed

text \<open>A backend mounted at \<open>user/a\<close> with the two keys of the example below it, and the split without them.\<close>

definition exBackend :: Backend where
  "exBackend = \<lparr>mountpoint = Some 0, setplugins = (\<lambda>_. None), getplugins = (\<lambda>_. None), errorplugins = (\<lambda>_. None), specsize = -1, dirsize = -1, usersize = -1, systemsize = -1, refcounter = 1\<rparr>"

definition exSyncSplit :: "KeySet \<Rightarrow> Split" where
  "exSyncSplit ks = splitNew\<lparr>parts := [\<lparr>part_keys = ks, part_handle = Some 0, part_parent = Some 0, part_sync = 0\<rparr>]\<rparr>"

theorem sync_after_update_witness:
  "\<exists>B'. splitUpdateSize exM [0 \<mapsto> exBackend] (exSyncSplit exKs) = Some (1, B')
    \<and> splitSync exM B' (exSyncSplit ksInit) = Some (1, exSyncSplit ksInit\<lparr>parts := [syncMark (parts (exSyncSplit ksInit) ! 0)]\<rparr>)"
proof -
  have n: "keyGetNamespace (Some exA) = KEY_NS_USER" by code_simp
  have "\<forall>p \<in> set (parts (exSyncSplit exKs)). mounted exM [0 \<mapsto> exBackend] p"
    by (simp add: exSyncSplit_def mounted_def sizedNamespace_def n)
  then show ?thesis
    using sync_after_update [of "exSyncSplit exKs" exM "[0 \<mapsto> exBackend]" "exSyncSplit ksInit"]
    by (simp add: exSyncSplit_def ksGetSize_def exKs_def ksInit_def)
qed

end
