(* ===== verification/KeySetCut.thy ===== *)
theory KeySetCut
  imports KeySetProperties "HOL-Library.Sublist"
begin

text \<open>
  \<open>ksCut\<close> of \<open>src/libs/elektra/keyset.c\<close>: everything at or below a key is moved to a new keyset. A cutpoint with a
  cascading name is given each namespace in turn; its name is changed in place meanwhile, so the
  cutpoint is an address here. The result is the new keyset, the memory, and the keyset that was cut.
\<close>

section \<open>The operation\<close>

definition belowOrSameAt :: "mem \<Rightarrow> addr \<Rightarrow> KeySet \<Rightarrow> nat \<Rightarrow> int option" where
  "belowOrSameAt m cutpoint ks it = do {
     c \<leftarrow> keys m cutpoint;
     p \<leftarrow> rdArr ks it;
     b \<leftarrow> p;
     k \<leftarrow> keys m b;
     keyIsBelowOrSame (Some c) (Some k) }"

text \<open>\<open>while (it < ks->size && keyIsBelowOrSame (cutpoint, ks->array[it]) == want) ++it;\<close>\<close>

function cutScan :: "mem \<Rightarrow> addr \<Rightarrow> KeySet \<Rightarrow> int \<Rightarrow> nat \<Rightarrow> nat option" where
  "cutScan m cutpoint ks want it =
     (if it < ks_size ks
      then (case belowOrSameAt m cutpoint ks it of
          None \<Rightarrow> None
        | Some b \<Rightarrow> if b = want then cutScan m cutpoint ks want (Suc it) else Some it)
      else Some it)"
  by pat_completeness auto
termination by (relation "measure (\<lambda>(_, _, ks, _, it). ks_size ks - it)") auto

declare cutScan.simps [simp del]

text \<open>The two corrections of the cursor, and \<open>set_cursor\<close>.\<close>

definition cutCursor :: "KeySet \<Rightarrow> nat \<Rightarrow> nat \<Rightarrow> KeySet \<times> bool" where
  "cutCursor ks found it =
     (let (ks1, set_cursor) =
        (if current ks \<ge> found \<and> current ks < it
         then (if found = 0 then (ksRewind ks, False) else (ks\<lparr>current := found - 1\<rparr>, True))
         else (ks, False))
      in if current ks1 \<ge> it
         then (if it \<ge> ks_size ks1 then (ksRewind ks1, set_cursor) else (ks1\<lparr>current := found + current ks1 - it\<rparr>, True))
         else (ks1, set_cursor))"

definition ksCutPlain :: "mem \<Rightarrow> KeySet \<Rightarrow> addr \<Rightarrow> (KeySet \<times> mem \<times> KeySet) option" where
  "ksCutPlain m ks cutpoint = do {
     found \<leftarrow> cutScan m cutpoint ks 0 0;
     if found = ks_size ks then do { (m1, ret) \<leftarrow> ksNew m 0 []; Some (ret, m1, ks) }
     else do {
       it \<leftarrow> cutScan m cutpoint ks 1 found;
       let (ks1, set_cursor) = cutCursor ks found it;
       let newsize = it - found;
       (m1, ret) \<leftarrow> ksNew m newsize [];
       ar \<leftarrow> elektraMemcpy (slots ret) (drop found (slots ks1)) newsize;
       ret1 \<leftarrow> wrArr (ret\<lparr>array := Some ar, ks_size := newsize\<rparr>) newsize Null;
       ks2 \<leftarrow> ksCopyInternal ks1 found it;
       ks3 \<leftarrow> (if set_cursor then do { p \<leftarrow> rdArr ks2 (current ks2); Some (ks2\<lparr>cursor := p\<rparr>) } else Some ks2);
       Some (ret1, m1, ks3) } }"

text \<open>The names of the namespaces that the loop over \<open>elektraNamespace\<close> writes before the name.\<close>

definition cutNamespace :: "elektraNamespace \<Rightarrow> string option" where
  "cutNamespace ns = (case ns of
     KEY_NS_SPEC \<Rightarrow> Some ''spec'' | KEY_NS_PROC \<Rightarrow> Some ''proc'' | KEY_NS_DIR \<Rightarrow> Some ''dir''
   | KEY_NS_USER \<Rightarrow> Some ''user'' | KEY_NS_SYSTEM \<Rightarrow> Some ''system''
   | KEY_NS_EMPTY \<Rightarrow> None | KEY_NS_NONE \<Rightarrow> None | KEY_NS_META \<Rightarrow> None | KEY_NS_CASCADING \<Rightarrow> None)"

fun cutLoop :: "mem \<Rightarrow> KeySet \<Rightarrow> addr \<Rightarrow> string \<Rightarrow> KeySet \<Rightarrow> elektraNamespace list \<Rightarrow> (KeySet \<times> mem \<times> KeySet) option" where
  "cutLoop m ks cutpoint name ret [] = Some (ret, m, ks)"
| "cutLoop m ks cutpoint name ret (ns # nss) = (case cutNamespace ns of
     None \<Rightarrow> cutLoop m ks cutpoint name ret nss
   | Some root \<Rightarrow> do {
       c \<leftarrow> keys m cutpoint;
       let sz = (if name = ''/'' then length root + 1 else length root + length name + 1);
       let c1 = snd (elektraFinalizeName (c\<lparr>key := Some (root @ name), keySize := sz\<rparr>));
       (n, m1, ks1) \<leftarrow> ksCutPlain (storeKey m cutpoint c1) ks cutpoint;
       (_, m2, ret1) \<leftarrow> ksAppend m1 ret (Some n);
       (_, m3) \<leftarrow> ksDel m2 (Some n);
       cutLoop m3 ks1 cutpoint name ret1 nss })"

definition ksCut :: "mem \<Rightarrow> KeySet option \<Rightarrow> addr option \<Rightarrow> (KeySet option \<times> mem \<times> KeySet option) option" where
  "ksCut m k cutpoint = (case (k, cutpoint) of
     (None, _) \<Rightarrow> Some (None, m, None)
   | (_, None) \<Rightarrow> Some (None, m, k)
   | (Some ks, Some a) \<Rightarrow> do {
       c \<leftarrow> keys m a;
       case key c of None \<Rightarrow> Some (None, m, k)
       | Some name \<Rightarrow>
           if name \<noteq> [] \<and> hd name = SLASH then do {
             (m1, ret) \<leftarrow> ksNew m 0 [];
             (ret1, m2, ks1) \<leftarrow> cutLoop m1 ks a name ret namespaces;
             c2 \<leftarrow> keys m2 a;
             Some (Some ret1, storeKey m2 a (c2\<lparr>key := key c, keySize := keySize c, uname := uname c, keyUSize := keyUSize c\<rparr>), Some ks1) }
           else do { (ret, m1, ks1) \<leftarrow> ksCutPlain m ks a; Some (Some ret, m1, Some ks1) } })"

section \<open>The part that is cut is one block\<close>

text \<open>Between two strings with a common prefix, in lexicographic order, all strings have that prefix.\<close>

lemma prefix_between:
  fixes u v w :: "'a :: linorder list"
  shows "prefix p u \<Longrightarrow> prefix p w \<Longrightarrow> u \<le> v \<Longrightarrow> v \<le> w \<Longrightarrow> prefix p v"
proof (induction p arbitrary: u v w)
  case (Cons x p)
  obtain u' where u: "u = x # u'" "prefix p u'" using Cons.prems(1) by (cases u) simp_all
  obtain w' where w: "w = x # w'" "prefix p w'" using Cons.prems(2) by (cases w) simp_all
  obtain y v' where v: "v = y # v'" using Cons.prems(3) u(1) by (cases v) simp_all
  have "x < y \<or> x = y \<and> u' \<le> v'" "y < x \<or> y = x \<and> v' \<le> w'" using Cons.prems(3,4) u(1) w(1) v by simp_all
  then have "y = x" "u' \<le> v'" "v' \<le> w'" by auto
  then show ?case using Cons.IH [OF u(2) w(2)] v by simp
qed simp

text \<open>The elements with a property that holds on an interval of a sorted list are one block of it.\<close>

lemma filter_block:
  assumes "\<And>i j k. i \<le> j \<Longrightarrow> j \<le> k \<Longrightarrow> k < length xs \<Longrightarrow> P (xs ! i) \<Longrightarrow> P (xs ! k) \<Longrightarrow> P (xs ! j)"
  obtains us vs ws where "xs = us @ vs @ ws" "\<forall>x \<in> set us. \<not> P x" "\<forall>x \<in> set vs. P x" "\<forall>x \<in> set ws. \<not> P x"
    "us = takeWhile (\<lambda>x. \<not> P x) xs" "vs = takeWhile P (drop (length us) xs)"
proof -
  define us where "us = takeWhile (\<lambda>x. \<not> P x) xs"
  define rs where "rs = dropWhile (\<lambda>x. \<not> P x) xs"
  define vs where "vs = takeWhile P rs"
  define ws where "ws = dropWhile P rs"
  have rs2: "xs = us @ rs" by (simp add: us_def rs_def)
  have rs1: "drop (length us) xs = rs" by (subst rs2) simp
  have x: "xs = us @ vs @ ws" by (simp add: us_def rs_def vs_def ws_def)
  have 1: "\<forall>x \<in> set us. \<not> P x" by (auto simp: us_def dest: set_takeWhileD)
  have 2: "\<forall>x \<in> set vs. P x" by (auto simp: vs_def dest: set_takeWhileD)
  have 3: "\<not> P z" if z: "z \<in> set ws" for z
  proof
    assume Pz: "P z"
    from z obtain n where n: "n < length ws" "ws ! n = z" by (auto simp: in_set_conv_nth)
    have wne: "ws \<noteq> []" using z by auto
    have nw: "\<not> P (ws ! 0)" using hd_dropWhile [of P rs] wne by (simp add: ws_def hd_conv_nth)
    have "rs \<noteq> []" using wne by (auto simp: ws_def)
    then have "P (rs ! 0)" using hd_dropWhile [of "\<lambda>x. \<not> P x" xs] by (simp add: rs_def hd_conv_nth)
    then have "P (xs ! length us)" using rs2 by (simp add: nth_append)
    moreover have "xs ! (length us + length vs) = ws ! 0" "xs ! (length us + length vs + n) = z"
      using x n wne by (simp_all add: nth_append)
    moreover have "length us + length vs + n < length xs" using x n by simp
    ultimately have "P (ws ! 0)"
      using assms [of "length us" "length us + length vs" "length us + length vs + n"] Pz by simp
    then show False using nw by simp
  qed
  show thesis using that [OF x 1 2] 3 rs1 by (simp add: us_def vs_def)
qed

lemma filter_parts:
  assumes "xs = us @ vs @ ws" "\<forall>x \<in> set us. \<not> P x" "\<forall>x \<in> set vs. P x" "\<forall>x \<in> set ws. \<not> P x"
  shows "filter P xs = vs" "filter (\<lambda>x. \<not> P x) xs = us @ ws"
  using assms by (auto simp: filter_empty_conv filter_id_conv)

section \<open>The keys below, by their unescaped names\<close>

lemma prefix_parts:
  assumes "list_all good_level xs" "list_all good_level ys"
  shows "prefix (concat (map (\<lambda>l. unescPart l @ [NUL]) xs)) (concat (map (\<lambda>l. unescPart l @ [NUL]) ys)) \<longleftrightarrow> prefix xs ys"
  using assms
proof (induction xs arbitrary: ys)
  case (Cons x xs)
  have tw: "takeWhile (\<lambda>c. c \<noteq> NUL) (unescPart l @ NUL # v) = unescPart l" if "good_level l" for l v
    using cstring_unescPart [of l] that by (auto simp: good_level_def cstring_def takeWhile_append)
  show ?case
  proof (cases ys)
    case Nil
    then show ?thesis by (simp add: prefix_def)
  next
    case (Cons y ys')
    show ?thesis
    proof (cases "x = y")
      case True
      then show ?thesis using Cons.IH [of ys'] Cons.prems Cons by simp
    next
      case False
      have "\<not> prefix (unescPart x @ NUL # u) (unescPart y @ NUL # v)" for u v
      proof
        assume "prefix (unescPart x @ NUL # u) (unescPart y @ NUL # v)"
        then obtain w where "unescPart y @ NUL # v = unescPart x @ NUL # (u @ w)" by (auto simp: prefix_def)
        then have "unescPart y = unescPart x" using tw [of x "u @ w"] tw [of y v] Cons.prems Cons by simp
        then show False using unescPart_inj [of y x] Cons.prems Cons False by simp
      qed
      then show ?thesis using False Cons by simp
    qed
  qed
qed simp

lemma prefix_mkuname:
  assumes "good_levels (Some r) ks" "good_levels (Some c) cs"
  shows "prefix (mkuname (Some r) ks) (mkuname (Some c) cs) \<longleftrightarrow> r = c \<and> prefix ks cs"
  using prefix_parts [of "r # ks" "c # cs"] assms by (simp add: mkuname_def)

text \<open>The test of the loops, and when it holds for keys with canonical names in a namespace.\<close>

definition belowOrSame :: "mem \<Rightarrow> addr \<Rightarrow> addr \<Rightarrow> bool" where
  "belowOrSame m a b \<longleftrightarrow> keyIsBelowOrSame (keys m a) (keys m b) = Some 1"

definition in_namespace :: "mem \<Rightarrow> addr \<Rightarrow> bool" where
  "in_namespace m b \<longleftrightarrow> (\<exists>k r ls. keys m b = Some k \<and> named k (Some r) ls)"

lemma keyIsBelowOrSame_named:
  assumes "named k (Some r) ks" "named c (Some q) cs"
  shows "keyIsBelowOrSame (Some k) (Some c) = Some (if prefix (uname k) (uname c) then 1 else 0)"
proof -
  have g: "good_levels (Some r) ks" "good_levels (Some q) cs" using assms by (simp_all add: named_def)
  have b: "keyIsBelow (Some k) (Some c) = Some (if r = q \<and> strict_prefix ks cs then 1 else 0)"
    using keyIsBelow_named [OF assms] by simp
  have "uname k = mkuname (Some r) ks" "uname c = mkuname (Some q) cs" using assms by (simp_all add: named_def)
  then have p: "prefix (uname k) (uname c) \<longleftrightarrow> r = q \<and> prefix ks cs" using prefix_mkuname [OF g] by simp
  have n: "strcmp (the (keyName (Some k))) (the (keyName (Some c))) = 0 \<longleftrightarrow> r = q \<and> ks = cs"
    using assms mkname_inj [OF g] by (simp add: named_def keyName_def)
  show ?thesis using b p n by (auto simp: keyIsBelowOrSame_def strict_prefix_def)
qed

lemma belowOrSame_prefix:
  assumes "in_namespace m a" "in_namespace m b"
  shows "belowOrSame m a b \<longleftrightarrow> prefix (unameA m a) (unameA m b)"
    "keyIsBelowOrSame (keys m a) (keys m b) = Some (if belowOrSame m a b then 1 else 0)"
  using assms keyIsBelowOrSame_named unfolding in_namespace_def belowOrSame_def unameA_def by force+

lemma cutScan_takeWhile:
  assumes "repr ks xs" "keys m a = Some c" "\<forall>b \<in> set xs. \<exists>k. keys m b = Some k \<and> keyIsBelowOrSame (Some c) (Some k) = Some (if P b then 1 else 0)"
    "it \<le> length xs"
  shows "cutScan m a ks (if w then 1 else 0) it = Some (it + length (takeWhile (\<lambda>b. P b = w) (drop it xs)))"
  using assms(4)
proof (induction "length xs - it" arbitrary: it)
  case 0
  then show ?case using repr_size [OF assms(1)] by (subst cutScan.simps) simp
next
  case (Suc n)
  then have it: "it < length xs" by simp
  then obtain k where k: "keys m (xs ! it) = Some k" "keyIsBelowOrSame (Some c) (Some k) = Some (if P (xs ! it) then 1 else 0)"
    using assms(3) nth_mem by blast
  have "belowOrSameAt m a ks it = Some (if P (xs ! it) then 1 else 0)"
    using k assms(2) rdArr_repr [OF assms(1) it] by (simp add: belowOrSameAt_def)
  moreover have "drop it xs = xs ! it # drop (Suc it) xs" using it by (simp add: Cons_nth_drop_Suc)
  moreover have "cutScan m a ks (if w then 1 else 0) (Suc it) = Some (Suc it + length (takeWhile (\<lambda>b. P b = w) (drop (Suc it) xs)))"
    using Suc it by simp
  ultimately show ?case using it repr_size [OF assms(1)] by (subst cutScan.simps) (cases "P (xs ! it)"; cases w; simp)
qed

lemma ksNew_empty: "ksNew m n [] = Some (m, ksRewind (ksVNewEmpty n))"
  by (simp add: ksNew_def ksVNew_def)

lemma copy_new:
  assumes "repr ks (us @ vs @ ws)"
  obtains ar ret where "elektraMemcpy (slots (ksRewind (ksVNewEmpty (length vs)))) (drop (length us) (slots ks)) (length vs) = Some ar"
    "wrArr ((ksRewind (ksVNewEmpty (length vs)))\<lparr>array := Some ar, ks_size := length vs\<rparr>) (length vs) Null = Some ret"
    "repr ret vs" "cursor ret = None" "current ret = 0"
proof -
  let ?n = "if length vs + 1 < KEYSET_SIZE then KEYSET_SIZE else length vs + 1"
  let ?new = "ksRewind (ksVNewEmpty (length vs))"
  have s: "length (slots ?new) = ?n" "alloc ?new = ?n" by (simp_all add: ksVNewEmpty_def Let_def slots_def ksRewind_def)
  have n: "length vs < ?n" by simp
  from assms obtain rest where r: "slots ks = map Ptr (us @ vs @ ws) @ Null # rest" by (rule reprE)
  define ar where "ar = map Ptr vs @ drop (length vs) (slots ?new)"
  obtain z zs where z: "drop (length vs) (slots ?new) = z # zs" using n s(1) by (cases "drop (length vs) (slots ?new)") auto
  have zs: "length zs + 1 + length vs = ?n" using arg_cong [OF z, of length] s(1) n by simp
  define ret where "ret = ?new\<lparr>array := Some (map Ptr vs @ Null # zs), ks_size := length vs\<rparr>"
  have "elektraMemcpy (slots ?new) (drop (length us) (slots ks)) (length vs) = Some ar"
    using n s(1) r by (simp add: elektraMemcpy_def ar_def)
  moreover have "wrArr (?new\<lparr>array := Some ar, ks_size := length vs\<rparr>) (length vs) Null = Some ret"
    using z by (simp add: wrArr_def slots_def ar_def ret_def list_update_append)
  moreover have "repr ret vs" using zs s(2) by (intro reprI [of _ _ zs]) (simp_all add: ret_def)
  moreover have "cursor ret = None" "current ret = 0" by (simp_all add: ret_def ksRewind_def)
  ultimately show thesis using that by blast
qed

section \<open>What ksCut does\<close>

lemma ksCutPlain_repr:
  assumes r: "repr ks xs" and cur: "cursor_ok ks xs" and xs: "xs = us @ vs @ ws"
    and f: "cutScan m a ks 0 0 = Some (length us)" "vs \<noteq> [] \<Longrightarrow> cutScan m a ks 1 (length us) = Some (length us + length vs)"
    and n: "vs = [] \<Longrightarrow> ws = []"
  obtains ret ks' where "ksCutPlain m ks a = Some (ret, m, ks')" "repr ret vs" "repr ks' (us @ ws)" "cursor_ok ks' (us @ ws)"
    "cursor ret = None" "\<And>b. cursor ks = Some b \<Longrightarrow> distinct xs \<Longrightarrow> b \<notin> set vs \<Longrightarrow> cursor ks' = Some b"
proof (cases "vs = []")
  case True
  then have u: "us = xs" using n xs by simp
  let ?new = "ksRewind (ksVNewEmpty 0)"
  have "ksCutPlain m ks a = Some (?new, m, ks)"
    using f(1) u repr_size [OF r] by (simp add: ksCutPlain_def ksNew_empty)
  moreover have "repr ?new []" using ksVNewEmpty_repr(1) by simp
  ultimately show thesis using that [of ?new ks] True n u r cur by (simp add: ksRewind_def)
next
  case False
  let ?f = "length us" and ?it = "length us + length vs"
  have len: "length xs = ?it + length ws" "?it \<le> length xs" "?f < ?it" using xs False by simp_all
  obtain ks1 sc where c: "cutCursor ks ?f ?it = (ks1, sc)" by fastforce
  have r1: "repr ks1 xs"
    using c r by (auto simp: cutCursor_def Let_def split: if_splits)
  then have s1: "ks_size ks1 = length xs" "ks_size ks = length xs" using r by (simp_all add: repr_size)
  obtain ar ret where cp: "elektraMemcpy (slots (ksRewind (ksVNewEmpty (length vs)))) (drop ?f (slots ks1)) (length vs) = Some ar"
    "wrArr ((ksRewind (ksVNewEmpty (length vs)))\<lparr>array := Some ar, ks_size := length vs\<rparr>) (length vs) Null = Some ret"
    "repr ret vs" "cursor ret = None"
    by (rule copy_new [OF r1 [unfolded xs]])
  have zs: "take ?f xs @ drop ?it xs = us @ ws" using xs by simp
  obtain ks2 where k2: "ksCopyInternal ks1 ?f ?it = Some ks2" "repr ks2 (us @ ws)" "cursor ks2 = cursor ks1" "current ks2 = current ks1"
    using ksCopyInternal_repr [OF r1, of ?f ?it] len unfolding zs by auto
  have ne: "?f \<noteq> ks_size ks" using s1 len by simp
  define ks3 where "ks3 = (if sc then do { p \<leftarrow> rdArr ks2 (current ks2); Some (ks2\<lparr>cursor := p\<rparr>) } else Some ks2)"
  have un: "ksCutPlain m ks a = (case ks3 of None \<Rightarrow> None | Some k3 \<Rightarrow> Some (ret, m, k3))"
    using f False ne c cp(1,2) k2(1)
    by (cases sc; cases "rdArr ks2 (current ks2)") (simp_all add: ksCutPlain_def Let_def ksNew_empty ks3_def)
  have res: "\<exists>k3. ks3 = Some k3 \<and> repr k3 (us @ ws) \<and> cursor_ok k3 (us @ ws)
     \<and> (\<forall>b. cursor ks = Some b \<longrightarrow> distinct xs \<longrightarrow> b \<notin> set vs \<longrightarrow> cursor k3 = Some b)"
  proof (cases "cursor ks")
    case None
    then have z: "current ks = 0" using cur by (simp add: cursor_ok_def)
    have "ks1 = (if ?f = 0 then ksRewind ks else ks)" "\<not> sc"
      using c z len False by (auto simp: cutCursor_def Let_def ksRewind_def split: if_splits)
    then have "ks3 = Some ks2" "cursor ks2 = None" "current ks2 = 0" using k2(3,4) None z by (auto simp: ks3_def ksRewind_def)
    then show ?thesis using k2(2) None by (simp add: cursor_ok_def)
  next
    case (Some b)
    let ?i = "current ks"
    have i: "?i < length xs" "xs ! ?i = b" using cur Some by (simp_all add: cursor_ok_def)
    consider "?i < ?f" | "?f \<le> ?i" "?i < ?it" "?f = 0" | "?f \<le> ?i" "?i < ?it" "0 < ?f" | "?it \<le> ?i" by linarith
    then show ?thesis
    proof cases
      case 1
      then have "ks1 = ks" "\<not> sc" using c len by (auto simp: cutCursor_def Let_def split: if_splits)
      then have "ks3 = Some ks2" "cursor ks2 = Some b" "current ks2 = ?i" using k2(3,4) Some by (simp_all add: ks3_def)
      moreover have "(us @ ws) ! ?i = b" using i 1 xs by (simp add: nth_append)
      ultimately show ?thesis using k2(2) 1 Some by (simp add: cursor_ok_def)
    next
      case 2
      then have "ks1 = ksRewind ks" "\<not> sc" using c len by (auto simp: cutCursor_def Let_def ksRewind_def split: if_splits)
      then have "ks3 = Some ks2" "cursor ks2 = None" "current ks2 = 0" using k2(3,4) by (simp_all add: ks3_def ksRewind_def)
      moreover have "b \<in> set vs" using i 2 xs by (auto simp: nth_append)
      ultimately show ?thesis using k2(2) Some by (simp add: cursor_ok_def)
    next
      case 3
      then have "ks1 = ks\<lparr>current := ?f - 1\<rparr>" "sc" using c len by (auto simp: cutCursor_def Let_def split: if_splits)
      then have "current ks2 = ?f - 1" using k2(4) by simp
      moreover have "?f - 1 < length (us @ ws)" using 3(3) by (simp only: length_append)
      ultimately have "ks3 = Some (ks2\<lparr>cursor := Some ((us @ ws) ! (?f - 1))\<rparr>)" "current ks2 < length (us @ ws)"
        using \<open>sc\<close> rdArr_repr [OF k2(2), of "?f - 1"] by (simp_all add: ks3_def)
      moreover have "b \<in> set vs" using i 3 xs nth_mem [of "?i - ?f" vs] by (auto simp: nth_append split: if_splits)
      ultimately show ?thesis using k2(2) \<open>current ks2 = ?f - 1\<close> Some by (simp add: cursor_ok_def)
    next
      case 4
      then have "ks1 = ks\<lparr>current := ?f + ?i - ?it\<rparr>" "sc"
        using c len i(1) s1(2) by (auto simp: cutCursor_def Let_def split: if_splits)
      then have cu: "current ks2 = ?f + ?i - ?it" using k2(4) by simp
      have "?f + ?i - ?it < length (us @ ws)" "(us @ ws) ! (?f + ?i - ?it) = b"
      using i 4 xs by (auto simp: nth_append add.commute)
      moreover from this have "ks3 = Some (ks2\<lparr>cursor := Some b\<rparr>)"
        using \<open>sc\<close> rdArr_repr [OF k2(2), of "?f + ?i - ?it"] cu by (simp add: ks3_def)
      ultimately show ?thesis using k2(2) cu Some by (simp add: cursor_ok_def)
    qed
  qed
  show thesis using res un that cp(3,4) by auto
qed

text \<open>C29: in a keyset whose keys all lie in a namespace (none has a cascading name), cutting at a key in a namespace splits the keyset in two: the new keyset holds exactly the keys at or below
  the cutpoint, the old one all others, both in order, no reference count is touched, and the cursor stays at its key
  unless that was cut.\<close>

theorem cut:
  assumes "ks_ok m ks xs" "cursor_ok ks xs" "in_namespace m a" "\<forall>b \<in> set xs. in_namespace m b"
  shows "\<exists>ret ks'. ksCut m (Some ks) (Some a) = Some (Some ret, m, Some ks')
     \<and> ks_ok m ret (filter (belowOrSame m a) xs) \<and> ks_ok m ks' (filter (\<lambda>b. \<not> belowOrSame m a b) xs)
     \<and> cursor_ok ks' (filter (\<lambda>b. \<not> belowOrSame m a b) xs) \<and> cursor ret = None
     \<and> (\<forall>b. cursor ks = Some b \<longrightarrow> \<not> belowOrSame m a b \<longrightarrow> cursor ks' = Some b)"
proof -
  let ?P = "belowOrSame m a"
  have r: "repr ks xs" and srt: "sorted_wrt (\<lambda>a b. okeyA m a < okeyA m b) xs" and d: "distinct xs"
    using ks_okD [OF assms(1)] by blast+
  obtain c q cs where c: "keys m a = Some c" "named c (Some q) cs" using assms(3) by (auto simp: in_namespace_def)
  have u: "fst (okeyA m b) = unameA m b" if "b \<in> set xs" for b
    using assms(4) that by (auto simp: in_namespace_def okeyA_def okey_def unameA_def)
  have le: "unameA m (xs ! i) \<le> unameA m (xs ! j)" if "i \<le> j" "j < length xs" for i j
  proof (cases "i = j")
    case False
    then have "okeyA m (xs ! i) < okeyA m (xs ! j)" using that sorted_wrt_nth_less [OF srt] by simp
    then have "fst (okeyA m (xs ! i)) \<le> fst (okeyA m (xs ! j))" by (auto simp: less_prod_def)
    moreover have "fst (okeyA m (xs ! i)) = unameA m (xs ! i)" "fst (okeyA m (xs ! j)) = unameA m (xs ! j)"
      using that by (auto intro: u)
    ultimately show ?thesis by simp
  qed simp
  have blk: "?P (xs ! j)" if "i \<le> j" "j \<le> k" "k < length xs" "?P (xs ! i)" "?P (xs ! k)" for i j k
  proof -
    have l: "i < length xs" "j < length xs" "k < length xs" using that by simp_all
    have ns: "in_namespace m (xs ! i)" "in_namespace m (xs ! j)" "in_namespace m (xs ! k)"
      using assms(4) l nth_mem by blast+
    have "prefix (unameA m a) (unameA m (xs ! i))" "prefix (unameA m a) (unameA m (xs ! k))"
      using belowOrSame_prefix(1) [OF assms(3) ns(1)] belowOrSame_prefix(1) [OF assms(3) ns(3)] that(4,5) by blast+
    from prefix_between [OF this le [OF that(1) l(2)] le [OF that(2) l(3)]]
    show ?thesis using belowOrSame_prefix(1) [OF assms(3) ns(2)] by blast
  qed
  obtain us vs ws where p: "xs = us @ vs @ ws" "\<forall>x \<in> set us. \<not> ?P x" "\<forall>x \<in> set vs. ?P x" "\<forall>x \<in> set ws. \<not> ?P x"
    "us = takeWhile (\<lambda>x. \<not> ?P x) xs" "vs = takeWhile ?P (drop (length us) xs)"
    using filter_block [of xs ?P] blk by blast
  note fl = filter_parts [OF p(1-4)]
  have t: "\<forall>b \<in> set xs. \<exists>k. keys m b = Some k \<and> keyIsBelowOrSame (Some c) (Some k) = Some (if ?P b then 1 else 0)"
    using belowOrSame_prefix(2) [OF assms(3)] assms(4) c(1) by (metis in_namespace_def)
  have sc: "cutScan m a ks 0 0 = Some (length us)" "cutScan m a ks 1 (length us) = Some (length us + length vs)"
  proof -
    have "length us \<le> length xs" by (simp add: p(1))
    then show "cutScan m a ks 0 0 = Some (length us)" "cutScan m a ks 1 (length us) = Some (length us + length vs)"
      using cutScan_takeWhile [OF r c(1) t, of 0 False] cutScan_takeWhile [OF r c(1) t, of "length us" True]
      by (simp_all flip: p(5,6))
  qed
  have "vs = [] \<Longrightarrow> ws = []"
  proof -
    assume v: "vs = []"
    show "ws = []"
    proof (rule ccontr)
      assume "ws \<noteq> []"
      then obtain w ws' where "ws = w # ws'" by (cases ws) auto
      then have "takeWhile (\<lambda>x. \<not> ?P x) xs = us @ takeWhile (\<lambda>x. \<not> ?P x) (w # ws')" "\<not> ?P w"
        using p(1,2,4) v by (simp_all add: takeWhile_append2)
      then show False using p(5) by simp
    qed
  qed
  then obtain ret ks' where k: "ksCutPlain m ks a = Some (ret, m, ks')" "repr ret vs" "repr ks' (us @ ws)" "cursor_ok ks' (us @ ws)"
    "cursor ret = None" "\<And>b. cursor ks = Some b \<Longrightarrow> distinct xs \<Longrightarrow> b \<notin> set vs \<Longrightarrow> cursor ks' = Some b"
    using ksCutPlain_repr [OF r assms(2) p(1) sc] by blast
  have ok: "ks_ok m ret vs" "ks_ok m ks' (us @ ws)"
    using ks_ok_sub [OF assms(1) k(2)] ks_ok_sub [OF assms(1) k(3)] p(1) srt by (auto simp: sorted_wrt_append)
  have nm: "key c = Some (mkname (Some q) cs)" "hd (mkname (Some q) cs) \<noteq> SLASH"
    using c(2) hd_mkname [of "Some q" cs] by (simp_all add: named_def)
  have "ksCut m (Some ks) (Some a) = Some (Some ret, m, Some ks')" using c(1) nm k(1) by (simp add: ksCut_def)
  then show ?thesis using ok k(4-6) d p(3) fl by auto
qed

theorem cut_witness:
  "\<exists>ret ks'. ksCut exM (Some exKs) (Some 0) = Some (Some ret, exM, Some ks')
     \<and> ks_ok exM ret (filter (belowOrSame exM 0) [0, 1]) \<and> ks_ok exM ks' (filter (\<lambda>b. \<not> belowOrSame exM 0 b) [0, 1])
     \<and> cursor_ok ks' (filter (\<lambda>b. \<not> belowOrSame exM 0 b) [0, 1]) \<and> cursor ret = None
     \<and> (\<forall>b. cursor exKs = Some b \<longrightarrow> \<not> belowOrSame exM 0 b \<longrightarrow> cursor ks' = Some b)"
proof (rule cut [OF exKs_ok])
  have "named exA (Some ''user'') [''a'']" "named exB (Some ''user'') [''b'']" by code_simp+
  then have "in_namespace exM 0" "in_namespace exM 1" unfolding in_namespace_def using ex_keys by blast+
  then show "in_namespace exM 0" "\<forall>b \<in> set [0, 1]. in_namespace exM b" by simp_all
  show "cursor_ok exKs [0, 1]" by (simp add: cursor_ok_def exKs_def ksInit_def)
qed

text \<open>
  A keyset may also hold keys with cascading names. They come first in its order and count as below a cutpoint
  in a namespace, so there can be two blocks to cut, and the code takes the first one only: here
  \<open>user/a/b\<close> is below \<open>user/a\<close> and stays.
\<close>

definition exCasc :: mem where
  "exCasc = exMem [exKey ''/a/b'', exKey ''system/x'', exKey ''user/a/b'', exKey ''user/a'']"

definition exCascKs :: KeySet where
  "exCascKs = ksInit\<lparr>array := Some [Ptr 0, Ptr 1, Ptr 2, Null], ks_size := 3, alloc := 4\<rparr>"

theorem cut_misses_second_block:
  "keyIsBelow (keys exCasc 3) (keys exCasc 2) = Some 1 \<and>
   (case ksCut exCasc (Some exCascKs) (Some 3) of
      Some (Some ret, _, Some ks') \<Rightarrow> take 2 (slots ret) = [Ptr 0, Null] \<and> take 3 (slots ks') = [Ptr 1, Ptr 2, Null]
    | _ \<Rightarrow> False)"
  by code_simp

end
