(* ===== verification/Kdb.thy ===== *)
theory Kdb
  imports SplitFacts KeySetCut
begin

text \<open>
  \<open>src/libs/elektra/kdb.c\<close>: reading and writing the key database through the plugins of the backends. The
  functions of a plugin are reached through pointers and are not part of the library: they are a parameter, a
  function on the memory, a keyset and the address of the parent key, and on a state \<open>'w\<close> that stands for
  everything outside, above all the files. So are the generated macros \<open>ELEKTRA_ADD_WARNING\<close> and
  \<open>ELEKTRA_SET_ERROR\<close>. Beside the state of the code the model keeps, as a ghost, the list of the calls of plugins.
  Saving \<open>errno\<close> and logging are left out.
\<close>

section \<open>State\<close>

abbreviation (input) NR_OF_PLUGINS :: nat where "NR_OF_PLUGINS \<equiv> 10"
abbreviation (input) COMMIT_PLUGIN :: nat where "COMMIT_PLUGIN \<equiv> 7"
abbreviation (input) STORAGE_PLUGIN :: nat where "STORAGE_PLUGIN \<equiv> 5"
abbreviation (input) RESOLVER_PLUGIN :: nat where "RESOLVER_PLUGIN \<equiv> 0"

type_synonym 'w pfun = "'w \<Rightarrow> mem \<Rightarrow> KeySet \<Rightarrow> addr \<Rightarrow> (int \<times> 'w \<times> mem \<times> KeySet) option"

text \<open>The pointers of a plugin that are used here, \<open>None\<close> for a null pointer.\<close>

record 'w Plugin =
  kdbGetPtr :: "'w pfun option"
  kdbSetPtr :: "'w pfun option"
  kdbErrorPtr :: "'w pfun option"

record 'w env =
  plugins :: "paddr \<Rightarrow> 'w Plugin"
  warn :: warner
  setError :: warner
  callbacks :: callback_fun
  fuel :: nat

text \<open>A call of a plugin: its part and slot and what it returned. The global plugins have a position instead.\<close>

datatype call = GetCall nat nat int | SetCall nat nat int | ErrorCall nat nat int | HookCall GlobalpluginPositions

record 'w run =
  world :: 'w
  memory :: mem
  backs :: bmem
  spl :: Split
  calls :: "call list"

section \<open>Calling plugins\<close>

abbreviation partAt :: "'w run \<Rightarrow> nat \<Rightarrow> Part" where
  "partAt r i \<equiv> parts (spl r) ! i"

definition rewindPart :: "nat \<Rightarrow> 'w run \<Rightarrow> 'w run" where
  "rewindPart i r = r\<lparr>spl := setPart i (\<lambda>p. p\<lparr>part_keys := ksRewind (part_keys p)\<rparr>) (spl r)\<rparr>"

text \<open>A call with the keyset of a part, and one with the keyset of the user.\<close>

definition callPart :: "'w pfun \<Rightarrow> nat \<Rightarrow> (int \<Rightarrow> call) \<Rightarrow> addr \<Rightarrow> 'w run \<Rightarrow> (int \<times> 'w run) option" where
  "callPart f i ev pk r = do {
     (ret, w, m, ks) \<leftarrow> f (world r) (memory r) (part_keys (partAt r i)) pk;
     Some (ret, r\<lparr>world := w, memory := m, spl := setPart i (\<lambda>p. p\<lparr>part_keys := ks\<rparr>) (spl r), calls := calls r @ [ev ret]\<rparr>) }"

definition callWith :: "'w pfun \<Rightarrow> (int \<Rightarrow> call) \<Rightarrow> addr \<Rightarrow> KeySet \<Rightarrow> 'w run \<Rightarrow> (int \<times> KeySet \<times> 'w run) option" where
  "callWith f ev pk ks r = do {
     (ret, w, m, ks') \<leftarrow> f (world r) (memory r) ks pk;
     Some (ret, ks', r\<lparr>world := w, memory := m, calls := calls r @ [ev ret]\<rparr>) }"

definition setFn :: "'w env \<Rightarrow> Backend \<Rightarrow> nat \<Rightarrow> 'w pfun option" where
  "setFn env b p = Option.bind (setplugins b p) (\<lambda>q. kdbSetPtr (plugins env q))"

definition getFn :: "'w env \<Rightarrow> Backend \<Rightarrow> nat \<Rightarrow> 'w pfun option" where
  "getFn env b p = Option.bind (getplugins b p) (\<lambda>q. kdbGetPtr (plugins env q))"

text \<open>What a handle's global plugin does at a position; a null pointer in the plugin is an error.\<close>

definition globalSet :: "'w env \<Rightarrow> KDB \<Rightarrow> GlobalpluginPositions \<Rightarrow> addr \<Rightarrow> KeySet \<Rightarrow> 'w run \<Rightarrow> (KeySet \<times> 'w run) option" where
  "globalSet env handle g pk ks r = (case globalPlugins handle g of None \<Rightarrow> Some (ks, r)
     | Some q \<Rightarrow> do { f \<leftarrow> kdbSetPtr (plugins env q); (_, ks', r') \<leftarrow> callWith f (\<lambda>_. HookCall g) pk ks r; Some (ks', r') })"

definition globalGet :: "'w env \<Rightarrow> KDB \<Rightarrow> GlobalpluginPositions \<Rightarrow> addr \<Rightarrow> KeySet \<Rightarrow> 'w run \<Rightarrow> (KeySet \<times> 'w run) option" where
  "globalGet env handle g pk ks r = (case globalPlugins handle g of None \<Rightarrow> Some (ks, r)
     | Some q \<Rightarrow> do { f \<leftarrow> kdbGetPtr (plugins env q); (_, ks', r') \<leftarrow> callWith f (\<lambda>_. HookCall g) pk ks r; Some (ks', r') })"

definition globalError :: "'w env \<Rightarrow> KDB \<Rightarrow> GlobalpluginPositions \<Rightarrow> addr \<Rightarrow> KeySet \<Rightarrow> 'w run \<Rightarrow> (KeySet \<times> 'w run) option" where
  "globalError env handle g pk ks r = (case globalPlugins handle g of None \<Rightarrow> Some (ks, r)
     | Some q \<Rightarrow> do { f \<leftarrow> kdbErrorPtr (plugins env q); (_, ks', r') \<leftarrow> callWith f (\<lambda>_. HookCall g) pk ks r; Some (ks', r') })"

text \<open>Setting the name and the value of the key \<open>p\<close> to those of the key \<open>q\<close>.\<close>

definition nameFrom :: "addr option \<Rightarrow> addr option \<Rightarrow> 'w run \<Rightarrow> 'w run option" where
  "nameFrom p q r = do { (_, m) \<leftarrow> keySetName (memory r) p (keyName (keyAt (memory r) q)); Some (r\<lparr>memory := m\<rparr>) }"

definition valueFrom :: "addr option \<Rightarrow> addr option \<Rightarrow> 'w run \<Rightarrow> 'w run option" where
  "valueFrom p q r = do { (_, m) \<leftarrow> keySetString (memory r) p (Some (keyString (memory r) (keyAt (memory r) q))); Some (r\<lparr>memory := m\<rparr>) }"

definition valueEmpty :: "addr option \<Rightarrow> 'w run \<Rightarrow> 'w run option" where
  "valueEmpty p r = do { (_, m) \<leftarrow> keySetString (memory r) p (Some ''''); Some (r\<lparr>memory := m\<rparr>) }"

definition warning :: "'w env \<Rightarrow> nat \<Rightarrow> addr \<Rightarrow> string option \<Rightarrow> 'w run \<Rightarrow> 'w run option" where
  "warning env n pk text r = do { t \<leftarrow> text; m \<leftarrow> warn env (memory r) (Some pk) n t; Some (r\<lparr>memory := m\<rparr>) }"

definition reportError :: "'w env \<Rightarrow> nat \<Rightarrow> addr \<Rightarrow> string option \<Rightarrow> 'w run \<Rightarrow> 'w run option" where
  "reportError env n pk text r = do { t \<leftarrow> text; m \<leftarrow> setError env (memory r) (Some pk) n t; Some (r\<lparr>memory := m\<rparr>) }"

section \<open>Error metadata\<close>

text \<open>The loop of \<open>elektraRemoveMetaData\<close>; every round goes on in the metadata, of which there are at most \<open>n\<close>.\<close>

fun removeMetaLoop :: "nat \<Rightarrow> mem \<Rightarrow> addr \<Rightarrow> string \<Rightarrow> mem option" where
  "removeMetaLoop 0 m a searchfor = None"
| "removeMetaLoop (Suc n) m a searchfor = do {
     (p, m1) \<leftarrow> keyNextMeta m (Some a);
     case p of None \<Rightarrow> Some m1
     | Some b \<Rightarrow> do {
         name \<leftarrow> keyName (keys m1 b);
         m2 \<leftarrow> (if strncmp searchfor name (length searchfor) = 0
               then do { (_, m2) \<leftarrow> keySetMeta m1 (Some a) (Some name) None; Some m2 } else Some m1);
         removeMetaLoop n m2 a searchfor } }"

definition metaCount :: "mem \<Rightarrow> addr \<Rightarrow> nat" where
  "metaCount m a = (case Option.bind (keys m a) meta of None \<Rightarrow> 0 | Some ks \<Rightarrow> ks_size ks)"

definition elektraRemoveMetaData :: "mem \<Rightarrow> addr \<Rightarrow> string \<Rightarrow> mem option" where
  "elektraRemoveMetaData m a searchfor = do {
     (_, m1) \<leftarrow> keyRewindMeta m (Some a);
     removeMetaLoop (Suc (metaCount m a)) m1 a searchfor }"

fun copyErrorLoop :: "nat \<Rightarrow> mem \<Rightarrow> addr \<Rightarrow> addr \<Rightarrow> mem option" where
  "copyErrorLoop 0 m dest src = None"
| "copyErrorLoop (Suc n) m dest src = do {
     (p, m1) \<leftarrow> keyNextMeta m (Some src);
     case p of None \<Rightarrow> Some m1
     | Some b \<Rightarrow> do {
         name \<leftarrow> keyName (keys m1 b);
         if strncmp name ''error/'' 6 \<noteq> 0 then Some m1
         else do { (_, m2) \<leftarrow> keySetMeta m1 (Some dest) (Some name) (Some (keyString m1 (keys m1 b))); copyErrorLoop n m2 dest src } } }"

definition copyError :: "mem \<Rightarrow> addr \<Rightarrow> addr \<Rightarrow> (int \<times> mem) option" where
  "copyError m dest src = do {
     (_, m1) \<leftarrow> keyRewindMeta m (Some src);
     (p, m2) \<leftarrow> keyGetMeta m1 (Some src) (Some ''error'');
     case p of None \<Rightarrow> Some (0, m2)
     | Some b \<Rightarrow> do {
         name \<leftarrow> keyName (keys m2 b);
         (_, m3) \<leftarrow> keySetMeta m2 (Some dest) (Some name) (Some (keyString m2 (keys m2 b)));
         m4 \<leftarrow> copyErrorLoop (Suc (metaCount m src)) m3 dest src;
         Some (1, m4) } }"

fun clearMetas :: "mem \<Rightarrow> addr \<Rightarrow> string list \<Rightarrow> mem option" where
  "clearMetas m a [] = Some m"
| "clearMetas m a (n # ns) = do { (_, m1) \<leftarrow> keySetMeta m (Some a) (Some n) None; clearMetas m1 a ns }"

definition clearError :: "mem \<Rightarrow> addr \<Rightarrow> mem option" where
  "clearError m a = clearMetas m a [''error'', ''error/number'', ''error/description'', ''error/reason'', ''error/ingroup'',
     ''error/module'', ''error/file'', ''error/line'', ''error/configfile'', ''error/mountpoint'']"


text \<open>Clearing the errors before the plugins are called, and bringing the old ones back when none failed.\<close>

definition clearErr :: "addr \<Rightarrow> 'w run \<Rightarrow> 'w run option" where
  "clearErr pk r = do { m \<leftarrow> clearError (memory r) pk; Some (r\<lparr>memory := m\<rparr>) }"

definition oldErr :: "addr \<Rightarrow> addr \<Rightarrow> 'w run \<Rightarrow> 'w run option" where
  "oldErr pk oldError r = do { (_, m) \<leftarrow> copyError (memory r) pk oldError; Some (r\<lparr>memory := m\<rparr>) }"

section \<open>Writing\<close>

text \<open>
  One round of the inner loop of \<open>elektraSetPrepare\<close>: slot \<open>p\<close> of part \<open>i\<close>. The result says whether the loop is
  left, because the resolver in slot 0 needs no synchronisation, and what the plugin returned.
\<close>

definition setPrepareStep :: "'w env \<Rightarrow> addr \<Rightarrow> nat \<Rightarrow> nat \<Rightarrow> 'w run \<Rightarrow> (bool \<times> int \<times> 'w run) option" where
  "setPrepareStep env pk i p r = do {
     ba \<leftarrow> part_handle (partAt r i);
     backend \<leftarrow> backs r ba;
     let r1 = rewindPart i r;
     let par = part_parent (partAt r1 i);
     case setFn env backend p of None \<Rightarrow> Some (False, 0, r1)
     | Some f \<Rightarrow> do {
         r2 \<leftarrow> (if p \<noteq> 0 then valueFrom (Some pk) par r1 else valueEmpty (Some pk) r1);
         r3 \<leftarrow> nameFrom (Some pk) par r2;
         (ret, r4) \<leftarrow> callPart f i (SetCall i p) pk r3;
         if p = 0 then
           if ret = 0 then Some (True, ret, r4)
           else do { r5 \<leftarrow> valueFrom (part_parent (partAt r4 i)) (Some pk) r4; Some (False, ret, r5) }
         else Some (False, ret, r4) } }"

definition prepareHook :: "'w env \<Rightarrow> KDB \<Rightarrow> GlobalpluginPositions \<Rightarrow> addr \<Rightarrow> nat \<Rightarrow> 'w run \<Rightarrow> 'w run option" where
  "prepareHook env handle g pk i r = (case globalPlugins handle g of None \<Rightarrow> Some r
     | Some q \<Rightarrow> do { f \<leftarrow> kdbSetPtr (plugins env q); (_, r') \<leftarrow> callPart f i (\<lambda>_. HookCall g) pk (rewindPart i r); Some r' })"

definition prepareHooks :: "'w env \<Rightarrow> KDB \<Rightarrow> addr \<Rightarrow> nat \<Rightarrow> nat \<Rightarrow> 'w run \<Rightarrow> 'w run option" where
  "prepareHooks env handle pk i p r =
     (if p = 0 then prepareHook env handle PRESETSTORAGE pk i r
      else if p = STORAGE_PLUGIN - 1 then prepareHook env handle PRESETCLEANUP pk i r
      else Some r)"

fun preparePlugins :: "'w env \<Rightarrow> KDB \<Rightarrow> addr \<Rightarrow> nat \<Rightarrow> nat list \<Rightarrow> int \<times> addr option \<times> 'w run \<Rightarrow> (int \<times> addr option \<times> 'w run) option" where
  "preparePlugins env handle pk i [] s = Some s"
| "preparePlugins env handle pk i (p # ps) (anyError, errorKey, r) = do {
     (brk, ret, r1) \<leftarrow> setPrepareStep env pk i p r;
     if brk then Some (anyError, errorKey, r1)
     else do {
       r2 \<leftarrow> prepareHooks env handle pk i p r1;
       preparePlugins env handle pk i ps
         (if ret = -1 then (-1, ksCurrent (Some (part_keys (partAt r2 i))), r2) else (anyError, errorKey, r2)) } }"

fun prepareParts :: "'w env \<Rightarrow> KDB \<Rightarrow> addr \<Rightarrow> nat list \<Rightarrow> int \<times> addr option \<times> 'w run \<Rightarrow> (int \<times> addr option \<times> 'w run) option" where
  "prepareParts env handle pk [] s = Some s"
| "prepareParts env handle pk (i # is) s = do {
     s1 \<leftarrow> preparePlugins env handle pk i [0..<COMMIT_PLUGIN] s;
     prepareParts env handle pk is s1 }"

definition elektraSetPrepare :: "'w env \<Rightarrow> KDB \<Rightarrow> addr \<Rightarrow> addr option \<Rightarrow> 'w run \<Rightarrow> (int \<times> addr option \<times> 'w run) option" where
  "elektraSetPrepare env handle pk errorKey r = prepareParts env handle pk [0..<length (parts (spl r))] (0, errorKey, r)"

definition commitStep :: "'w env \<Rightarrow> addr \<Rightarrow> nat \<Rightarrow> nat \<Rightarrow> 'w run \<Rightarrow> 'w run option" where
  "commitStep env pk p i r = do {
     ba \<leftarrow> part_handle (partAt r i);
     backend \<leftarrow> backs r ba;
     let par = part_parent (partAt r i);
     (ret, r1) \<leftarrow> (case setFn env backend p of None \<Rightarrow> Some (0, r)
       | Some f \<Rightarrow> do {
           r2 \<leftarrow> (if p \<noteq> COMMIT_PLUGIN then valueFrom (Some pk) par r else Some r);
           r3 \<leftarrow> nameFrom (Some pk) par r2;
           (ret, r4) \<leftarrow> callPart f i (SetCall i p) pk (rewindPart i r3);
           r5 \<leftarrow> (if p = COMMIT_PLUGIN then valueFrom par (Some pk) r4 else Some r4);
           Some (ret, r5) });
     if ret = -1 then warning env 80 pk (keyName (keyAt (memory r1) (mountpoint backend))) r1 else Some r1 }"

fun commitParts :: "'w env \<Rightarrow> addr \<Rightarrow> nat \<Rightarrow> nat list \<Rightarrow> 'w run \<Rightarrow> 'w run option" where
  "commitParts env pk p [] r = Some r"
| "commitParts env pk p (i # is) r = do { r1 \<leftarrow> commitStep env pk p i r; commitParts env pk p is r1 }"

fun commitPlugins :: "'w env \<Rightarrow> addr \<Rightarrow> nat list \<Rightarrow> 'w run \<Rightarrow> 'w run option" where
  "commitPlugins env pk [] r = Some r"
| "commitPlugins env pk (p # ps) r = do { r1 \<leftarrow> commitParts env pk p [0..<length (parts (spl r))] r; commitPlugins env pk ps r1 }"

definition elektraSetCommit :: "'w env \<Rightarrow> addr \<Rightarrow> 'w run \<Rightarrow> 'w run option" where
  "elektraSetCommit env pk r = commitPlugins env pk [COMMIT_PLUGIN..<NR_OF_PLUGINS] r"

definition rollbackStep :: "'w env \<Rightarrow> addr \<Rightarrow> nat \<Rightarrow> nat \<Rightarrow> 'w run \<Rightarrow> 'w run option" where
  "rollbackStep env pk p i r = do {
     ba \<leftarrow> part_handle (partAt r i);
     backend \<leftarrow> backs r ba;
     let r1 = rewindPart i r;
     (ret, r2) \<leftarrow> (case errorplugins backend p of None \<Rightarrow> Some (0, r1)
       | Some q \<Rightarrow> do {
           r2 \<leftarrow> nameFrom (Some pk) (part_parent (partAt r1 i)) r1;
           f \<leftarrow> kdbErrorPtr (plugins env q);
           callPart f i (ErrorCall i p) pk r2 });
     if ret = -1 then warning env 81 pk (keyName (keyAt (memory r2) (mountpoint backend))) r2 else Some r2 }"

fun rollbackParts :: "'w env \<Rightarrow> addr \<Rightarrow> nat \<Rightarrow> nat list \<Rightarrow> 'w run \<Rightarrow> 'w run option" where
  "rollbackParts env pk p [] r = Some r"
| "rollbackParts env pk p (i # is) r = do { r1 \<leftarrow> rollbackStep env pk p i r; rollbackParts env pk p is r1 }"

fun rollbackPlugins :: "'w env \<Rightarrow> addr \<Rightarrow> nat list \<Rightarrow> 'w run \<Rightarrow> 'w run option" where
  "rollbackPlugins env pk [] r = Some r"
| "rollbackPlugins env pk (p # ps) r = do { r1 \<leftarrow> rollbackParts env pk p [0..<length (parts (spl r))] r; rollbackPlugins env pk ps r1 }"

definition elektraSetRollback :: "'w env \<Rightarrow> addr \<Rightarrow> 'w run \<Rightarrow> 'w run option" where
  "elektraSetRollback env pk r = rollbackPlugins env pk [0..<NR_OF_PLUGINS] r"

text \<open>The flags of all keys of a keyset, cleared in the loop at the end of \<open>kdbSet\<close>.\<close>

fun clearSyncs :: "mem \<Rightarrow> KeySet \<Rightarrow> nat list \<Rightarrow> mem option" where
  "clearSyncs m ks [] = Some m"
| "clearSyncs m ks (i # is) = do {
     p \<leftarrow> rdArr ks i; a \<leftarrow> p; k \<leftarrow> keys m a;
     clearSyncs (storeKey m a (k\<lparr>flags := clear_bit (flags k) KEY_FLAG_SYNC\<rparr>)) ks is }"

text \<open>What all ways out of \<open>kdbSet\<close> and \<open>kdbGet\<close> do: the name of the parent is restored, what was made on the way deleted.\<close>

definition finish :: "addr option \<Rightarrow> addr \<Rightarrow> 'w run \<Rightarrow> 'w run option" where
  "finish initialParent oldError r = do {
     (_, m1) \<leftarrow> keyDel (memory r) initialParent;
     m2 \<leftarrow> splitDel m1 (spl r);
     (_, m3) \<leftarrow> keyDel m2 (Some oldError);
     Some (r\<lparr>memory := m3, spl := splitNew\<rparr>) }"

text \<open>The code behind the label \<open>error\<close> of \<open>kdbSet\<close>.\<close>

definition setErrorExit :: "'w env \<Rightarrow> KDB \<Rightarrow> KeySet \<Rightarrow> addr \<Rightarrow> addr option \<Rightarrow> addr \<Rightarrow> addr option \<Rightarrow> 'w run \<Rightarrow> (int \<times> KeySet \<times> 'w run) option" where
  "setErrorExit env handle ks pk initialParent oldError errorKey r = do {
     r1 \<leftarrow> nameFrom (Some pk) initialParent r;
     (ks1, r2) \<leftarrow> globalError env handle PREROLLBACK pk ks r1;
     r3 \<leftarrow> elektraSetRollback env pk r2;
     (ks2, r4) \<leftarrow> (case errorKey of None \<Rightarrow> Some (ks1, r3)
       | Some e \<Rightarrow> do {
           (found, m, ks') \<leftarrow> ksLookup (callbacks env) (fuel env) (memory r3) (Some ks1) errorKey 0;
           ks2 \<leftarrow> ks';
           let r4 = r3\<lparr>memory := m\<rparr>;
           if found = None then do { r5 \<leftarrow> warning env 82 pk (keyName (keys m e)) r4; Some (ks2, r5) } else Some (ks2, r4) });
     r5 \<leftarrow> nameFrom (Some pk) initialParent r4;
     (ks3, r6) \<leftarrow> globalError env handle POSTROLLBACK pk ks2 r5;
     r7 \<leftarrow> nameFrom (Some pk) initialParent r6;
     r8 \<leftarrow> finish initialParent oldError r7;
     Some (-1, ks3, r8) }"


text \<open>\<open>kdbSet\<close> behind its checks of the arguments. \<open>splitBuildup\<close> never returns \<open>-1\<close>.\<close>

definition noSync :: "'w env \<Rightarrow> KeySet \<Rightarrow> addr \<Rightarrow> addr option \<Rightarrow> addr \<Rightarrow> int \<Rightarrow> 'w run \<Rightarrow> (int \<times> KeySet \<times> 'w run) option" where
  "noSync env ks pk initialParent oldError syncstate r = do {
     r1 \<leftarrow> nameFrom (Some pk) initialParent r;
     r2 \<leftarrow> (if syncstate < 0 then clearErr pk r1 else Some r1);
     r3 \<leftarrow> (if syncstate = -1 then reportError env 107 pk (Some ''Assert failed: invalid namespace'') r2
           else if syncstate < -1 then
             (let i = nat (- syncstate - 2) in
              if i < length (parts (spl r2)) then reportError env 107 pk (keyName (keyAt (memory r2) (part_parent (partAt r2 i)))) r2 else None)
           else Some r2);
     r4 \<leftarrow> finish initialParent oldError r3;
     Some (if syncstate = 0 then 0 else -1, ks, r4) }"

definition kdbSetCommit :: "'w env \<Rightarrow> KDB \<Rightarrow> KeySet \<Rightarrow> addr \<Rightarrow> addr option \<Rightarrow> addr \<Rightarrow> 'w run \<Rightarrow> (int \<times> KeySet \<times> 'w run) option" where
  "kdbSetCommit env handle ks pk initialParent oldError r = do {
     r1 \<leftarrow> oldErr pk oldError r;
     r2 \<leftarrow> nameFrom (Some pk) initialParent r1;
     (ks1, r3) \<leftarrow> globalSet env handle PRECOMMIT pk ks r2;
     r4 \<leftarrow> elektraSetCommit env pk r3;
     (_, B) \<leftarrow> splitUpdateSize (memory r4) (backs r4) (spl r4);
     r5 \<leftarrow> nameFrom (Some pk) initialParent (r4\<lparr>backs := B\<rparr>);
     (ks2, r6) \<leftarrow> globalSet env handle POSTCOMMIT pk ks1 r5;
     m \<leftarrow> clearSyncs (memory r6) ks2 [0..<ks_size ks2];
     r7 \<leftarrow> nameFrom (Some pk) initialParent (r6\<lparr>memory := m\<rparr>);
     r8 \<leftarrow> finish initialParent oldError r7;
     Some (1, ks2, r8) }"

definition kdbSetSync :: "'w env \<Rightarrow> KDB \<Rightarrow> KeySet \<Rightarrow> addr \<Rightarrow> addr option \<Rightarrow> addr \<Rightarrow> 'w run \<Rightarrow> (int \<times> KeySet \<times> 'w run) option" where
  "kdbSetSync env handle ks pk initialParent oldError r = do {
     (m1, s1) \<leftarrow> splitPrepare (memory r) (spl r);
     r1 \<leftarrow> clearErr pk (r\<lparr>memory := m1, spl := s1\<rparr>);
     (e, errorKey, r2) \<leftarrow> elektraSetPrepare env handle pk None r1;
     if e = -1 then setErrorExit env handle ks pk initialParent oldError errorKey r2
     else kdbSetCommit env handle ks pk initialParent oldError r2 }"

definition kdbSetSplit :: "'w env \<Rightarrow> KDB \<Rightarrow> KeySet \<Rightarrow> addr \<Rightarrow> addr \<Rightarrow> 'w run \<Rightarrow> (int \<times> KeySet \<times> 'w run) option" where
  "kdbSetSplit env handle ks pk oldError r = do {
     (initialParent, m1) \<leftarrow> keyDup (memory r) (Some pk);
     (_, m2, s1) \<leftarrow> splitBuildup m1 (spl r) handle (Some pk);
     (state1, m3, s2, ks1) \<leftarrow> splitDivide handle m2 s1 ks;
     let r1 = r\<lparr>memory := m3, spl := s2\<rparr>;
     if state1 = -1 then do {
       r1' \<leftarrow> clearErr pk r1;
       r2 \<leftarrow> reportError env 8 pk (keyName (keyAt (memory r1') (ksCurrent (Some ks1)))) r1';
       setErrorExit env handle ks1 pk initialParent oldError None r2 }
     else do {
       (state2, s3) \<leftarrow> splitSync m3 (backs r) s2;
       let syncstate = state1 OR state2;
       if syncstate \<noteq> 1 then noSync env ks1 pk initialParent oldError syncstate (r1\<lparr>spl := s3\<rparr>)
       else kdbSetSync env handle ks1 pk initialParent oldError (r1\<lparr>spl := s3\<rparr>) } }"

text \<open>Null pointers for the handle or the keyset are an error.\<close>

definition kdbSetNull :: "'w env \<Rightarrow> KeySet option \<Rightarrow> addr \<Rightarrow> addr \<Rightarrow> 'w run \<Rightarrow> (int \<times> KeySet option \<times> 'w run) option" where
  "kdbSetNull env ks pk oldError r = do {
     r1 \<leftarrow> clearErr pk r;
     r2 \<leftarrow> reportError env 37 pk (Some ''handle or ks null pointer'') r1;
     (_, m) \<leftarrow> keyDel (memory r2) (Some oldError);
     Some (-1, ks, r2\<lparr>memory := m\<rparr>) }"

definition kdbSetArgs :: "'w env \<Rightarrow> KDB option \<Rightarrow> KeySet option \<Rightarrow> addr \<Rightarrow> addr \<Rightarrow> 'w run \<Rightarrow> (int \<times> KeySet option \<times> 'w run) option" where
  "kdbSetArgs env handle ks pk oldError r =
     (case handle of Some h \<Rightarrow>
        (case ks of Some ks1 \<Rightarrow> do { (ret, ks2, r1) \<leftarrow> kdbSetSplit env h ks1 pk oldError r; Some (ret, Some ks2, r1) }
         | None \<Rightarrow> kdbSetNull env ks pk oldError r)
      | None \<Rightarrow> kdbSetNull env ks pk oldError r)"

definition kdbSet :: "'w env \<Rightarrow> KDB option \<Rightarrow> KeySet option \<Rightarrow> addr option \<Rightarrow> 'w run \<Rightarrow> (int \<times> KeySet option \<times> 'w run) option" where
  "kdbSet env handle ks p r = (case p of None \<Rightarrow> Some (-1, ks, r)
   | Some pk \<Rightarrow> do {
       k \<leftarrow> keys (memory r) pk;
       let ns = keyGetNamespace (Some k);
       if ns = KEY_NS_NONE then Some (-1, ks, r)
       else do {
         name \<leftarrow> keyName (Some k);
         (oldError, m1) \<leftarrow> keyNew (memory r) (Some name) [];
         (_, m2) \<leftarrow> copyError m1 oldError pk;
         let r1 = r\<lparr>memory := m2, spl := splitNew\<rparr>;
         if ns = KEY_NS_META then do {
           r2 \<leftarrow> clearErr pk r1;
           r3 \<leftarrow> reportError env 104 pk (Some (''metakey with name '' @ CHR 0x22 # name @ CHR 0x22 # '' passed to kdbSet'')) r2;
           (_, m3) \<leftarrow> keyDel (memory r3) (Some oldError);
           Some (-1, ks, r3\<lparr>memory := m3\<rparr>) }
         else do {
           r2 \<leftarrow> (if ns = KEY_NS_EMPTY then warning env 105 pk (Some ''invalid key name passed to kdbSet'') r1 else Some r1);
           kdbSetArgs env handle ks pk oldError r2 } } })"

section \<open>Reading\<close>

definition checkStep :: "'w env \<Rightarrow> addr \<Rightarrow> nat \<Rightarrow> 'w run \<Rightarrow> (int \<times> 'w run) option" where
  "checkStep env pk i r = do {
     ba \<leftarrow> part_handle (partAt r i);
     backend \<leftarrow> backs r ba;
     let par = part_parent (partAt r i);
     let r1 = r\<lparr>spl := setPart i (\<lambda>p. p\<lparr>part_sync := clear_bit (part_sync p) 1\<rparr>) (spl r)\<rparr>;
     case getFn env backend RESOLVER_PLUGIN of None \<Rightarrow> Some (-1, r1)
     | Some f \<Rightarrow> do {
         r2 \<leftarrow> nameFrom (Some pk) par (rewindPart i r1);
         r3 \<leftarrow> valueEmpty (Some pk) r2;
         (ret, r4) \<leftarrow> callPart f i (GetCall i RESOLVER_PLUGIN) pk r3;
         r5 \<leftarrow> valueFrom par (Some pk) r4;
         (_, B) \<leftarrow> backendUpdateSize (memory r5) (backs r5) (Some ba) par 0;
         Some (ret, r5\<lparr>backs := B\<rparr>) } }"

fun checkLoop :: "'w env \<Rightarrow> addr \<Rightarrow> nat list \<Rightarrow> int \<Rightarrow> 'w run \<Rightarrow> (int \<times> 'w run) option" where
  "checkLoop env pk [] needed r = Some (needed, r)"
| "checkLoop env pk (i # is) needed r = do {
     (ret, r1) \<leftarrow> checkStep env pk i r;
     if ret = 1 then checkLoop env pk is (needed + 1) (r1\<lparr>spl := setPart i syncMark (spl r1)\<rparr>)
     else if ret = 0 then checkLoop env pk is needed r1
     else Some (-1, r1) }"

definition elektraGetCheckUpdateNeeded :: "'w env \<Rightarrow> addr \<Rightarrow> 'w run \<Rightarrow> (int \<times> 'w run) option" where
  "elektraGetCheckUpdateNeeded env pk r = checkLoop env pk [0..<length (parts (spl r))] 0 r"

fun updatePlugins :: "'w env \<Rightarrow> Backend \<Rightarrow> addr \<Rightarrow> nat \<Rightarrow> nat list \<Rightarrow> 'w run \<Rightarrow> (int \<times> 'w run) option" where
  "updatePlugins env backend pk i [] r = Some (0, r)"
| "updatePlugins env backend pk i (p # ps) r = (case getFn env backend p of None \<Rightarrow> updatePlugins env backend pk i ps r
     | Some f \<Rightarrow> do {
         (ret, r1) \<leftarrow> callPart f i (GetCall i p) pk r;
         if ret = -1 then Some (-1, r1) else updatePlugins env backend pk i ps r1 })"

text \<open>What both loops over the parts do first.\<close>

definition startPart :: "addr \<Rightarrow> nat \<Rightarrow> 'w run \<Rightarrow> 'w run option" where
  "startPart pk i r = do { r1 \<leftarrow> nameFrom (Some pk) (part_parent (partAt r i)) (rewindPart i r); valueFrom (Some pk) (part_parent (partAt r i)) r1 }"

fun updateParts :: "'w env \<Rightarrow> addr \<Rightarrow> nat list \<Rightarrow> 'w run \<Rightarrow> (int \<times> 'w run) option" where
  "updateParts env pk [] r = Some (0, r)"
| "updateParts env pk (i # is) r =
     (if \<not> test_bit (part_sync (partAt r i)) SPLIT_FLAG_SYNC then updateParts env pk is r
      else do {
        ba \<leftarrow> part_handle (partAt r i);
        backend \<leftarrow> backs r ba;
        r1 \<leftarrow> startPart pk i r;
        (ret, r2) \<leftarrow> updatePlugins env backend pk i [1..<NR_OF_PLUGINS] r1;
        if ret = -1 then Some (-1, r2) else updateParts env pk is r2 })"

definition elektraGetDoUpdate :: "'w env \<Rightarrow> addr \<Rightarrow> 'w run \<Rightarrow> (int \<times> 'w run) option" where
  "elektraGetDoUpdate env pk r = (if parts (spl r) = [] then None else updateParts env pk [0..<length (parts (spl r)) - 1] r)"


text \<open>
  The keys below the parent, which the global hooks may not see: the loop takes the cascading keys out of the keys of the
  specification. Every round advances the cursor or removes a key.
\<close>

fun moveCascading :: "nat \<Rightarrow> 'w env \<Rightarrow> mem \<Rightarrow> KeySet \<Rightarrow> KeySet \<Rightarrow> (mem \<times> KeySet \<times> KeySet) option" where
  "moveCascading 0 env m specCut cutKS = None"
| "moveCascading (Suc n) env m specCut cutKS = do {
     (c, specCut1) \<leftarrow> ksNext specCut;
     case c of None \<Rightarrow> Some (m, specCut1, cutKS)
     | Some cur \<Rightarrow>
         if keyGetNamespace (keys m cur) = KEY_NS_CASCADING then do {
           (_, m1, cutKS1) \<leftarrow> ksAppendKey m cutKS (Some cur);
           (found, m2, s) \<leftarrow> ksLookup (callbacks env) (fuel env) m1 (Some specCut1) (Some cur) KDB_O_POP;
           specCut2 \<leftarrow> s;
           (_, m3) \<leftarrow> keyDel m2 found;
           moveCascading n env m3 specCut2 cutKS1 }
         else moveCascading n env m specCut1 cutKS }"

definition strchr :: "string \<Rightarrow> char \<Rightarrow> string option" where
  "strchr s c = (case dropWhile (\<lambda>d. d \<noteq> c) s of [] \<Rightarrow> None | t \<Rightarrow> Some t)"

definition prepareGlobalKS :: "'w env \<Rightarrow> mem \<Rightarrow> KeySet \<Rightarrow> addr \<Rightarrow> (mem \<times> KeySet \<times> KeySet) option" where
  "prepareGlobalKS env m ks pk = do {
     (cutKey, m1) \<leftarrow> keyNew m (Some ''/'') [VA_OPTION KEY_CASCADING_NAME];
     name \<leftarrow> keyName (keys m1 pk);
     k \<leftarrow> keys m1 cutKey;
     k1 \<leftarrow> snd (keyAddName (Some k) (strchr name SLASH));
     (c, m2, ks1) \<leftarrow> ksCut (storeKey m1 cutKey k1) (Some (ksRewind ks)) (Some cutKey);
     cutKS \<leftarrow> c; ks2 \<leftarrow> ks1;
     (specCutKey, m3) \<leftarrow> keyNew m2 (Some ''spec'') [];
     (sc, m4, c1) \<leftarrow> ksCut m3 (Some cutKS) (Some specCutKey);
     specCut \<leftarrow> sc; cutKS1 \<leftarrow> c1;
     (m5, specCut1, cutKS2) \<leftarrow> moveCascading (2 * ks_size specCut + 1) env m4 (ksRewind specCut) cutKS1;
     (_, m6, ks3) \<leftarrow> ksAppend m5 ks2 (Some specCut1);
     (_, m7) \<leftarrow> ksDel m6 (Some specCut1);
     (_, m8) \<leftarrow> keyDel m7 (Some specCutKey);
     (_, m9) \<leftarrow> keyDel m8 (Some cutKey);
     Some (m9, ksRewind cutKS2, ks3) }"

datatype UpdatePass = FIRST | LAST

text \<open>In the first pass there is neither a handle nor a keyset.\<close>

record 'w pass =
  pgs_done :: bool
  pgc_done :: bool
  pass_ks :: "KeySet option"
  pass_run :: "'w run"

definition passHook :: "'w env \<Rightarrow> KDB \<Rightarrow> GlobalpluginPositions \<Rightarrow> addr \<Rightarrow> addr option \<Rightarrow> nat \<Rightarrow> 'w pass \<Rightarrow> 'w pass option" where
  "passHook env handle g pk initialParent i s = do {
     r1 \<leftarrow> nameFrom (Some pk) initialParent (pass_run s);
     ks \<leftarrow> pass_ks s;
     (ks1, r2) \<leftarrow> globalGet env handle g pk (ksRewind ks) r1;
     r3 \<leftarrow> nameFrom (Some pk) (part_parent (partAt r2 i)) r2;
     Some (s\<lparr>pass_ks := Some ks1, pass_run := r3\<rparr>) }"

definition passHooks :: "'w env \<Rightarrow> KDB option \<Rightarrow> addr \<Rightarrow> addr option \<Rightarrow> nat \<Rightarrow> nat \<Rightarrow> 'w pass \<Rightarrow> 'w pass option" where
  "passHooks env handle pk initialParent i p s =
     (if p = STORAGE_PLUGIN + 1 \<and> \<not> pgs_done s then do {
        h \<leftarrow> handle;
        if globalPlugins h POSTGETSTORAGE \<noteq> None then passHook env h POSTGETSTORAGE pk initialParent i (s\<lparr>pgs_done := True\<rparr>) else Some s }
      else if p = NR_OF_PLUGINS - 1 \<and> \<not> pgc_done s then do {
        h \<leftarrow> handle;
        if globalPlugins h POSTGETCLEANUP \<noteq> None then passHook env h POSTGETCLEANUP pk initialParent i (s\<lparr>pgc_done := True\<rparr>) else Some s }
      else Some s)"

fun passPlugins :: "'w env \<Rightarrow> KDB option \<Rightarrow> Backend \<Rightarrow> addr \<Rightarrow> addr option \<Rightarrow> nat \<Rightarrow> nat list \<Rightarrow> 'w pass \<Rightarrow> (int \<times> 'w pass) option" where
  "passPlugins env handle backend pk initialParent i [] s = Some (0, s)"
| "passPlugins env handle backend pk initialParent i (p # ps) s = do {
     s1 \<leftarrow> passHooks env handle pk initialParent i p s;
     (ret, s2) \<leftarrow> (case getFn env backend p of None \<Rightarrow> Some (0, s1)
       | Some f \<Rightarrow>
           if p \<le> STORAGE_PLUGIN then do { (ret, r1) \<leftarrow> callPart f i (GetCall i p) pk (pass_run s1); Some (ret, s1\<lparr>pass_run := r1\<rparr>) }
           else do {
             ks \<leftarrow> pass_ks s1;
             (m1, cutKS, ks1) \<leftarrow> prepareGlobalKS env (memory (pass_run s1)) ks pk;
             (ret, cutKS1, r1) \<leftarrow> callWith f (GetCall i p) pk cutKS ((pass_run s1)\<lparr>memory := m1\<rparr>);
             (_, m2, ks2) \<leftarrow> ksAppend (memory r1) ks1 (Some cutKS1);
             (_, m3) \<leftarrow> ksDel m2 (Some cutKS1);
             Some (ret, s1\<lparr>pass_ks := Some ks2, pass_run := r1\<lparr>memory := m3\<rparr>\<rparr>) });
     if ret = -1 then Some (-1, s2) else passPlugins env handle backend pk initialParent i ps s2 }"

fun passParts :: "'w env \<Rightarrow> KDB option \<Rightarrow> addr \<Rightarrow> addr option \<Rightarrow> nat list \<Rightarrow> nat list \<Rightarrow> 'w pass \<Rightarrow> (int \<times> 'w pass) option" where
  "passParts env handle pk initialParent plist [] s = Some (0, s)"
| "passParts env handle pk initialParent plist (i # is) s =
     (if \<not> test_bit (part_sync (partAt (pass_run s) i)) SPLIT_FLAG_SYNC then passParts env handle pk initialParent plist is s
      else do {
        ba \<leftarrow> part_handle (partAt (pass_run s) i);
        backend \<leftarrow> backs (pass_run s) ba;
        r1 \<leftarrow> startPart pk i (pass_run s);
        (ret, s2) \<leftarrow> passPlugins env handle backend pk initialParent i plist (s\<lparr>pass_run := r1\<rparr>);
        if ret = -1 then Some (-1, s2) else passParts env handle pk initialParent plist is s2 })"

definition elektraGetDoUpdateWithGlobalHooks ::
    "'w env \<Rightarrow> KDB option \<Rightarrow> KeySet option \<Rightarrow> addr \<Rightarrow> addr option \<Rightarrow> UpdatePass \<Rightarrow> 'w run \<Rightarrow> (int \<times> KeySet option \<times> 'w run) option" where
  "elektraGetDoUpdateWithGlobalHooks env handle ks pk initialParent run r =
     (if parts (spl r) = [] then None
      else do {
        let plist = (case run of FIRST \<Rightarrow> [1..<STORAGE_PLUGIN + 1] | LAST \<Rightarrow> [STORAGE_PLUGIN + 1..<NR_OF_PLUGINS]);
        (ret, s) \<leftarrow> passParts env handle pk initialParent plist [0..<length (parts (spl r)) - 1]
          \<lparr>pgs_done = False, pgc_done = False, pass_ks = ks, pass_run = r\<rparr>;
        Some (ret, pass_ks s, pass_run s) })"

text \<open>\<open>splitGet\<close>, whose failure is a warning only, \<open>ksClear\<close> and \<open>splitMerge\<close>.\<close>

definition collect :: "'w env \<Rightarrow> KDB \<Rightarrow> KeySet \<Rightarrow> addr \<Rightarrow> 'w run \<Rightarrow> (KeySet \<times> 'w run) option" where
  "collect env handle ks pk r = do {
     (ret, m1, B1, s1) \<leftarrow> splitGet (warn env) handle (memory r) (backs r) (spl r) (Some pk);
     let r1 = r\<lparr>memory := m1, backs := B1, spl := s1\<rparr>;
     r2 \<leftarrow> (if ret = -1 then warning env 108 pk (keyName (keyAt m1 (ksCurrent (Some ks)))) r1 else Some r1);
     (_, m2, ks1) \<leftarrow> ksClear (memory r2) ks;
     (_, m3, ks2) \<leftarrow> splitMerge m2 (spl r2) ks1;
     Some (ks2, r2\<lparr>memory := m3\<rparr>) }"

text \<open>The ways out of \<open>kdbGet\<close>: the common end of those that succeed, and the code behind the label \<open>error\<close>.\<close>

definition updateName :: "KDB \<Rightarrow> addr \<Rightarrow> 'w run \<Rightarrow> 'w run option" where
  "updateName handle pk r = do { m \<leftarrow> splitUpdateFileName (memory r) (spl r) handle (Some pk); Some (r\<lparr>memory := m\<rparr>) }"

definition getFinish :: "addr option \<Rightarrow> addr \<Rightarrow> 'w run \<Rightarrow> 'w run option" where
  "getFinish initialParent oldError r = do {
     (_, m1) \<leftarrow> keyDel (memory r) initialParent;
     (_, m2) \<leftarrow> keyDel m1 (Some oldError);
     m3 \<leftarrow> splitDel m2 (spl r);
     Some (r\<lparr>memory := m3, spl := splitNew\<rparr>) }"

definition getErrorExit :: "'w env \<Rightarrow> KDB option \<Rightarrow> KeySet option \<Rightarrow> addr \<Rightarrow> addr option \<Rightarrow> addr \<Rightarrow> 'w run \<Rightarrow> (int \<times> KeySet option \<times> 'w run) option" where
  "getErrorExit env handle ks pk initialParent oldError r = do {
     r1 \<leftarrow> nameFrom (Some pk) initialParent r;
     (ks1, r2) \<leftarrow> (case handle of None \<Rightarrow> Some (ks, r1)
       | Some h \<Rightarrow> if globalPlugins h POSTGETSTORAGE = None then Some (ks, r1)
           else do { k \<leftarrow> ks; (k1, r2) \<leftarrow> globalGet env h POSTGETSTORAGE pk k r1; Some (Some k1, r2) });
     r3 \<leftarrow> nameFrom (Some pk) initialParent r2;
     r4 \<leftarrow> (case handle of None \<Rightarrow> Some r3 | Some h \<Rightarrow> updateName h pk r3);
     r5 \<leftarrow> getFinish initialParent oldError r4;
     Some (-1, ks1, r5) }"


text \<open>From the update of the parts on; the result says whether a plugin failed.\<close>

definition getWithHooks :: "'w env \<Rightarrow> KDB \<Rightarrow> KeySet \<Rightarrow> addr \<Rightarrow> addr option \<Rightarrow> addr \<Rightarrow> 'w run \<Rightarrow> (int \<times> KeySet option \<times> 'w run) option" where
  "getWithHooks env handle ks pk initialParent oldError r = do {
     r1 \<leftarrow> clearErr pk r;
     (e1, _, r2) \<leftarrow> elektraGetDoUpdateWithGlobalHooks env None None pk initialParent FIRST r1;
     if e1 = -1 then Some (-1, Some ks, r2)
     else do {
       r3 \<leftarrow> oldErr pk oldError r2;
       r4 \<leftarrow> nameFrom (Some pk) initialParent r3;
       (ks1, r5) \<leftarrow> collect env handle ks pk r4;
       r6 \<leftarrow> clearErr pk r5;
       (e2, ks2, r7) \<leftarrow> elektraGetDoUpdateWithGlobalHooks env (Some handle) (Some ks1) pk initialParent LAST r6;
       if e2 = -1 then Some (-1, ks2, r7)
       else do { r8 \<leftarrow> oldErr pk oldError r7; Some (0, ks2, r8) } } }"

definition getWithoutHooks :: "'w env \<Rightarrow> KDB \<Rightarrow> KeySet \<Rightarrow> addr \<Rightarrow> addr \<Rightarrow> 'w run \<Rightarrow> (int \<times> KeySet option \<times> 'w run) option" where
  "getWithoutHooks env handle ks pk oldError r = do {
     r1 \<leftarrow> clearErr pk r;
     (e, r2) \<leftarrow> elektraGetDoUpdate env pk r1;
     if e = -1 then Some (-1, Some ks, r2)
     else do {
       r3 \<leftarrow> oldErr pk oldError r2;
       (ks1, r4) \<leftarrow> collect env handle ks pk r3;
       Some (0, Some ks1, r4) } }"

text \<open>\<open>kdbGet\<close> behind its checks of the arguments. \<open>splitBuildup\<close> never returns \<open>-1\<close>.\<close>

definition kdbGetSplit :: "'w env \<Rightarrow> KDB \<Rightarrow> KeySet \<Rightarrow> addr \<Rightarrow> addr option \<Rightarrow> addr \<Rightarrow> 'w run \<Rightarrow> (int \<times> KeySet option \<times> 'w run) option" where
  "kdbGetSplit env handle ks0 pk initialParent oldError r = do {
     (ks, r1) \<leftarrow> globalGet env handle PREGETSTORAGE pk ks0 r;
     (_, m1, s1) \<leftarrow> splitBuildup (memory r1) (spl r1) handle (Some pk);
     (n, r2) \<leftarrow> elektraGetCheckUpdateNeeded env pk (r1\<lparr>memory := m1, spl := s1\<rparr>);
     if n = 0 then do {
       r3 \<leftarrow> nameFrom (Some pk) initialParent r2;
       r4 \<leftarrow> updateName handle pk r3;
       r5 \<leftarrow> finish initialParent oldError r4;
       Some (0, Some ks, r5) }
     else if n = -1 then getErrorExit env (Some handle) (Some ks) pk initialParent oldError r2
     else do {
       (a, m2, s2, ks1) \<leftarrow> splitAppoint handle (memory r2) (spl r2) ks;
       let r3 = r2\<lparr>memory := m2, spl := s2\<rparr>;
       if a = -1 then do {
         r4 \<leftarrow> clearErr pk r3;
         r5 \<leftarrow> reportError env 38 pk (Some ''error in splitAppoint'') r4;
         getErrorExit env (Some handle) (Some ks1) pk initialParent oldError r5 }
       else do {
         (e, ks2, r4) \<leftarrow> (if globalPlugins handle POSTGETSTORAGE \<noteq> None \<or> globalPlugins handle POSTGETCLEANUP \<noteq> None
           then getWithHooks env handle ks1 pk initialParent oldError r3
           else getWithoutHooks env handle ks1 pk oldError r3);
         if e = -1 then getErrorExit env (Some handle) ks2 pk initialParent oldError r4
         else do {
           ks3 \<leftarrow> ks2;
           r5 \<leftarrow> nameFrom (Some pk) initialParent r4;
           r6 \<leftarrow> updateName handle pk r5;
           r7 \<leftarrow> getFinish initialParent oldError r6;
           Some (1, Some (ksRewind ks3), r7) } } } }"

definition kdbGet :: "'w env \<Rightarrow> KDB option \<Rightarrow> KeySet option \<Rightarrow> addr option \<Rightarrow> 'w run \<Rightarrow> (int \<times> KeySet option \<times> 'w run) option" where
  "kdbGet env handle ks p r = (case p of None \<Rightarrow> Some (-1, ks, r)
   | Some pk \<Rightarrow> do {
       k \<leftarrow> keys (memory r) pk;
       let ns = keyGetNamespace (Some k);
       if ns = KEY_NS_NONE then Some (-1, ks, r)
       else do {
         name \<leftarrow> keyName (Some k);
         (oldError, m1) \<leftarrow> keyNew (memory r) (Some name) [];
         (_, m2) \<leftarrow> copyError m1 oldError pk;
         let r1 = r\<lparr>memory := m2, spl := splitNew\<rparr>;
         if ns = KEY_NS_META then do {
           r2 \<leftarrow> clearErr pk r1;
           (_, m3) \<leftarrow> keyDel (memory r2) (Some oldError);
           r3 \<leftarrow> reportError env 104 pk (Some (''metakey with name '' @ CHR 0x22 # name @ CHR 0x22 # '' passed to kdbGet'')) (r2\<lparr>memory := m3\<rparr>);
           Some (-1, ks, r3) }
         else do {
           r2 \<leftarrow> (if ns = KEY_NS_EMPTY then warning env 105 pk (Some ''invalid key name passed to kdbGet'') r1 else Some r1);
           (initialParent, m3) \<leftarrow> keyDup (memory r2) (Some pk);
           let r3 = r2\<lparr>memory := m3\<rparr>;
           case (handle, ks) of
             (Some h, Some ks1) \<Rightarrow> kdbGetSplit env h ks1 pk initialParent oldError r3
           | _ \<Rightarrow> do {
               r4 \<leftarrow> clearErr pk r3;
               r5 \<leftarrow> reportError env 37 pk (Some ''handle or ks null pointer'') r4;
               getErrorExit env handle ks pk initialParent oldError r5 } } } })"

end
