(* ===== verification/KdbFacts.thy ===== *)
theory KdbFacts
  imports Kdb
begin

text \<open>
  What \<open>kdbSet\<close> and \<open>kdbGet\<close> let the plugins do: the calls of a run, in their order, and the keyset of the user when
  nothing was read.
\<close>

section \<open>Calls\<close>

text \<open>A call that prepares the commit of a part, one of these that failed, and a call from the commit on.\<close>

fun prepares :: "call \<Rightarrow> bool" where
  "prepares (SetCall i p ret) = (p < COMMIT_PLUGIN)"
| "prepares _ = False"

fun failedPrepare :: "call \<Rightarrow> bool" where
  "failedPrepare (SetCall i p ret) = (p < COMMIT_PLUGIN \<and> ret = -1)"
| "failedPrepare _ = False"

fun commits :: "call \<Rightarrow> bool" where
  "commits (SetCall i p ret) = (COMMIT_PLUGIN \<le> p)"
| "commits _ = False"

definition traced :: "(call \<Rightarrow> bool) \<Rightarrow> 'w run \<Rightarrow> 'w run \<Rightarrow> bool" where
  "traced Q r r' \<longleftrightarrow> (\<exists>xs. calls r' = calls r @ xs \<and> (\<forall>c \<in> set xs. Q c))"

lemma traced_same [simp]: "calls r' = calls r \<Longrightarrow> traced Q r r'"
  by (simp add: traced_def)

lemma traced_trans: "traced Q r r1 \<Longrightarrow> traced Q r1 r2 \<Longrightarrow> traced Q r r2"
  by (fastforce simp: traced_def)

lemma traced_one: "calls r' = calls r @ [c] \<Longrightarrow> Q c \<Longrightarrow> traced Q r r'"
  by (simp add: traced_def)

lemma traced_mono: "traced Q r r' \<Longrightarrow> (\<And>c. Q c \<Longrightarrow> Q' c) \<Longrightarrow> traced Q' r r'"
  by (fastforce simp: traced_def)

lemma traced_cong: "traced Q r r' \<Longrightarrow> calls s = calls r \<Longrightarrow> calls s' = calls r' \<Longrightarrow> traced Q s s'"
  by (simp add: traced_def)

text \<open>What calls no plugin.\<close>

lemma silent [dest!]:
  "nameFrom p q r = Some r' \<Longrightarrow> calls r' = calls r \<and> backs r' = backs r" "valueFrom p q r = Some r' \<Longrightarrow> calls r' = calls r \<and> backs r' = backs r"
  "valueEmpty p r = Some r' \<Longrightarrow> calls r' = calls r \<and> backs r' = backs r" "warning env n pk text r = Some r' \<Longrightarrow> calls r' = calls r \<and> backs r' = backs r"
  "reportError env n pk text r = Some r' \<Longrightarrow> calls r' = calls r \<and> backs r' = backs r" "clearErr pk r = Some r' \<Longrightarrow> calls r' = calls r \<and> backs r' = backs r"
  "oldErr pk old r = Some r' \<Longrightarrow> calls r' = calls r \<and> backs r' = backs r" "finish ip old r = Some r' \<Longrightarrow> calls r' = calls r \<and> backs r' = backs r"
  "getFinish ip old r = Some r' \<Longrightarrow> calls r' = calls r \<and> backs r' = backs r" "updateName h pk r = Some r' \<Longrightarrow> calls r' = calls r \<and> backs r' = backs r"
  by (auto simp: nameFrom_def valueFrom_def valueEmpty_def warning_def reportError_def clearErr_def oldErr_def finish_def getFinish_def
      updateName_def)

lemma calls_memory: "calls (r\<lparr>memory := m\<rparr>) = calls r"
  by simp

lemma calls_rewindPart [simp]: "calls (rewindPart i r) = calls r"
  by (simp add: rewindPart_def)

lemma callPart_calls [dest!]: "callPart f i ev pk r = Some (ret, r') \<Longrightarrow> calls r' = calls r @ [ev ret]"
  by (auto simp: callPart_def)

lemma callWith_calls [dest!]: "callWith f ev pk ks r = Some (ret, ks', r') \<Longrightarrow> calls r' = calls r @ [ev ret]"
  by (auto simp: callWith_def)

lemma global_traced:
  "globalSet env h g pk ks r = Some (ks', r') \<Longrightarrow> traced (\<lambda>c. c = HookCall g) r r'"
  "globalGet env h g pk ks r = Some (ks', r') \<Longrightarrow> traced (\<lambda>c. c = HookCall g) r r'"
  "globalError env h g pk ks r = Some (ks', r') \<Longrightarrow> traced (\<lambda>c. c = HookCall g) r r'"
  by (auto simp: globalSet_def globalGet_def globalError_def traced_def split: option.splits)

section \<open>The parts of a run\<close>

text \<open>Calling plugins neither changes the backends nor which of them the parts belong to.\<close>

definition sameParts :: "'w run \<Rightarrow> 'w run \<Rightarrow> bool" where
  "sameParts r r' \<longleftrightarrow> backs r' = backs r \<and> map part_handle (parts (spl r')) = map part_handle (parts (spl r))"

lemma sameParts_refl [simp]: "sameParts r r"
  by (simp add: sameParts_def)

lemma sameParts_trans: "sameParts r r1 \<Longrightarrow> sameParts r1 r2 \<Longrightarrow> sameParts r r2"
  by (simp add: sameParts_def)

lemma handles_setPart: "(\<And>p. part_handle (f p) = part_handle p) \<Longrightarrow> map part_handle (parts (setPart i f s)) = map part_handle (parts s)"
  by (cases "i < length (parts s)") (simp_all add: setPart_def map_update list_update_same_conv list_update_beyond)

lemma same_steps:
  "nameFrom p q r = Some r' \<Longrightarrow> sameParts r r'" "valueFrom p q r = Some r' \<Longrightarrow> sameParts r r'"
  "valueEmpty p r = Some r' \<Longrightarrow> sameParts r r'" "warning env n pk text r = Some r' \<Longrightarrow> sameParts r r'"
  "oldErr pk old r = Some r' \<Longrightarrow> sameParts r r'" "callPart f i ev pk r = Some (ret, r') \<Longrightarrow> sameParts r r'" "sameParts r (rewindPart i r)"
  "globalSet env h g pk ks r = Some (ks', r') \<Longrightarrow> sameParts r r'"
  by (auto simp: nameFrom_def valueFrom_def valueEmpty_def warning_def oldErr_def callPart_def rewindPart_def globalSet_def callWith_def sameParts_def handles_setPart
      split: option.splits simp del: map_map)

lemma sameParts_rewind: "sameParts (rewindPart i r) r' \<longleftrightarrow> sameParts r r'"
  using same_steps(7) [of r i] by (simp add: sameParts_def)

text \<open>The slots the calls of \<open>kdbSet\<close> are made in, each with the number of the part.\<close>

fun slotOf :: "call \<Rightarrow> (nat \<times> nat) list" where
  "slotOf (SetCall i p ret) = [(p, i)]"
| "slotOf _ = []"

definition slots :: "call list \<Rightarrow> (nat \<times> nat) list" where
  "slots xs = concat (map slotOf xs)"

text \<open>The parts whose backend has a plugin with a function in a slot, by the backends of the parts; and the calls that are due
  when some slots of all parts are to be called.\<close>

definition hasSet :: "'w env \<Rightarrow> bmem \<Rightarrow> baddr option list \<Rightarrow> nat \<Rightarrow> nat \<Rightarrow> bool" where
  "hasSet env B hs p i = (case Option.bind (hs ! i) B of None \<Rightarrow> False | Some b \<Rightarrow> setFn env b p \<noteq> None)"

definition dueIn :: "'w env \<Rightarrow> bmem \<Rightarrow> baddr option list \<Rightarrow> nat \<Rightarrow> nat list \<Rightarrow> (nat \<times> nat) list" where
  "dueIn env B hs p is = map (Pair p) (filter (hasSet env B hs p) is)"

definition due :: "'w env \<Rightarrow> bmem \<Rightarrow> baddr option list \<Rightarrow> nat list \<Rightarrow> (nat \<times> nat) list" where
  "due env B hs ps = concat (map (\<lambda>p. dueIn env B hs p [0..<length hs]) ps)"

abbreviation handles :: "'w run \<Rightarrow> baddr option list" where
  "handles r \<equiv> map part_handle (parts (spl r))"

text \<open>A run of calls in given slots.\<close>

definition steps :: "(nat \<times> nat) list \<Rightarrow> 'w run \<Rightarrow> 'w run \<Rightarrow> bool" where
  "steps zs r r' \<longleftrightarrow> sameParts r r' \<and> (\<exists>xs. calls r' = calls r @ xs \<and> slots xs = zs)"

lemma slots_simps [simp]: "slots [] = []" "slots (c # xs) = slotOf c @ slots xs" "slots (xs @ ys) = slots xs @ slots ys"
  by (simp_all add: slots_def)

lemma steps_trans: "steps zs r r1 \<Longrightarrow> steps ys r1 r2 \<Longrightarrow> steps (zs @ ys) r r2"
  unfolding steps_def by (auto intro: sameParts_trans)

lemma steps_refl [simp]: "steps [] r r"
  by (simp add: steps_def)

lemma steps_call: "sameParts r r' \<Longrightarrow> calls r' = calls r @ [c] \<Longrightarrow> steps (slotOf c) r r'"
  by (simp add: steps_def)

lemma steps_none: "sameParts r r' \<Longrightarrow> calls r' = calls r \<Longrightarrow> steps [] r r'"
  by (simp add: steps_def)

lemma steps_parts: "steps zs r r' \<Longrightarrow> backs r' = backs r \<and> handles r' = handles r"
  by (simp add: steps_def sameParts_def)

lemma hasSet_part: "i < length (parts (spl r)) \<Longrightarrow> part_handle (partAt r i) = Some ba \<Longrightarrow> backs r ba = Some b \<Longrightarrow>
    hasSet env (backs r) (handles r) p i \<longleftrightarrow> setFn env b p \<noteq> None"
  by (simp add: hasSet_def)

lemma setPrepareStep_steps:
  assumes "setPrepareStep env pk i p r = Some (brk, ret, r')" "i < length (parts (spl r))"
  shows "steps (dueIn env (backs r) (handles r) p [i]) r r' \<and> (brk \<longrightarrow> p = 0)"
proof -
  obtain ba b where b: "part_handle (partAt r i) = Some ba" "backs r ba = Some b" using assms by (auto simp: setPrepareStep_def)
  note has = hasSet_part [OF assms(2) b, of env p]
  show ?thesis
  proof (cases "setFn env b p")
    case None
    then show ?thesis using assms b same_steps(7) [of r i] has by (auto simp: setPrepareStep_def dueIn_def steps_none)
  next
    case (Some f)
    let ?r1 = "rewindPart i r" and ?p = "part_parent (partAt (rewindPart i r) i)"
    obtain r2 where r2: "(if p \<noteq> 0 then valueFrom (Some pk) ?p ?r1 else valueEmpty (Some pk) ?r1) = Some r2"
      using assms b Some
      by (cases "if p \<noteq> 0 then valueFrom (Some pk) ?p ?r1 else valueEmpty (Some pk) ?r1") (auto simp: setPrepareStep_def Let_def)
    obtain r3 where r3: "nameFrom (Some pk) ?p r2 = Some r3" 
      using assms b Some r2 by (cases "nameFrom (Some pk) ?p r2") (auto simp: setPrepareStep_def Let_def)
    obtain re r4 where r4: "callPart f i (SetCall i p) pk r3 = Some (re, r4)"
      using assms b Some r2 r3 by (cases "callPart f i (SetCall i p) pk r3") (auto simp: setPrepareStep_def Let_def)
    have "sameParts ?r1 r2" using r2 same_steps(3) [of "Some pk" ?r1 r2] same_steps(2) [of "Some pk" ?p ?r1 r2] by (cases "p = 0") simp_all
    moreover have "calls r2 = calls r" using r2 by (cases "p = 0") auto
    ultimately have s: "sameParts r r4" "calls r4 = calls r @ [SetCall i p re]"
      using same_steps(1) [OF r3] same_steps(6) [OF r4] same_steps(7) [of r i] r3 r4 by (auto simp: sameParts_def)
    have e: "r' = r4 \<or> valueFrom (part_parent (partAt r4 i)) (Some pk) r4 = Some r'" and brk: "brk \<longrightarrow> p = 0"
      using assms b Some r2 r3 r4 by (simp_all add: setPrepareStep_def Let_def split: if_splits)
    have "sameParts r4 r'" using e same_steps(2) [of "part_parent (partAt r4 i)" "Some pk" r4 r'] by (elim disjE) simp_all
    then have "sameParts r r'" using s(1) sameParts_trans by blast
    moreover have "calls r' = calls r @ [SetCall i p re]" using e s(2) by auto
    ultimately have "steps (slotOf (SetCall i p re)) r r'" by (rule steps_call)
    then show ?thesis using has Some brk by (simp add: dueIn_def)
  qed
qed

lemma prepareHook_steps:
  assumes "prepareHook env h g pk i r = Some r'"
  shows "steps [] r r'"
proof (cases "globalPlugins h g")
  case None
  then show ?thesis using assms by (simp add: prepareHook_def)
next
  case (Some q)
  obtain f ret where c: "callPart f i (\<lambda>_. HookCall g) pk (rewindPart i r) = Some (ret, r')"
    using assms Some unfolding prepareHook_def by (auto split: bind_splits del: callPart_calls)
  then have "calls r' = calls r @ [HookCall g]" by auto
  moreover have "sameParts r r'" using same_steps(6) [OF c] by (simp add: sameParts_rewind)
  ultimately show ?thesis by (simp add: steps_def)
qed

lemma prepareHooks_steps: "prepareHooks env h pk i p r = Some r' \<Longrightarrow> steps [] r r'"
  by (auto simp: prepareHooks_def dest: prepareHook_steps split: if_splits)

abbreviation resolverSlots :: "(nat \<times> nat) list \<Rightarrow> (nat \<times> nat) list" where
  "resolverSlots \<equiv> filter (\<lambda>(p, i). p = 0)"

lemma resolverSlots_due [simp]: "resolverSlots (dueIn env B hs p is) = (if p = 0 then dueIn env B hs p is else [])"
  by (simp add: dueIn_def filter_map o_def)

lemma preparePlugins_steps:
  "preparePlugins env h pk i ps (a, e, r) = Some (a', e', r') \<Longrightarrow> i < length (parts (spl r)) \<Longrightarrow> distinct ps \<Longrightarrow> sorted ps \<Longrightarrow>
    \<exists>zs. steps zs r r' \<and> resolverSlots zs = (if 0 \<in> set ps then dueIn env (backs r) (handles r) 0 [i] else [])"
proof (induction ps arbitrary: a e r)
  case Nil
  then show ?case by (intro exI [of _ "[]"]) simp
next
  case (Cons p ps)
  then obtain brk ret r1 where s: "setPrepareStep env pk i p r = Some (brk, ret, r1)" by auto
  have s1: "steps (dueIn env (backs r) (handles r) p [i]) r r1" and brk: "brk \<longrightarrow> p = 0"
    using setPrepareStep_steps [OF s Cons.prems(2)] by simp_all
  have no: "p \<noteq> 0 \<Longrightarrow> 0 \<notin> set ps" "0 \<notin> set ps" using Cons.prems(3,4) by (cases "p = 0"; fastforce)+
  show ?case
  proof (cases brk)
    case True
    then have "r' = r1" using Cons.prems(1) s by auto
    then show ?thesis using s1 brk True by (intro exI [of _ "dueIn env (backs r) (handles r) p [i]"]) simp
  next
    case False
    obtain r2 where h1: "prepareHooks env h pk i p r1 = Some r2"
      "preparePlugins env h pk i ps (if ret = -1 then (-1, ksCurrent (Some (part_keys (partAt r2 i))), r2) else (a, e, r2)) = Some (a', e', r')"
      using Cons.prems(1) s False by auto
    then obtain a2 e2 where h: "preparePlugins env h pk i ps (a2, e2, r2) = Some (a', e', r')" by (cases "ret = -1") auto
    have s2: "steps (dueIn env (backs r) (handles r) p [i]) r r2" using steps_trans [OF s1 prepareHooks_steps [OF h1(1)]] by simp
    have "length (parts (spl r2)) = length (parts (spl r))" using steps_parts [OF s2] map_eq_imp_length_eq by blast
    then obtain zs where z: "steps zs r2 r'" "resolverSlots zs = []" using Cons.IH [OF h] Cons.prems no by auto
    show ?thesis using steps_trans [OF s2 z(1)] z(2) no by (intro exI [of _ "dueIn env (backs r) (handles r) p [i] @ zs"]) simp
  qed
qed

lemma prepareParts_steps:
  "prepareParts env h pk is (a, e, r) = Some (a', e', r') \<Longrightarrow> \<forall>i \<in> set is. i < length (parts (spl r)) \<Longrightarrow>
    \<exists>zs. steps zs r r' \<and> resolverSlots zs = dueIn env (backs r) (handles r) 0 is"
proof (induction "is" arbitrary: a e r)
  case Nil
  then show ?case by (intro exI [of _ "[]"]) (simp add: dueIn_def)
next
  case (Cons i "is")
  then obtain a1 e1 r1 where s: "preparePlugins env h pk i [0..<COMMIT_PLUGIN] (a, e, r) = Some (a1, e1, r1)"
    "prepareParts env h pk is (a1, e1, r1) = Some (a', e', r')" by auto
  obtain zs where z: "steps zs r r1" "resolverSlots zs = dueIn env (backs r) (handles r) 0 [i]"
    using preparePlugins_steps [OF s(1)] Cons.prems(2) by auto
  have eq: "backs r1 = backs r" "handles r1 = handles r" using steps_parts [OF z(1)] by simp_all
  then have "length (parts (spl r1)) = length (parts (spl r))" using map_eq_imp_length_eq by blast
  then obtain ys where y: "steps ys r1 r'" "resolverSlots ys = dueIn env (backs r) (handles r) 0 is"
    using Cons.IH [OF s(2)] Cons.prems(2) eq by auto
  show ?case using steps_trans [OF z(1) y(1)] z(2) y(2) by (intro exI [of _ "zs @ ys"]) (simp add: dueIn_def)
qed

lemma commitStep_steps:
  assumes "commitStep env pk p i r = Some r'" "i < length (parts (spl r))"
  shows "steps (dueIn env (backs r) (handles r) p [i]) r r'"
proof -
  obtain ba b where b: "part_handle (partAt r i) = Some ba" "backs r ba = Some b" using assms by (auto simp: commitStep_def)
  note has = hasSet_part [OF assms(2) b, of env p]
  note c = assms(1) [unfolded commitStep_def Let_def b Option.bind.bind_lunit]
  let ?p = "part_parent (partAt r i)"
  have warned: "steps [] r1 r2" if "(if ret = -1 then warning env 80 pk t r1 else Some r1) = Some r2" for ret :: int and t r1 r2
    using that same_steps(4) [of env 80 pk t r1 r2] by (cases "ret = -1") (auto simp: steps_def)
  show ?thesis
  proof (cases "setFn env b p")
    case None
    then show ?thesis using c has by (simp add: dueIn_def)
  next
    case (Some f)
    obtain r2 where r2: "(if p \<noteq> COMMIT_PLUGIN then valueFrom (Some pk) ?p r else Some r) = Some r2"
      using c Some by (cases "if p \<noteq> COMMIT_PLUGIN then valueFrom (Some pk) ?p r else Some r") auto
    obtain r3 where r3: "nameFrom (Some pk) ?p r2 = Some r3" using c Some r2 by (cases "nameFrom (Some pk) ?p r2") auto
    obtain ret r4 where r4: "callPart f i (SetCall i p) pk (rewindPart i r3) = Some (ret, r4)"
      using c Some r2 r3 by (cases "callPart f i (SetCall i p) pk (rewindPart i r3)") auto
    obtain r5 where r5: "(if p = COMMIT_PLUGIN then valueFrom ?p (Some pk) r4 else Some r4) = Some r5"
      using c Some r2 r3 r4 by (cases "if p = COMMIT_PLUGIN then valueFrom ?p (Some pk) r4 else Some r4") auto
    have "steps [] r5 r'" using c Some r2 r3 r4 r5 by (intro warned) simp
    moreover have "steps [] r r2" using r2 same_steps(2) [of "Some pk" ?p r r2] by (cases "p = COMMIT_PLUGIN") (auto simp: steps_def)
    moreover have "steps [] r2 r3" using r3 same_steps(1) [OF r3] by (auto simp: steps_def)
    moreover have "steps [(p, i)] r3 r4" using r4 same_steps(6) [OF r4] by (auto simp: steps_def sameParts_rewind)
    moreover have "steps [] r4 r5" using r5 same_steps(2) [of ?p "Some pk" r4 r5] by (cases "p = COMMIT_PLUGIN") (auto simp: steps_def)
    ultimately have "steps ([] @ [] @ [(p, i)] @ [] @ []) r r'" by (intro steps_trans)
    then show ?thesis using has Some by (simp add: dueIn_def)
  qed
qed

lemma commitParts_steps:
  "commitParts env pk p is r = Some r' \<Longrightarrow> \<forall>i \<in> set is. i < length (parts (spl r)) \<Longrightarrow> steps (dueIn env (backs r) (handles r) p is) r r'"
proof (induction "is" arbitrary: r)
  case (Cons i "is")
  then obtain r1 where s: "commitStep env pk p i r = Some r1" "commitParts env pk p is r1 = Some r'" by auto
  have s1: "steps (dueIn env (backs r) (handles r) p [i]) r r1" using commitStep_steps [OF s(1)] Cons.prems(2) by simp
  have eq: "backs r1 = backs r" "handles r1 = handles r" using steps_parts [OF s1] by simp_all
  then have "length (parts (spl r1)) = length (parts (spl r))" using map_eq_imp_length_eq by blast
  then have "steps (dueIn env (backs r) (handles r) p is) r1 r'" using Cons.IH [OF s(2)] Cons.prems(2) eq by simp
  from steps_trans [OF s1 this] show ?case by (auto simp: dueIn_def split: if_splits)
qed (simp add: dueIn_def)

lemma commitPlugins_steps:
  "commitPlugins env pk ps r = Some r' \<Longrightarrow> steps (due env (backs r) (handles r) ps) r r'"
proof (induction ps arbitrary: r)
  case (Cons p ps)
  then obtain r1 where s: "commitParts env pk p [0..<length (parts (spl r))] r = Some r1" "commitPlugins env pk ps r1 = Some r'" by auto
  have s1: "steps (dueIn env (backs r) (handles r) p [0..<length (handles r)]) r r1" using commitParts_steps [OF s(1)] by simp
  have "steps (due env (backs r) (handles r) ps) r1 r'" using Cons.IH [OF s(2)] steps_parts [OF s1] by simp
  from steps_trans [OF s1 this] show ?case by (simp add: due_def)
qed (simp add: due_def)

section \<open>Preparing\<close>

lemma setPrepareStep_calls:
  "setPrepareStep env pk i p r = Some (brk, ret, r') \<Longrightarrow> calls r' = calls r @ [SetCall i p ret] \<or> calls r' = calls r \<and> ret = 0"
  by (auto simp: setPrepareStep_def Let_def split: option.splits if_splits)

lemma prepareHooks_traced: "prepareHooks env h pk i p r = Some r' \<Longrightarrow> traced (\<lambda>c. \<exists>g. c = HookCall g) r r'"
  by (auto simp: prepareHooks_def prepareHook_def traced_def split: option.splits if_splits)

text \<open>The calls of a preparation, and what its result says of them.\<close>

definition prepared :: "int \<Rightarrow> int \<Rightarrow> 'w run \<Rightarrow> 'w run \<Rightarrow> bool" where
  "prepared a a' r r' \<longleftrightarrow> (a = -1 \<longrightarrow> a' = -1) \<and> traced (\<lambda>c. \<not> commits c \<and> (a' = -1 \<or> \<not> failedPrepare c)) r r'"

lemma prepared_trans: "prepared a a1 r r1 \<Longrightarrow> prepared a1 a2 r1 r2 \<Longrightarrow> prepared a a2 r r2"
  unfolding prepared_def by (auto intro!: traced_trans [of _ r r1 r2] elim!: traced_mono)

lemma prepareStep_prepared:
  assumes "setPrepareStep env pk i p r = Some (brk, ret, r1)" "p < COMMIT_PLUGIN"
  shows "prepared a (if ret = -1 then -1 else a) r r1"
  using setPrepareStep_calls [OF assms(1)] assms(2) by (auto simp: prepared_def traced_def)

lemma prepareHooks_prepared: "prepareHooks env h pk i p r = Some r' \<Longrightarrow> prepared a a r r'"
  unfolding prepared_def by (auto dest!: prepareHooks_traced elim!: traced_mono)

lemma brk_ret: "setPrepareStep env pk i p r = Some (True, ret, r') \<Longrightarrow> ret = 0"
  by (auto simp: setPrepareStep_def Let_def split: option.splits if_splits)

lemma preparePlugins_prepared:
  "preparePlugins env h pk i ps (a, e, r) = Some (a', e', r') \<Longrightarrow> \<forall>p \<in> set ps. p < COMMIT_PLUGIN \<Longrightarrow> prepared a a' r r'"
proof (induction ps arbitrary: a e r)
  case Nil
  then show ?case by (simp add: prepared_def)
next
  case (Cons p ps)
  then obtain brk ret r1 where s: "setPrepareStep env pk i p r = Some (brk, ret, r1)" by auto
  let ?a = "if ret = -1 then -1 else a"
  have p1: "prepared a ?a r r1" using prepareStep_prepared [OF s] Cons.prems(2) by simp
  show ?case
  proof (cases brk)
    case True
    then have "a' = a" "r' = r1" "ret = 0" using Cons.prems(1) s brk_ret by auto
    then show ?thesis using p1 by simp
  next
    case False
    let ?st = "\<lambda>r2. if ret = -1 then (-1, ksCurrent (Some (part_keys (partAt r2 i))), r2) else (a, e, r2)"
    obtain r2 where h1: "prepareHooks env h pk i p r1 = Some r2" "preparePlugins env h pk i ps (?st r2) = Some (a', e', r')"
      using Cons.prems(1) s False by auto
    then obtain e2 where h: "prepareHooks env h pk i p r1 = Some r2" "preparePlugins env h pk i ps (?a, e2, r2) = Some (a', e', r')"
      by (cases "ret = -1") auto
    have "prepared ?a a' r2 r'" using Cons.IH [OF h(2)] Cons.prems(2) by simp
    then show ?thesis using prepared_trans [OF p1 prepared_trans [OF prepareHooks_prepared [OF h(1)]]] by blast
  qed
qed

lemma prepareParts_prepared:
  "prepareParts env h pk is (a, e, r) = Some (a', e', r') \<Longrightarrow> prepared a a' r r'"
proof (induction "is" arbitrary: a e r)
  case Nil
  then show ?case by (simp add: prepared_def)
next
  case (Cons i "is")
  then obtain a1 e1 r1 where s: "preparePlugins env h pk i [0..<COMMIT_PLUGIN] (a, e, r) = Some (a1, e1, r1)"
    "prepareParts env h pk is (a1, e1, r1) = Some (a', e', r')" by auto
  have "prepared a a1 r r1" by (rule preparePlugins_prepared [OF s(1)]) simp
  then show ?case using prepared_trans Cons.IH [OF s(2)] by blast
qed

section \<open>Committing and rolling back\<close>

lemma commitStep_traced: "commitStep env pk p i r = Some r' \<Longrightarrow> COMMIT_PLUGIN \<le> p \<Longrightarrow> traced commits r r'"
  by (auto simp: commitStep_def Let_def traced_def split: option.splits if_splits)

lemma commitParts_traced: "commitParts env pk p is r = Some r' \<Longrightarrow> COMMIT_PLUGIN \<le> p \<Longrightarrow> traced commits r r'"
  by (induction "is" arbitrary: r) (auto intro: traced_trans dest!: commitStep_traced)

lemma commitPlugins_traced: "commitPlugins env pk ps r = Some r' \<Longrightarrow> \<forall>p \<in> set ps. COMMIT_PLUGIN \<le> p \<Longrightarrow> traced commits r r'"
  by (induction ps arbitrary: r) (auto intro: traced_trans dest!: commitParts_traced)

lemma rollbackStep_traced: "rollbackStep env pk p i r = Some r' \<Longrightarrow> traced (\<lambda>c. \<exists>i p n. c = ErrorCall i p n) r r'"
  by (auto simp: rollbackStep_def Let_def traced_def split: option.splits if_splits)

lemma rollbackParts_traced: "rollbackParts env pk p is r = Some r' \<Longrightarrow> traced (\<lambda>c. \<exists>i p n. c = ErrorCall i p n) r r'"
  by (induction "is" arbitrary: r) (auto intro: traced_trans dest!: rollbackStep_traced)

lemma rollbackPlugins_traced: "rollbackPlugins env pk ps r = Some r' \<Longrightarrow> traced (\<lambda>c. \<exists>i p n. c = ErrorCall i p n) r r'"
  by (induction ps arbitrary: r) (auto intro: traced_trans dest!: rollbackParts_traced)

abbreviation noSet :: "call \<Rightarrow> bool" where
  "noSet c \<equiv> \<not> prepares c \<and> \<not> commits c"

lemma noSet_mono:
  "traced (\<lambda>c. c = HookCall g) r r' \<Longrightarrow> traced noSet r r'"
  "traced (\<lambda>c. \<exists>i p n. c = ErrorCall i p n) r r' \<Longrightarrow> traced noSet r r'"
  by (auto elim!: traced_mono)

section \<open>kdbSet\<close>

lemma hooks_slots: "traced (\<lambda>c. c = HookCall g) r r' \<Longrightarrow> \<exists>xs. calls r' = calls r @ xs \<and> slots xs = []"
  unfolding traced_def slots_def by auto (metis slotOf.simps)


lemma traced_chain:
  assumes "traced Q r1 r2" "traced Q r2 r3" "traced Q r5 r6" "calls r1 = calls r" "calls r5 = calls r3" "calls r' = calls r6"
  shows "traced Q r r'"
proof -
  obtain xs ys zs where "calls r2 = calls r1 @ xs" "calls r3 = calls r2 @ ys" "calls r6 = calls r5 @ zs"
    and q: "\<forall>c \<in> set xs. Q c" "\<forall>c \<in> set ys. Q c" "\<forall>c \<in> set zs. Q c"
    using assms(1-3) unfolding traced_def by blast
  then show ?thesis unfolding traced_def using assms(4-6) q by (intro exI [of _ "xs @ ys @ zs"]) auto
qed

lemma error_trace:
  assumes "globalError env h g pk ks r1 = Some (ks1, r2)" "elektraSetRollback env pk r2 = Some r3" "globalError env h g' pk ks2 r5 = Some (ks3, r6)"
    "calls r1 = calls r" "calls r5 = calls r3" "calls r' = calls r6"
  shows "traced noSet r r'"
proof -
  have "traced noSet r1 r2" "traced noSet r5 r6" by (rule noSet_mono(1) [OF global_traced(3) [OF assms(1)]], rule noSet_mono(1) [OF global_traced(3) [OF assms(3)]])
  moreover have "traced noSet r2 r3" using assms(2) unfolding elektraSetRollback_def by (rule noSet_mono(2) [OF rollbackPlugins_traced])
  ultimately show ?thesis using traced_chain [OF _ _ _ assms(4-6)] by blast
qed

lemma setErrorExit_traced:
  assumes "setErrorExit env h ks pk ip old e r = Some (ret, ks', r')"
  shows "ret = -1 \<and> traced noSet r r'"
proof (cases e)
  case None
  show ?thesis using assms unfolding setErrorExit_def None by (auto elim!: error_trace)
next
  case (Some a)
  show ?thesis using assms unfolding setErrorExit_def Some by (auto simp: Let_def split: if_splits elim!: error_trace)
qed

lemma noSync_calls:
  "noSync env ks pk ip old st r = Some (ret, ks', r') \<Longrightarrow> calls r' = calls r \<and> (ret = 0 \<or> ret = -1)"
  unfolding noSync_def by (auto simp: Let_def split: if_splits)

text \<open>What a run of \<open>kdbSet\<close> may have done, by its result.\<close>

definition setRun :: "'w env \<Rightarrow> int \<Rightarrow> 'w run \<Rightarrow> 'w run \<Rightarrow> bool" where
  "setRun env ret r r' \<longleftrightarrow> (\<exists>xs. calls r' = calls r @ xs \<and>
     (ret = 0 \<and> xs = [] \<or> ret = -1 \<and> (\<forall>c \<in> set xs. \<not> commits c)
      \<or> ret = 1 \<and> (\<exists>prep com hs. xs = prep @ com \<and> (\<forall>c \<in> set prep. \<not> commits c \<and> \<not> failedPrepare c) \<and> (\<forall>c \<in> set com. \<not> prepares c)
          \<and> resolverSlots (slots prep) = dueIn env (backs r) hs 0 [0..<length hs]
          \<and> slots com = due env (backs r) hs [COMMIT_PLUGIN..<NR_OF_PLUGINS])))"

lemma setRun_cong: "setRun env ret r r' \<Longrightarrow> calls s = calls r \<and> backs s = backs r \<Longrightarrow> setRun env ret s r'"
  by (simp add: setRun_def)

lemma setRun_failed: "traced (\<lambda>c. \<not> commits c) r r' \<Longrightarrow> setRun env (-1) r r'"
  by (simp add: setRun_def traced_def)

lemma setRun_done:
  assumes "traced (\<lambda>c. \<not> commits c \<and> \<not> failedPrepare c) r r1" "traced (\<lambda>c. \<not> prepares c) r1 r'"
    and prep: "steps zs r r1" "resolverSlots zs = dueIn env (backs r) (handles r) 0 [0..<length (handles r)]"
    and com: "calls r' = calls r1 @ ys" "slots ys = due env (backs r) (handles r) [COMMIT_PLUGIN..<NR_OF_PLUGINS]"
  shows "setRun env 1 r r'"
proof -
  obtain xs where x: "calls r1 = calls r @ xs" "slots xs = zs" using prep(1) unfolding steps_def by blast
  then have "\<forall>c \<in> set xs. \<not> commits c \<and> \<not> failedPrepare c" "\<forall>c \<in> set ys. \<not> prepares c"
    using assms(1,2) com(1) unfolding traced_def by fastforce+
  then show ?thesis unfolding setRun_def using x com prep(2)
    by (intro exI [of _ "xs @ ys"] conjI disjI2 exI [of _ xs] exI [of _ ys] exI [of _ "handles r"]) simp_all
qed

text \<open>The commit: no call prepares anything any more, and the slots from the commit slot on are called for all parts that have them.\<close>

lemma kdbSetCommit_traced:
  assumes "kdbSetCommit env h ks pk ip old r = Some (ret, ks', r')"
  shows "ret = 1 \<and> traced (\<lambda>c. \<not> prepares c) r r'
    \<and> (\<exists>ys. calls r' = calls r @ ys \<and> slots ys = due env (backs r) (handles r) [COMMIT_PLUGIN..<NR_OF_PLUGINS])"
proof -
  obtain r1 r2 ks1 r3 r4 B r5 ks2 r6 m r7 where o: "oldErr pk old r = Some r1" "nameFrom (Some pk) ip r1 = Some r2"
    and g: "globalSet env h PRECOMMIT pk ks r2 = Some (ks1, r3)" "elektraSetCommit env pk r3 = Some r4"
    and n: "nameFrom (Some pk) ip (r4\<lparr>backs := B\<rparr>) = Some r5"
    and g': "globalSet env h POSTCOMMIT pk ks1 r5 = Some (ks2, r6)"
    and f: "nameFrom (Some pk) ip (r6\<lparr>memory := m\<rparr>) = Some r7" "finish ip old r7 = Some r'" "ret = 1"
    using assms unfolding kdbSetCommit_def by (auto del: silent)
  have "calls r5 = calls r4" "calls r' = calls r6" using n f(1,2) by auto
  note s = g this(1) g' this(2) f(3)
  have c2: "calls r2 = calls r" using o by auto
  have same: "sameParts r r3" using same_steps(5) [OF o(1)] same_steps(1) [OF o(2)] same_steps(8) [OF s(1)] sameParts_trans by blast
  have hooks: "traced (\<lambda>c. c = HookCall PRECOMMIT) r2 r3" "traced (\<lambda>c. c = HookCall POSTCOMMIT) r5 r6"
    using global_traced(1) [OF s(1)] global_traced(1) [OF s(4)] by simp_all
  have "traced (\<lambda>c. \<not> prepares c) r2 r3" "traced (\<lambda>c. \<not> prepares c) r5 r6" using hooks by (auto elim!: traced_mono)
  moreover have "traced commits r3 r4"
    using s(2) unfolding elektraSetCommit_def by (rule commitPlugins_traced) simp
  then have "traced (\<lambda>c. \<not> prepares c) r3 r4" by (rule traced_mono) (auto elim: commits.elims)
  ultimately have t: "traced (\<lambda>c. \<not> prepares c) r r'" using traced_chain [OF _ _ _ c2 s(3,5)] by blast
  obtain xs zs where xz: "calls r3 = calls r @ xs" "slots xs = []" "calls r6 = calls r4 @ zs" "slots zs = []"
    using hooks_slots [OF hooks(1)] hooks_slots [OF hooks(2)] c2 s(3) by auto
  have "steps (due env (backs r) (handles r) [COMMIT_PLUGIN..<NR_OF_PLUGINS]) r3 r4"
    using commitPlugins_steps [of env pk _ r3 r4] s(2) same unfolding elektraSetCommit_def sameParts_def by metis
  then obtain ys where "calls r4 = calls r3 @ ys" "slots ys = due env (backs r) (handles r) [COMMIT_PLUGIN..<NR_OF_PLUGINS]"
    unfolding steps_def by blast
  then have "calls r' = calls r @ (xs @ ys @ zs)" "slots (xs @ ys @ zs) = due env (backs r) (handles r) [COMMIT_PLUGIN..<NR_OF_PLUGINS]"
    using xz s(5) by simp_all
  then show ?thesis using t s(6) by blast
qed

lemma kdbSetSync_run:
  assumes "kdbSetSync env h ks pk ip old r = Some (ret, ks', r')"
  shows "setRun env ret r r'"
proof -
  obtain r0 e ek r1 where c0: "calls r0 = calls r \<and> backs r0 = backs r" and p: "elektraSetPrepare env h pk None r0 = Some (e, ek, r1)"
    and k: "(if e = -1 then setErrorExit env h ks pk ip old ek r1 else kdbSetCommit env h ks pk ip old r1) = Some (ret, ks', r')"
    using assms unfolding kdbSetSync_def by auto
  have pr: "prepared 0 e r0 r1" using p unfolding elektraSetPrepare_def by (rule prepareParts_prepared)
  have "setRun env ret r0 r'"
  proof (cases "e = -1")
    case True
    then have "ret = -1" "traced noSet r1 r'" using k setErrorExit_traced [of env h ks pk ip old ek r1 ret ks' r'] by simp_all
    moreover have "traced (\<lambda>c. \<not> commits c) r0 r1" using pr by (auto simp: prepared_def elim!: traced_mono)
    moreover have "traced (\<lambda>c. \<not> commits c) r1 r'" using calculation(2) by (rule traced_mono) simp
    ultimately show ?thesis using setRun_failed [OF traced_trans] by metis
  next
    case False
    then obtain ys where c: "ret = 1" "traced (\<lambda>c. \<not> prepares c) r1 r'" "calls r' = calls r1 @ ys"
      "slots ys = due env (backs r1) (handles r1) [COMMIT_PLUGIN..<NR_OF_PLUGINS]"
      using k kdbSetCommit_traced [of env h ks pk ip old r1 ret ks' r'] by auto
    have "traced (\<lambda>c. \<not> commits c \<and> \<not> failedPrepare c) r0 r1" using pr False by (simp add: prepared_def)
    moreover obtain zs where z: "steps zs r0 r1" "resolverSlots zs = dueIn env (backs r0) (handles r0) 0 [0..<length (handles r0)]"
      using prepareParts_steps p unfolding elektraSetPrepare_def by fastforce
    ultimately show ?thesis using setRun_done [OF _ c(2) z c(3)] c(1,4) steps_parts [OF z(1)] by simp
  qed
  then show ?thesis using setRun_cong c0 by metis
qed

lemma runs:
  "setErrorExit env h ks pk ip old e r1 = Some (ret, ks', r') \<Longrightarrow> calls r1 = calls r \<and> backs r1 = backs r \<Longrightarrow> setRun env ret r r'"
  "noSync env ks pk ip old st r1 = Some (ret, ks', r') \<Longrightarrow> calls r1 = calls r \<Longrightarrow> setRun env ret r r'"
  "kdbSetSync env h ks pk ip old r1 = Some (ret, ks', r') \<Longrightarrow> calls r1 = calls r \<and> backs r1 = backs r \<Longrightarrow> setRun env ret r r'"
proof -
  assume a: "setErrorExit env h ks pk ip old e r1 = Some (ret, ks', r')" "calls r1 = calls r \<and> backs r1 = backs r"
  have "ret = -1" "traced noSet r1 r'" using setErrorExit_traced [OF a(1)] by simp_all
  then have "setRun env ret r1 r'" using setRun_failed [OF traced_mono] by blast
  then show "setRun env ret r r'" using a(2) by (simp add: setRun_def)
next
  assume "noSync env ks pk ip old st r1 = Some (ret, ks', r')" "calls r1 = calls r"
  then show "setRun env ret r r'" using noSync_calls by (fastforce simp: setRun_def)
next
  assume a: "kdbSetSync env h ks pk ip old r1 = Some (ret, ks', r')" "calls r1 = calls r \<and> backs r1 = backs r"
  show "setRun env ret r r'" using kdbSetSync_run [OF a(1)] a(2) by (simp add: setRun_def)
qed

lemma kdbSetSplit_run: "kdbSetSplit env h ks pk old r = Some (ret, ks', r') \<Longrightarrow> setRun env ret r r'"
  unfolding kdbSetSplit_def Let_def by (auto split: if_splits elim!: runs)

lemma split_run: "kdbSetSplit env h ks pk old r1 = Some (ret, ks', r') \<Longrightarrow> calls r1 = calls r \<and> backs r1 = backs r \<Longrightarrow> setRun env ret r r'"
  using kdbSetSplit_run by (fastforce simp: setRun_def)

lemma setRun_none: "calls r' = calls r \<Longrightarrow> setRun env (-1) r r'"
  by (simp add: setRun_def)

lemma args_run: "kdbSetArgs env h ks pk old r1 = Some (ret, ks', r') \<Longrightarrow> calls r1 = calls r \<and> backs r1 = backs r \<Longrightarrow> setRun env ret r r'"
  unfolding kdbSetArgs_def kdbSetNull_def by (cases h; cases ks) (auto simp: setRun_none elim!: split_run)

lemma kdbSet_run:
  assumes "kdbSet env h ks p r = Some (ret, ks', r')"
  shows "setRun env ret r r'"
proof (cases p)
  case None
  then show ?thesis using assms by (auto simp: kdbSet_def setRun_none)
next
  case (Some pk)
  obtain k where k: "keys (memory r) pk = Some k" using assms Some by (auto simp: kdbSet_def)
  let ?ns = "keyGetNamespace (Some k)"
  show ?thesis
  proof (cases "?ns = KEY_NS_NONE")
    case True
    then show ?thesis using assms k by (auto simp: kdbSet_def Some Let_def setRun_none)
  next
    case False
    note e = assms [unfolded kdbSet_def Some option.case k Option.bind.bind_lunit Let_def if_not_P [OF False]]
    obtain name where n: "keyName (Some k) = Some name" using e by (cases "keyName (Some k)") simp_all
    obtain old m1 where m1: "keyNew (memory r) (Some name) [] = Some (old, m1)" using e n by (cases "keyNew (memory r) (Some name) []") auto
    obtain x m2 where m2: "copyError m1 old pk = Some (x, m2)" using e n m1 by (cases "copyError m1 old pk") auto
    let ?r = "r\<lparr>memory := m2, spl := splitNew\<rparr>"
    note f = e [unfolded n m1 m2 Option.bind.bind_lunit prod.case]
    show ?thesis
    proof (cases "?ns = KEY_NS_META")
      case True
      then show ?thesis using f by (auto simp: setRun_none)
    next
      case False
      show ?thesis using f False by (cases "?ns = KEY_NS_EMPTY") (auto elim!: args_run)
    qed
  qed
qed


section \<open>kdbGet\<close>

lemma ksNext_rewind: "ksNext ks = Some (c, ks') \<Longrightarrow> ksRewind ks' = ksRewind ks"
  by (auto simp: ksNext_def ksRewind_def Let_def split: if_splits)

lemma appointLoop_rewind: "appointLoop n h d m s ks = Some (a, m', s', ks') \<Longrightarrow> ksRewind ks' = ksRewind ks"
proof (induction n arbitrary: m s ks)
  case (Suc n)
  from Suc.prems obtain c ks1 where n: "ksNext ks = Some (c, ks1)" by auto
  have "ksRewind ks' = ksRewind ks1"
  proof (cases c)
    case None
    then show ?thesis using Suc.prems n by simp
  next
    case (Some p)
    obtain k where k: "keys m p = Some k" using Suc.prems n Some by (cases "keys m p") simp_all
    show ?thesis
    proof (cases "mountGetBackend h (Some k)")
      case None
      then show ?thesis using Suc.prems n Some k by simp
    next
      case b: (Some b)
      define f where "f = (case splitSearchBackend m s (Some b) (Some k) of None \<Rightarrow> d | Some i \<Rightarrow> i)"
      have "(if part_sync (parts s ! f) AND SPLIT_FLAG_SYNC \<noteq> 0 then appointLoop n h d m s ks1
          else do { (_, m1, ks2) \<leftarrow> ksAppendKey m (part_keys (parts s ! f)) (Some p);
            appointLoop n h d m1 (setPart f (\<lambda>p. p\<lparr>part_keys := ks2\<rparr>) s) ks1 }) = Some (a, m', s', ks')"
        using Suc.prems n Some k b unfolding f_def by (simp add: Let_def split del: if_split)
      then show ?thesis using Suc.IH by (auto split: if_splits)
    qed
  qed
  then show ?case using ksNext_rewind [OF n] by simp
qed simp

lemma splitAppoint_rewind: "splitAppoint h m s ks = Some (a, m', s', ks') \<Longrightarrow> ksRewind ks' = ksRewind ks"
  by (auto simp: splitAppoint_def simp del: appointLoop.simps dest!: appointLoop_rewind) (simp add: ksRewind_def)

text \<open>The resolvers: the parts that need no update, and what the result says.\<close>

abbreviation resolved :: "call \<Rightarrow> bool" where
  "resolved c \<equiv> \<exists>i. c = GetCall i RESOLVER_PLUGIN 0"

lemma checkStep_calls: "checkStep env pk i r = Some (ret, r') \<Longrightarrow>
    calls r' = calls r @ [GetCall i RESOLVER_PLUGIN ret] \<or> calls r' = calls r \<and> ret = -1"
  by (auto simp: checkStep_def Let_def split: option.splits)

lemma checkLoop_calls:
  "checkLoop env pk is n r = Some (ret, r') \<Longrightarrow> 0 \<le> n \<Longrightarrow>
    ret = -1 \<or> n \<le> ret \<and> (ret = n \<longrightarrow> traced resolved r r')"
proof (induction "is" arbitrary: n r)
  case (Cons i "is")
  then obtain re r1 where c: "checkStep env pk i r = Some (re, r1)" by auto
  consider "re = 1" | "re = 0" | "re \<noteq> 1" "re \<noteq> 0" by blast
  then show ?case
  proof cases
    case 1
    then have "checkLoop env pk is (n + 1) (r1\<lparr>spl := setPart i syncMark (spl r1)\<rparr>) = Some (ret, r')" using Cons.prems(1) c by simp
    from Cons.IH [OF this] show ?thesis using Cons.prems(2) by auto
  next
    case 2
    then have l: "checkLoop env pk is n r1 = Some (ret, r')" and t: "traced resolved r r1"
      using Cons.prems(1) c checkStep_calls [OF c] by (auto simp: traced_def)
    show ?thesis using Cons.IH [OF l Cons.prems(2)] traced_trans [OF t] by blast
  next
    case 3
    then show ?thesis using Cons.prems(1) c by simp
  qed
qed auto

lemma getErrorExit_same:
  assumes "globalPlugins h POSTGETSTORAGE = None" "getErrorExit env (Some h) ks pk ip old r = Some (ret, ks', r')"
  shows "ret = -1 \<and> ks' = ks"
  using assms unfolding getErrorExit_def by auto

text \<open>What a run of \<open>kdbGet\<close> did when it read nothing.\<close>

definition getRun :: "int \<Rightarrow> KeySet \<Rightarrow> KeySet option \<Rightarrow> 'w run \<Rightarrow> 'w run \<Rightarrow> bool" where
  "getRun ret ks ks' r r' \<longleftrightarrow> ret = 1 \<or> (ret = -1 \<or> ret = 0 \<and> traced resolved r r') \<and> (\<exists>k'. ks' = Some k' \<and> ksRewind k' = ksRewind ks)"

lemma getRun_calls: "getRun ret ks ks' r1 r' \<Longrightarrow> calls r1 = calls r \<Longrightarrow> getRun ret ks ks' r r'"
  by (auto simp: getRun_def traced_def)

lemma getRun_failed: "ks' = Some k' \<Longrightarrow> ksRewind k' = ksRewind ks \<Longrightarrow> getRun (-1) ks ks' r r'"
  by (simp add: getRun_def)

lemma kdbGetSplit_run:
  assumes h: "globalPlugins h = (\<lambda>_. None)" and run: "kdbGetSplit env h ks pk ip old r = Some (ret, ks', r')"
  shows "getRun ret ks ks' r r'"
proof -
  have g: "globalGet env h g pk k s = Some (k, s)" for g k s by (simp add: globalGet_def h)
  note e = run [unfolded kdbGetSplit_def g Option.bind.bind_lunit prod.case]
  obtain x m1 s1 where b: "splitBuildup (memory r) (spl r) h (Some pk) = Some (x, m1, s1)" using e by (cases "splitBuildup (memory r) (spl r) h (Some pk)") auto
  let ?r = "r\<lparr>memory := m1, spl := s1\<rparr>"
  note e1 = e [unfolded b Option.bind.bind_lunit prod.case]
  obtain n r2 where n: "elektraGetCheckUpdateNeeded env pk ?r = Some (n, r2)" using e1 by (cases "elektraGetCheckUpdateNeeded env pk ?r") auto
  have c: "n = -1 \<or> 0 \<le> n \<and> (n = 0 \<longrightarrow> traced resolved ?r r2)"
    using n unfolding elektraGetCheckUpdateNeeded_def by (rule checkLoop_calls) simp
  note e2 = e1 [unfolded n Option.bind.bind_lunit prod.case]
  have ex: "ret = -1 \<and> ks' = k" if "getErrorExit env (Some h) k pk ip old s = Some (ret, ks', r')" for k s
    using getErrorExit_same [OF _ that] h by simp
  show ?thesis
  proof (cases "n = 0 \<or> n = -1")
    case True
    then show ?thesis
    proof
      assume "n = 0"
      then have "calls r' = calls r2" "ret = 0" "ks' = Some ks" using e2 by auto
      moreover have "traced resolved r r2" using c \<open>n = 0\<close> by (auto simp: traced_def)
      ultimately show ?thesis by (simp add: getRun_def traced_def)
    next
      assume "n = -1"
      then have "getErrorExit env (Some h) (Some ks) pk ip old r2 = Some (ret, ks', r')" using e2 by simp
      then have "ret = -1 \<and> ks' = Some ks" by (rule ex)
      then show ?thesis using getRun_failed by blast
    qed
  next
    case False
    obtain a m2 s2 ks1 where a: "splitAppoint h (memory r2) (spl r2) ks = Some (a, m2, s2, ks1)"
      using e2 False by (cases "splitAppoint h (memory r2) (spl r2) ks") auto
    have k1: "ksRewind ks1 = ksRewind ks" by (rule splitAppoint_rewind [OF a])
    let ?r3 = "r2\<lparr>memory := m2, spl := s2\<rparr>"
    show ?thesis
    proof (cases "a = -1")
      case True
      then have "ret = -1 \<and> ks' = Some ks1" using e2 False a ex by (auto simp: Let_def)
      then show ?thesis using k1 getRun_failed by blast
    next
      case a': False
      obtain e' ks2 r4 where w: "getWithoutHooks env h ks1 pk old ?r3 = Some (e', ks2, r4)"
        using e2 False a a' h by (cases "getWithoutHooks env h ks1 pk old ?r3") (auto simp: Let_def)
      show ?thesis
      proof (cases "e' = -1")
        case True
        then have "ks2 = Some ks1" using w unfolding getWithoutHooks_def by (auto split: if_splits)
        moreover have "ret = -1 \<and> ks' = ks2" using e2 False a a' w True h ex by (auto simp: Let_def)
        ultimately show ?thesis using k1 getRun_failed by blast
      next
        case False
        then have "ret = 1" using e2 \<open>\<not> (n = 0 \<or> n = -1)\<close> a a' w h by (auto simp: Let_def)
        then show ?thesis by (simp add: getRun_def)
      qed
    qed
  qed
qed

lemma kdbGet_run:
  assumes h: "globalPlugins h = (\<lambda>_. None)" and run: "kdbGet env (Some h) (Some ks) p r = Some (ret, ks', r')"
  shows "getRun ret ks ks' r r'"
proof (cases p)
  case None
  then show ?thesis using run by (auto simp: kdbGet_def getRun_failed)
next
  case (Some pk)
  obtain k where k: "keys (memory r) pk = Some k" using run Some by (auto simp: kdbGet_def)
  let ?ns = "keyGetNamespace (Some k)"
  show ?thesis
  proof (cases "?ns = KEY_NS_NONE")
    case True
    then show ?thesis using run k by (auto simp: kdbGet_def Some Let_def getRun_failed)
  next
    case False
    note e = run [unfolded kdbGet_def Some option.case k Option.bind.bind_lunit Let_def if_not_P [OF False]]
    obtain name where n: "keyName (Some k) = Some name" using e by (cases "keyName (Some k)") simp_all
    obtain old m1 where m1: "keyNew (memory r) (Some name) [] = Some (old, m1)" using e n by (cases "keyNew (memory r) (Some name) []") auto
    obtain x m2 where m2: "copyError m1 old pk = Some (x, m2)" using e n m1 by (cases "copyError m1 old pk") auto
    note f = e [unfolded n m1 m2 Option.bind.bind_lunit prod.case]
    show ?thesis
    proof (cases "?ns = KEY_NS_META")
      case True
      then show ?thesis using f by (auto intro: getRun_failed)
    next
      case False
      show ?thesis using f False by (cases "?ns = KEY_NS_EMPTY") (auto dest!: kdbGetSplit_run [OF h] elim!: getRun_calls)
    qed
  qed
qed


section \<open>Properties\<close>


text \<open>A part with removed keys: the backend remembers one key, the keyset of the user is empty. The resolver is plugin 0, in the slots 0
  and 7; plugin 5, the storage, fails.\<close>

definition exPlugin :: "int \<Rightarrow> unit pfun" where
  "exPlugin n w m ks pk = Some (n, w, m, ks)"

definition exEnv :: "unit env" where
  "exEnv = \<lparr>plugins = (\<lambda>q. let f = Some (exPlugin (if q = 5 then -1 else 1)) in \<lparr>kdbGetPtr = f, kdbSetPtr = f, kdbErrorPtr = f\<rparr>),
     warn = (\<lambda>m _ _ _. Some m), setError = (\<lambda>m _ _ _. Some m), callbacks = (\<lambda>_ _ _ _ _ _. None), fuel = 3\<rparr>"

definition exKdbM :: mem where
  "exKdbM = exMem [exKey ''user'', exKey ''user'', (exKey ''user'')\<lparr>ksReference := 1\<rparr>]"

definition exKdb :: KDB where
  "exKdb = \<lparr>kdb_trie = None, kdb_split = splitNew\<lparr>parts := [\<lparr>part_keys = ksRewind (ksVNewEmpty 0), part_handle = Some 0, part_parent = Some 1,
     part_sync = 0\<rparr>]\<rparr>, defaultBackend = Some 0, initBackend = None, globalPlugins = (\<lambda>_. None)\<rparr>"

definition exRun :: "paddr \<Rightarrow> paddr \<Rightarrow> unit run" where
  "exRun resolver storage = (let f = [0 \<mapsto> resolver, 5 \<mapsto> storage, 7 \<mapsto> resolver] in
     \<lparr>world = (), memory = exKdbM, backs = [0 \<mapsto> \<lparr>mountpoint = Some 2, setplugins = f, getplugins = f, errorplugins = f,
        specsize = -1, dirsize = -1, usersize = 1, systemsize = -1, refcounter = 1\<rparr>], spl = splitNew, calls = []\<rparr>)"

lemma exSet_fails: "map_option (\<lambda>(ret, _, r). (ret, calls r)) (kdbSet exEnv (Some exKdb) (Some (ksRewind (ksVNewEmpty 0))) (Some 0) (exRun 0 5))
    = Some (-1, [SetCall 0 0 1, SetCall 0 5 (-1), ErrorCall 0 0 1, ErrorCall 0 5 (-1), ErrorCall 0 7 1])"
  by code_simp

text \<open>With a storage that works the same run ends in the commit.\<close>

lemma exSet_done: "map_option (\<lambda>(ret, _, r). (ret, calls r)) (kdbSet exEnv (Some exKdb) (Some (ksRewind (ksVNewEmpty 0))) (Some 0) (exRun 0 1))
    = Some (1, [SetCall 0 0 1, SetCall 0 5 1, SetCall 0 7 1])"
  by code_simp


text \<open>C2: when \<open>kdbGet\<close> returns 0 or -1 and there are no global plugins, the keyset of the user holds the keys it had, in the same array; 0 is
  returned only after the resolver of every part it asked said that nothing has changed, and no other plugin was called.\<close>

theorem kdb_get_unchanged:
  assumes "globalPlugins h = (\<lambda>_. None)" "kdbGet env (Some h) (Some ks) p r = Some (ret, ks', r')" "ret \<noteq> 1"
  shows "(ret = -1 \<or> ret = 0 \<and> (\<exists>xs. calls r' = calls r @ xs \<and> (\<forall>c \<in> set xs. \<exists>i. c = GetCall i RESOLVER_PLUGIN 0)))
    \<and> (\<exists>k'. ks' = Some k' \<and> ksRewind k' = ksRewind ks)"
  using kdbGet_run [OF assms(1,2)] assms(3) by (auto simp: getRun_def traced_def)

text \<open>The resolver fails; the keyset has two keys.\<close>

lemma exGet_fails: "map_option (\<lambda>(ret, _, r). (ret, calls r)) (kdbGet exEnv (Some exKdb) (Some exKs) (Some 0) (exRun 5 5))
    = Some (-1, [GetCall 0 0 (-1)])"
  by code_simp

theorem kdb_get_unchanged_witness:
  "\<exists>k' r'. kdbGet exEnv (Some exKdb) (Some exKs) (Some 0) (exRun 5 5) = Some (-1, Some k', r')
    \<and> calls r' = [GetCall 0 0 (-1)] \<and> ksRewind k' = ksRewind exKs"
proof -
  obtain ks' r' where s: "kdbGet exEnv (Some exKdb) (Some exKs) (Some 0) (exRun 5 5) = Some (-1, ks', r')"
    "calls r' = [GetCall 0 0 (-1)]"
    using exGet_fails by auto
  have "globalPlugins exKdb = (\<lambda>_. None)" by (simp add: exKdb_def)
  from kdb_get_unchanged [OF this s(1)] show ?thesis using s by auto
qed

end
