(* ===== verification/SplitRoute.thy ===== *)
theory SplitRoute
  imports SplitFacts
begin

text \<open>
  Where \<open>splitDivide\<close> puts a key, stated without the code's search: by the mountpoints that the handle was built from
  and the namespace of the parent of a part.
\<close>

section \<open>Namespaces of canonical names\<close>

definition rootNames :: "string list" where
  "rootNames = [''spec'', ''dir'', ''user'', ''system'']"

lemma mkname_parts:
  assumes "named k (Some c) ls"
  obtains "key k = Some c" | t where "key k = Some (c @ SLASH # t)"
proof (cases ls)
  case Nil
  then show thesis using assms that(1) by (simp add: named_def mkname_def join_def)
next
  case (Cons l ls')
  then show thesis using assms that(2) [of "l @ join ls'"] by (simp add: named_def mkname_def join_def)
qed

lemma named_tests:
  assumes "named k (Some c) ls" "c \<in> set rootNames"
  shows "keyIsSpec (Some k) \<noteq> 0 \<longleftrightarrow> c = ''spec''" "keyIsDir (Some k) \<noteq> 0 \<longleftrightarrow> c = ''dir''" "keyIsUser (Some k) \<noteq> 0 \<longleftrightarrow> c = ''user''"
    "keyIsSystem (Some k) \<noteq> 0 \<longleftrightarrow> c = ''system''"
    "keyGetNamespace (Some k) = (if c = ''spec'' then KEY_NS_SPEC else if c = ''dir'' then KEY_NS_DIR else if c = ''user'' then KEY_NS_USER else KEY_NS_SYSTEM)"
proof -
  have c: "c = ''spec'' \<or> c = ''dir'' \<or> c = ''user'' \<or> c = ''system''" using assms(2) by (auto simp: rootNames_def)
  note d = keyIsSpec_def keyIsDir_def keyIsUser_def keyIsSystem_def nsTest_def keyGetNamespace_def ns_defs strcmp_0_iff strncmp_0_iff
  show "keyIsSpec (Some k) \<noteq> 0 \<longleftrightarrow> c = ''spec''"
    by (cases rule: mkname_parts [OF assms(1)]; use c in \<open>elim disjE; simp add: d\<close>)
  show "keyIsDir (Some k) \<noteq> 0 \<longleftrightarrow> c = ''dir''"
    by (cases rule: mkname_parts [OF assms(1)]; use c in \<open>elim disjE; simp add: d\<close>)
  show "keyIsUser (Some k) \<noteq> 0 \<longleftrightarrow> c = ''user''"
    by (cases rule: mkname_parts [OF assms(1)]; use c in \<open>elim disjE; simp add: d\<close>)
  show "keyIsSystem (Some k) \<noteq> 0 \<longleftrightarrow> c = ''system''"
    by (cases rule: mkname_parts [OF assms(1)]; use c in \<open>elim disjE; simp add: d\<close>)
  show "keyGetNamespace (Some k) = (if c = ''spec'' then KEY_NS_SPEC else if c = ''dir'' then KEY_NS_DIR else if c = ''user'' then KEY_NS_USER else KEY_NS_SYSTEM)"
    by (cases rule: mkname_parts [OF assms(1)]; use c in \<open>elim disjE; simp add: d\<close>)
qed

section \<open>The part that accepts a key\<close>

text \<open>The backend of the nearest mountpoint at or above the name with root \<open>c\<close> and levels \<open>ks\<close>, else the default backend.\<close>

definition nearest :: "(string \<times> string list \<times> baddr) list \<Rightarrow> baddr \<Rightarrow> string \<Rightarrow> string list \<Rightarrow> baddr \<Rightarrow> bool" where
  "nearest ms d c ks b \<longleftrightarrow>
     (if \<exists>(r, ls, b') \<in> set ms. r = c \<and> prefix ls ks
      then \<exists>ls. (c, ls, b) \<in> set ms \<and> prefix ls ks \<and> (\<forall>(r, ls', b') \<in> set ms. r = c \<and> prefix ls' ks \<longrightarrow> prefix ls' ls)
      else b = d)"

text \<open>A part of the backend \<open>b\<close> takes keys of the namespace \<open>c\<close> if it does not cascade or its parent is in this namespace.\<close>

definition accepts :: "mem \<Rightarrow> baddr \<Rightarrow> string \<Rightarrow> Part \<Rightarrow> bool" where
  "accepts m b c p \<longleftrightarrow> part_handle p = Some b
     \<and> (part_sync p AND 2 \<noteq> 0 \<longrightarrow> (\<exists>kp ls. keyAt m (part_parent p) = Some kp \<and> named kp (Some c) ls))"

text \<open>The key at \<open>a\<close> belongs to part \<open>i\<close>: the first part that takes it.\<close>

definition belongs :: "(string \<times> string list \<times> baddr) list \<Rightarrow> baddr \<Rightarrow> mem \<Rightarrow> Part list \<Rightarrow> nat \<Rightarrow> addr \<Rightarrow> bool" where
  "belongs ms d m ps i a \<longleftrightarrow> (\<exists>k c ls b. keys m a = Some k \<and> named k (Some c) ls \<and> nearest ms d c ls b
     \<and> i < length ps \<and> accepts m b c (ps ! i) \<and> (\<forall>j < i. \<not> accepts m b c (ps ! j)))"

definition dividedBy :: "(nat \<Rightarrow> addr \<Rightarrow> bool) \<Rightarrow> mem \<Rightarrow> Part list \<Rightarrow> addr list \<Rightarrow> Part list \<Rightarrow> bool" where
  "dividedBy R m ps0 as ps \<longleftrightarrow> length ps = length ps0 \<and>
     (\<forall>i < length ps. part_handle (ps ! i) = part_handle (ps0 ! i) \<and> part_parent (ps ! i) = part_parent (ps0 ! i)
        \<and> klist (part_keys (ps ! i)) = filter (R i) as
        \<and> part_sync (ps ! i) = (if \<exists>a \<in> set as. R i a \<and> wantsSync m a then part_sync (ps0 ! i) OR 1 else part_sync (ps0 ! i)))"

text \<open>Cascading parts have a parent in one of the namespaces of backends.\<close>

definition parented :: "mem \<Rightarrow> Part \<Rightarrow> bool" where
  "parented m p \<longleftrightarrow> (part_sync p AND 2 \<noteq> 0 \<longrightarrow> (\<exists>kp c ls. keyAt m (part_parent p) = Some kp \<and> named kp (Some c) ls \<and> c \<in> set rootNames))"

section \<open>The search of the code finds it\<close>

lemma named_root_unique: "named k (Some c) ls \<Longrightarrow> named k (Some c') ls' \<Longrightarrow> c = c' \<and> ls = ls'"
  using mkname_inj by (fastforce simp: named_def)

lemma search_step:
  assumes k: "named k (Some c) ls" "c \<in> set rootNames" and p: "parented m p"
  shows "splitSearchLoop m (p # ps) i (Some b) (Some k) = (if accepts m b c p then Some i else splitSearchLoop m ps (Suc i) (Some b) (Some k))"
proof (cases "part_handle p = Some b \<and> part_sync p AND 2 \<noteq> 0")
  case True
  then obtain kp c' ls' where kp: "keyAt m (part_parent p) = Some kp" "named kp (Some c') ls'" "c' \<in> set rootNames"
    using p by (auto simp: parented_def)
  have a: "accepts m b c p \<longleftrightarrow> c' = c"
  proof
    assume "accepts m b c p"
    then obtain l where "named kp (Some c) l" using True kp(1) unfolding accepts_def by auto
    then show "c' = c" using named_root_unique [OF kp(2)] by simp
  next
    assume "c' = c"
    then show "accepts m b c p" using True kp(1,2) unfolding accepts_def by auto
  qed
  have c: "c = ''spec'' \<or> c = ''dir'' \<or> c = ''user'' \<or> c = ''system''" using k(2) by (auto simp: rootNames_def)
  have t: "part_handle p = Some b" "part_sync p AND 2 \<noteq> 0" using True by simp_all
  show ?thesis
    using c
  proof (elim disjE)
    assume e: "c = ''spec''"
    show ?thesis unfolding splitSearchLoop.simps a named_tests(5) [OF k] kp(1) named_tests(1-4) [OF kp(2,3)] using t by (simp add: e test_bit_def)
  next
    assume e: "c = ''dir''"
    show ?thesis unfolding splitSearchLoop.simps a named_tests(5) [OF k] kp(1) named_tests(1-4) [OF kp(2,3)] using t by (simp add: e test_bit_def)
  next
    assume e: "c = ''user''"
    show ?thesis unfolding splitSearchLoop.simps a named_tests(5) [OF k] kp(1) named_tests(1-4) [OF kp(2,3)] using t by (simp add: e test_bit_def)
  next
    assume e: "c = ''system''"
    show ?thesis unfolding splitSearchLoop.simps a named_tests(5) [OF k] kp(1) named_tests(1-4) [OF kp(2,3)] using t by (simp add: e test_bit_def)
  qed
next
  case False
  then show ?thesis by (auto simp: accepts_def test_bit_def)
qed

lemma search_accepts:
  assumes k: "named k (Some c) ls" "c \<in> set rootNames" and p: "\<forall>p \<in> set ps. parented m p"
  shows "splitSearchLoop m ps i (Some b) (Some k) = Some j \<longleftrightarrow>
    i \<le> j \<and> j - i < length ps \<and> accepts m b c (ps ! (j - i)) \<and> (\<forall>l < j - i. \<not> accepts m b c (ps ! l))"
  using p
proof (induction ps arbitrary: i)
  case (Cons p ps)
  have pp: "parented m p" "\<forall>p \<in> set ps. parented m p" using Cons.prems by simp_all
  note st = search_step [OF k pp(1)]
  show ?case
  proof (cases "accepts m b c p")
    case True
    then show ?thesis unfolding st by (cases "i \<le> j"; cases "j - i") auto
  next
    case False
    have "Suc i \<le> j \<and> j - Suc i < length ps \<and> accepts m b c (ps ! (j - Suc i)) \<and> (\<forall>l < j - Suc i. \<not> accepts m b c (ps ! l))
      \<longleftrightarrow> i \<le> j \<and> j - i < length (p # ps) \<and> accepts m b c ((p # ps) ! (j - i)) \<and> (\<forall>l < j - i. \<not> accepts m b c ((p # ps) ! l))"
    proof (cases "j - i")
      case 0
      then show ?thesis using False by auto
    next
      case (Suc n)
      then have "j - Suc i = n" "Suc i \<le> j" by simp_all
      then show ?thesis using Suc False by (auto simp: All_less_Suc2)
    qed
    then show ?thesis using Cons.IH [OF pp(2), of "Suc i"] False unfolding st by simp
  qed
qed simp

lemma nearest_unique:
  assumes "distinct (map (\<lambda>(r, ls, b). (r, ls)) ms)" "nearest ms d c ks b" "nearest ms d c ks b'"
  shows "b = b'"
proof (cases "\<exists>(r, ls, b') \<in> set ms. r = c \<and> prefix ls ks")
  case True
  obtain ls where l: "(c, ls, b) \<in> set ms" "prefix ls ks" "\<forall>(r, ls', b') \<in> set ms. r = c \<and> prefix ls' ks \<longrightarrow> prefix ls' ls"
    using assms(2) True unfolding nearest_def by (simp only: if_True) blast
  obtain ls' where l': "(c, ls', b') \<in> set ms" "prefix ls' ks" "\<forall>(r, l, b') \<in> set ms. r = c \<and> prefix l ks \<longrightarrow> prefix l ls'"
    using assms(3) True unfolding nearest_def by (simp only: if_True) blast
  have "ls = ls'" using l l' by (intro prefix_order.antisym) blast+
  then show ?thesis using assms(1) l(1) l'(1) by (auto simp: distinct_map inj_on_def)
next
  case False
  then show ?thesis using assms(2,3) unfolding nearest_def by (simp only: if_False)
qed

lemma backend_nearest:
  assumes "kdb_trie handle = mountAll ms None" "\<forall>(r, ls, b) \<in> set ms. good_levels (Some r) ls" "defaultBackend handle = Some d"
    "named k (Some c) ks"
  obtains b where "mountGetBackend handle (Some k) = Some b" "nearest ms d c ks b"
proof -
  note L = trieLookup_nearest [OF assms(2,4)]
  have "mkname (Some c) ks \<noteq> []" using assms(4) by (auto simp: named_def mkname_not_Nil)
  then have kn: "keyName (Some k) \<noteq> Some []" using assms(4) by (simp add: keyName_def named_def)
  show thesis
  proof (cases "trieLookup (mountAll ms None) (Some k)")
    case None
    then have "mountGetBackend handle (Some k) = Some d" using kn assms(1,3) by (simp add: mountGetBackend_def)
    moreover have "\<forall>(r, ls, b) \<in> set ms. \<not> (r = c \<and> prefix ls ks)" using L None by simp
    then have "nearest ms d c ks d" unfolding nearest_def by auto
    ultimately show thesis by (rule that)
  next
    case (Some b)
    then have "mountGetBackend handle (Some k) = Some b" using kn assms(1) by (simp add: mountGetBackend_def)
    moreover have "\<exists>ls. (c, ls, b) \<in> set ms \<and> prefix ls ks \<and> (\<forall>(r, ls', b') \<in> set ms. r = c \<and> prefix ls' ks \<longrightarrow> prefix ls' ls)"
      using L Some by (simp only: option.case)
    then have "nearest ms d c ks b" unfolding nearest_def by (auto split: prod.splits)
    ultimately show thesis by (rule that)
  qed
qed


lemma belongs_named:
  assumes "keys m a = Some k" "named k (Some c) ls"
  shows "belongs ms d m ps i a \<longleftrightarrow>
    (\<exists>b. nearest ms d c ls b \<and> i < length ps \<and> accepts m b c (ps ! i) \<and> (\<forall>j < i. \<not> accepts m b c (ps ! j)))"
proof
  assume "belongs ms d m ps i a"
  then obtain c' ls' b' where *: "named k (Some c') ls'" "nearest ms d c' ls' b'" "i < length ps" "accepts m b' c' (ps ! i)"
    "\<forall>j < i. \<not> accepts m b' c' (ps ! j)" using assms(1) unfolding belongs_def by auto
  have "c' = c" "ls' = ls" using named_root_unique [OF *(1) assms(2)] by simp_all
  then show "\<exists>b. nearest ms d c ls b \<and> i < length ps \<and> accepts m b c (ps ! i) \<and> (\<forall>j < i. \<not> accepts m b c (ps ! j))"
    using * by blast
next
  assume "\<exists>b. nearest ms d c ls b \<and> i < length ps \<and> accepts m b c (ps ! i) \<and> (\<forall>j < i. \<not> accepts m b c (ps ! j))"
  then show "belongs ms d m ps i a" using assms unfolding belongs_def by blast
qed

lemma belongs_route:
  assumes trie: "kdb_trie handle = mountAll ms None" "\<forall>(r, ls, b) \<in> set ms. good_levels (Some r) ls"
      "distinct (map (\<lambda>(r, ls, b). (r, ls)) ms)" "defaultBackend handle = Some d"
    and k: "keys m a = Some k" "named k (Some c) ks" "c \<in> set rootNames" and p: "\<forall>p \<in> set ps. parented m p"
  shows "keyRoute handle m ps a = Some i \<longleftrightarrow> belongs ms d m ps i a"
proof -
  obtain b where b: "mountGetBackend handle (Some k) = Some b" "nearest ms d c ks b"
    by (rule backend_nearest [OF trie(1,2,4) k(2)])
  have "keyRoute handle m ps a = Some i \<longleftrightarrow> i < length ps \<and> accepts m b c (ps ! i) \<and> (\<forall>j < i. \<not> accepts m b c (ps ! j))"
    using b(1) k(1) search_accepts [OF k(2,3) p, of 0 b i] by (simp add: keyRoute_def)
  also have "\<dots> \<longleftrightarrow> belongs ms d m ps i a"
    unfolding belongs_named [OF k(1,2)] using b(2) nearest_unique [OF trie(3)] by blast
  finally show ?thesis .
qed

lemma divided_dividedBy:
  assumes "divided handle m ps0 as ps" "\<And>a i. a \<in> set as \<Longrightarrow> keyRoute handle m ps0 a = Some i \<longleftrightarrow> R i a"
  shows "dividedBy R m ps0 as ps"
proof -
  have "filter (\<lambda>a. keyRoute handle m ps0 a = Some i) as = filter (R i) as" for i
    using assms(2) by (intro filter_cong) simp_all
  moreover have "(\<exists>a \<in> set as. keyRoute handle m ps0 a = Some i \<and> wantsSync m a) \<longleftrightarrow> (\<exists>a \<in> set as. R i a \<and> wantsSync m a)" for i
    using assms(2) by blast
  ultimately have e: "divided handle m ps0 as ps \<longleftrightarrow> dividedBy R m ps0 as ps" unfolding divided_def dividedBy_def by (simp only:)
  show ?thesis using assms(1) unfolding e .
qed

section \<open>The property\<close>

text \<open>C7: \<open>splitDivide\<close> gives every key of the keyset to the part of its backend and namespace. The handle's trie is that of the
  mountpoints \<open>ms\<close>, and a key belongs to the first part whose backend is that of the nearest mountpoint at or above it and, if the part
  cascades, whose parent lies in the namespace of the key. Afterwards each part holds exactly the keys that belong to it, in order,
  and has its sync bit set if one of them needs to be synchronised; the result says whether any does. The keys are in the
  namespaces spec, dir, user and system, which backends have.\<close>

theorem split_divide:
  assumes si: "sys_inv \<lparr>heap = m, held = H, sets = ks # map part_keys (parts s)\<rparr>" and e: "\<forall>p \<in> set (parts s). klist (part_keys p) = []"
    and small: "\<forall>a \<in> set (klist ks). refs m a < SSIZE_MAX"
    and handle: "kdb_trie handle = mountAll ms None" "defaultBackend handle = Some d"
    and ms: "\<forall>(r, ls, b) \<in> set ms. good_levels (Some r) ls" "distinct (map (\<lambda>(r, ls, b). (r, ls)) ms)"
    and keys: "\<forall>a \<in> set (klist ks). \<exists>k c ls. keys m a = Some k \<and> named k (Some c) ls \<and> c \<in> set rootNames"
    and par: "\<forall>p \<in> set (parts s). parented m p"
  shows "\<exists>m' s' ks'. splitDivide handle m s ks
      = Some (if \<exists>a \<in> set (klist ks). \<exists>i. belongs ms d m (parts s) i a \<and> wantsSync m a then 1 else 0, m', s', ks')
    \<and> ksRewind ks' = ksRewind ks \<and> sys_inv \<lparr>heap = m', held = H, sets = ks # map part_keys (parts s')\<rparr>
    \<and> dividedBy (belongs ms d m (parts s)) m (parts s) (klist ks) (parts s')"
proof -
  have R: "keyRoute handle m (parts s) a = Some i \<longleftrightarrow> belongs ms d m (parts s) i a" if a: "a \<in> set (klist ks)" for a i
  proof -
    obtain k c ls where "keys m a = Some k" "named k (Some c) ls" "c \<in> set rootNames" using keys a by blast
    then show ?thesis by (rule belongs_route [OF handle(1) ms handle(2) _ _ _ par])
  qed
  have def: "defaultBackend handle \<noteq> None" using handle(2) by simp
  obtain m' s' ks' where D: "splitDivide handle m s ks
      = Some (if \<exists>a \<in> set (klist ks). keyRoute handle m (parts s) a \<noteq> None \<and> wantsSync m a then 1 else 0, m', s', ks')"
    "ksRewind ks' = ksRewind ks" "divState handle m (parts s) H ks (klist ks) m' (parts s')"
    by (rule splitDivide_ok [OF si e small def])
  have x: "(\<exists>a \<in> set (klist ks). keyRoute handle m (parts s) a \<noteq> None \<and> wantsSync m a)
    \<longleftrightarrow> (\<exists>a \<in> set (klist ks). \<exists>i. belongs ms d m (parts s) i a \<and> wantsSync m a)"
    using R by (metis option.exhaust option.distinct(1))
  have dv: "divided handle m (parts s) (klist ks) (parts s')" and si': "sys_inv \<lparr>heap = m', held = H, sets = ks # map part_keys (parts s')\<rparr>"
    using D(3) unfolding divState_def by blast+
  have "dividedBy (belongs ms d m (parts s)) m (parts s) (klist ks) (parts s')" by (rule divided_dividedBy [OF dv R])
  then show ?thesis using D(1,2) si' unfolding x by blast
qed

text \<open>The backend 0 at \<open>user/a\<close> and the default backend 1, whose part cascades and has its parent in \<open>user\<close>.\<close>

definition exMounts :: "(string \<times> string list \<times> baddr) list" where
  "exMounts = [(''user'', [''a''], 0)]"

definition exRouteHandle :: KDB where
  "exRouteHandle = exHandle\<lparr>kdb_trie := mountAll exMounts None, defaultBackend := Some 1\<rparr>"

definition exParts :: Split where
  "exParts = splitNew\<lparr>parts := [\<lparr>part_keys = ksRewind (ksVNewEmpty 0), part_handle = Some 0, part_parent = Some 0, part_sync = 0\<rparr>,
     \<lparr>part_keys = ksRewind (ksVNewEmpty 0), part_handle = Some 1, part_parent = Some 1, part_sync = 2\<rparr>]\<rparr>"

lemma ex_named: "named exA (Some ''user'') [''a'']" "named exB (Some ''user'') [''b'']"
  by code_simp+

lemma ex_parts:
  "sys_inv \<lparr>heap = exM, held = {#}, sets = exKs # map part_keys (parts exParts)\<rparr>" "\<forall>p \<in> set (parts exParts). klist (part_keys p) = []"
  "\<forall>p \<in> set (parts exParts). parented exM p"
proof -
  let ?e = "ksRewind (ksVNewEmpty 0)"
  have e: "ks_ok exM ?e []" using ksVNewEmpty_repr(1) by (simp add: ks_ok_def)
  have l: "klist exKs = [0, 1]" "klist ?e = []" using klist_ok [OF exKs_ok] klist_ok [OF e] by simp_all
  have p: "map part_keys (parts exParts) = [?e, ?e]" by (simp add: exParts_def)
  show "sys_inv \<lparr>heap = exM, held = {#}, sets = exKs # map part_keys (parts exParts)\<rparr>"
    using ex_heap(3) exKs_ok e by (simp add: sys_inv_def p l setRefs_def add_mset_commute)
  show "\<forall>p \<in> set (parts exParts). klist (part_keys p) = []" using l(2) by (simp add: exParts_def)
  have "parented exM (parts exParts ! 1)"
    unfolding parented_def using ex_named(2) by (auto simp: exParts_def rootNames_def)
  then show "\<forall>p \<in> set (parts exParts). parented exM p" by (simp add: exParts_def parented_def)
qed

lemma ex_belongs:
  "belongs exMounts 1 exM (parts exParts) 0 a \<longleftrightarrow> a = 0" "belongs exMounts 1 exM (parts exParts) 1 a \<longleftrightarrow> a = 1" if "a \<in> {0, 1}"
proof -
  have acc: "accepts exM b ''user'' (parts exParts ! 0) \<longleftrightarrow> b = 0" "accepts exM b ''user'' (parts exParts ! 1) \<longleftrightarrow> b = 1" for b
    using ex_named(2) by (auto simp: accepts_def exParts_def)
  have near: "nearest exMounts 1 ''user'' [''a''] b \<longleftrightarrow> b = 0" "nearest exMounts 1 ''user'' [''b''] b \<longleftrightarrow> b = 1" for b
    by (auto simp: nearest_def exMounts_def)
  have len: "length (parts exParts) = 2" by (simp add: exParts_def)
  have k: "keys exM 0 = Some exA" "keys exM 1 = Some exB" by simp_all
  from that consider "a = 0" | "a = 1" by auto
  then show "belongs exMounts 1 exM (parts exParts) 0 a \<longleftrightarrow> a = 0" "belongs exMounts 1 exM (parts exParts) 1 a \<longleftrightarrow> a = 1"
    unfolding atomize_conj by cases (simp_all only: belongs_named [OF k(1) ex_named(1)] belongs_named [OF k(2) ex_named(2)] near acc len, auto simp: acc)
qed

theorem split_divide_witness:
  "\<exists>r m' s' ks' p q. splitDivide exRouteHandle exM exParts exKs = Some (r, m', s', ks')
    \<and> parts s' = [p, q] \<and> klist (part_keys p) = [0] \<and> klist (part_keys q) = [1]"
proof -
  have l: "klist exKs = [0, 1]" by (rule ex_split(5))
  have small: "\<forall>a \<in> set (klist exKs). refs exM a < SSIZE_MAX" using ex_split(3) by auto
  have k: "\<forall>a \<in> set (klist exKs). \<exists>k c ls. keys exM a = Some k \<and> named k (Some c) ls \<and> c \<in> set rootNames"
    using ex_named by (auto simp: l rootNames_def)
  have "kdb_trie exRouteHandle = mountAll exMounts None" "defaultBackend exRouteHandle = Some 1"
    "\<forall>(r, ls, b) \<in> set exMounts. good_levels (Some r) ls" "distinct (map (\<lambda>(r, ls, b). (r, ls)) exMounts)"
    using ex_named(1) by (simp_all add: exRouteHandle_def exMounts_def named_def)
  from split_divide [OF ex_parts(1,2) small this k ex_parts(3)] obtain r m' s' ks' where
    s: "splitDivide exRouteHandle exM exParts exKs = Some (r, m', s', ks')"
    "dividedBy (belongs exMounts 1 exM (parts exParts)) exM (parts exParts) (klist exKs) (parts s')" by blast
  have "length (parts exParts) = 2" by (simp add: exParts_def)
  then have n: "length (parts s') = 2" using s(2) by (simp add: dividedBy_def)
  have b: "filter (belongs exMounts 1 exM (parts exParts) 0) [0, 1] = [0]" "filter (belongs exMounts 1 exM (parts exParts) 1) [0, 1] = [1]"
    using ex_belongs [of 0] ex_belongs [of 1] by simp_all
  have "klist (part_keys (parts s' ! 0)) = [0]" "klist (part_keys (parts s' ! 1)) = [1]"
    using s(2) n b by (simp_all add: dividedBy_def l)
  moreover have "parts s' = [parts s' ! 0, parts s' ! 1]" using n by (intro nth_equalityI) (auto simp: less_Suc_eq numeral_2_eq_2)
  ultimately show ?thesis using s(1) by blast
qed

end
