(* ===== verification/Arrays.thy ===== *)
theory Arrays
  imports KsLookup
begin

text \<open>
  Arrays of keys: \<open>src/libs/ease/array.c\<close> and the filter of \<open>src/libs/ease/functional.c\<close>. The elements of an array
  have the base names \<open>#0\<close>, \<open>#1\<close>, \<dots>, \<open>#9\<close>, \<open>#_10\<close>, \<dots>; the underscores make the order of the names that
  of the numbers. The names are written by \<open>elektraWriteArrayNumber\<close> of \<open>keyset.c\<close>.
\<close>

section \<open>The operations\<close>

definition isdigit :: "char \<Rightarrow> bool" where
  "isdigit c \<longleftrightarrow> 48 \<le> (of_char c :: nat) \<and> (of_char c :: nat) \<le> 57"

definition isspace :: "char \<Rightarrow> bool" where
  "isspace c \<longleftrightarrow> c = CHR '' '' \<or> 9 \<le> (of_char c :: nat) \<and> (of_char c :: nat) \<le> 13"

abbreviation ELEKTRA_MAX_ARRAY_SIZE :: nat where "ELEKTRA_MAX_ARRAY_SIZE \<equiv> 21"

definition elektraArrayValidateName :: "Key option \<Rightarrow> int" where
  "elektraArrayValidateName k = (case k of None \<Rightarrow> -1
     | Some kk \<Rightarrow> (case keyBaseName k of None \<Rightarrow> -1
       | Some cur \<Rightarrow>
           if strcmp cur ''#'' = 0 then 0
           else if take 1 cur = ''#'' then
             let cur1 = drop 1 cur;
                 underscores = length (takeWhile (\<lambda>c. c = CHR ''_'') cur1);
                 digits = length (takeWhile isdigit (drop underscores cur1))
             in if int underscores \<noteq> int digits - 1 then -1
                else if underscores + digits > ELEKTRA_MAX_ARRAY_SIZE - 2 then -1
                else 1
           else -1))"

text \<open>\<open>sscanf\<close> with the format of a \<open>long long\<close>: the number read, \<open>None\<close> if there is none or \<open>errno\<close> is set because it is too large.\<close>

definition digitsVal :: "string \<Rightarrow> nat" where
  "digitsVal ds = foldl (\<lambda>n c. n * 10 + (of_char c - 48)) 0 ds"

definition scanLL :: "string \<Rightarrow> int option" where
  "scanLL s = (let s1 = dropWhile isspace s;
       neg = (take 1 s1 = ''-'');
       s2 = (if take 1 s1 = ''-'' \<or> take 1 s1 = ''+'' then drop 1 s1 else s1);
       ds = takeWhile isdigit s2;
       v = (if neg then - int (digitsVal ds) else int (digitsVal ds))
     in if ds = [] \<or> v > 2 ^ 63 - 1 \<or> v < - (2 ^ 63) then None else Some v)"

definition elektraReadArrayNumber :: "string \<Rightarrow> int \<times> int option" where
  "elektraReadArrayNumber baseName = (case scanLL baseName of None \<Rightarrow> (-1, None)
     | Some oldIndex \<Rightarrow> if oldIndex < 0 then (-1, Some oldIndex) else (0, Some oldIndex))"

text \<open>The local buffer has \<open>ELEKTRA_MAX_ARRAY_SIZE\<close> bytes; a name that does not fit with its null byte is written behind its end.\<close>

definition elektraArrayIncName :: "Key \<Rightarrow> (int \<times> Key) option" where
  "elektraArrayIncName k = do {
     baseName \<leftarrow> keyBaseName (Some k);
     let arrayElement = elektraArrayValidateName (Some k);
     if arrayElement = -1 then Some (-1, k)
     else
       let baseName1 = dropWhile (\<lambda>c. c = CHR ''_'') (drop 1 baseName);
           (r, old) = (if arrayElement = 0 then (0, Some (-1)) else elektraReadArrayNumber baseName1)
       in if r = -1 then Some (-1, k)
          else do {
            oldIndex \<leftarrow> old;
            let newName = elektraWriteArrayNumber (nat (oldIndex + 1));
            if length newName + 1 > ELEKTRA_MAX_ARRAY_SIZE then None
            else do { k' \<leftarrow> snd (keySetBaseName (Some k) (Some newName)); Some (0, k') } } }"

text \<open>\<open>elektraKsFilter\<close>: the loop, with the filter a function on keys; what it returns is \<open>None\<close> where it reads beyond a name.\<close>

fun filterLoop :: "nat \<Rightarrow> mem \<Rightarrow> KeySet \<Rightarrow> KeySet \<Rightarrow> (Key \<Rightarrow> int option) \<Rightarrow> int \<Rightarrow> (int \<times> mem \<times> KeySet \<times> KeySet) option" where
  "filterLoop 0 m result input flt ret = None"
| "filterLoop (Suc n) m result input flt ret = do {
     (p, input1) \<leftarrow> ksNext input;
     case p of None \<Rightarrow> Some (ret, m, result, input1)
     | Some a \<Rightarrow> do {
         k \<leftarrow> keys m a;
         rc \<leftarrow> flt k;
         if rc \<le> -1 then Some (-1, m, result, input1)
         else if rc > 0 then do {
           (d, m1) \<leftarrow> keyDup m (Some a);
           (_, m2, result1) \<leftarrow> ksAppendKey m1 result d;
           filterLoop n m2 result1 input1 flt (ret + 1) }
         else filterLoop n m result input1 flt ret } }"

definition elektraKsFilter :: "mem \<Rightarrow> KeySet option \<Rightarrow> KeySet option \<Rightarrow> (Key \<Rightarrow> int option) option
    \<Rightarrow> (int \<times> mem \<times> KeySet option \<times> KeySet option) option" where
  "elektraKsFilter m r i f = (case (r, i, f) of
     (Some result, Some input, Some flt) \<Rightarrow> do {
       (ret, m1, result1, input1) \<leftarrow> filterLoop (Suc (ks_size input)) m result (ksRewind input) flt 0;
       if ret = -1 then Some (ret, m1, Some result1, Some input1)
       else do { input2 \<leftarrow> ksSetCursor input1 (ksGetCursor (Some input)); Some (ret, m1, Some result1, Some input2) } }
   | _ \<Rightarrow> Some (-1, m, r, i))"

text \<open>In C, \<open>-1\<close> is true.\<close>

definition arrayFilter :: "Key \<Rightarrow> Key \<Rightarrow> int option" where
  "arrayFilter arrayParent k = do {
     below \<leftarrow> keyIsDirectBelow (Some arrayParent) (Some k);
     Some (if below \<noteq> 0 \<and> elektraArrayValidateName (Some k) \<noteq> 0 then 1 else 0) }"

definition elektraArrayGet :: "mem \<Rightarrow> Key option \<Rightarrow> KeySet option \<Rightarrow> (KeySet option \<times> mem \<times> KeySet option) option" where
  "elektraArrayGet m arrayParent k = (case (arrayParent, k) of
     (None, _) \<Rightarrow> Some (None, m, k)
   | (_, None) \<Rightarrow> Some (None, m, None)
   | (Some p, Some ks) \<Rightarrow> do {
       (m1, arrayKeys) \<leftarrow> ksNew m (ks_size ks) [];
       (_, m2, arrayKeys1, ks1) \<leftarrow> elektraKsFilter m1 (Some arrayKeys) (Some ks) (Some (arrayFilter p));
       Some (arrayKeys1, m2, ks1) })"

definition elektraArrayGetNextKey :: "mem \<Rightarrow> KeySet option \<Rightarrow> (addr option \<times> mem \<times> KeySet option) option" where
  "elektraArrayGetNextKey m k = (case k of None \<Rightarrow> Some (None, m, None)
     | Some ks \<Rightarrow> do {
         (last, m1, ks1) \<leftarrow> ksPop m ks;
         if last = None then Some (None, m1, Some ks1)
         else do {
           (_, m2, ks2) \<leftarrow> ksAppendKey m1 ks1 last;
           (d, m3) \<leftarrow> keyDup m2 last;
           a \<leftarrow> d;
           ka \<leftarrow> keys m3 a;
           (ret, ka') \<leftarrow> elektraArrayIncName ka;
           let m4 = storeKey m3 a ka';
           if ret = -1 then do { (_, m5) \<leftarrow> keyDelMem m4 a; Some (None, m5, Some ks2) }
           else Some (Some a, m4, Some ks2) } })"

section \<open>Numbers and their names\<close>

lemma showBase10: "showBase 10 n = (if n < 10 then [char_of (48 + n)] else showBase 10 (n div 10) @ [char_of (48 + n mod 10)])"
  by (subst showBase.simps) simp

lemma showBase_not_Nil [simp]: "showBase 10 n \<noteq> []"
  by (subst showBase10) simp

lemma digit_char:
  fixes d :: nat
  assumes "d < 10"
  shows "of_char (char_of (48 + d) :: char) = 48 + d" "isdigit (char_of (48 + d))"
  using assms by (simp_all add: isdigit_def)

lemma showBase_digits: "\<forall>c \<in> set (showBase 10 n). isdigit c"
proof (induction n rule: less_induct)
  case (less n)
  show ?case
  proof (cases "n < 10")
    case True
    then show ?thesis by (subst showBase10) (simp add: digit_char)
  next
    case False
    then show ?thesis using less.IH [of "n div 10"] by (subst showBase10) (simp add: digit_char ball_Un)
  qed
qed

lemma digitsVal_snoc: "digitsVal (ds @ [c]) = digitsVal ds * 10 + (of_char c - 48)"
  by (simp add: digitsVal_def)

lemma digitsVal_showBase [simp]: "digitsVal (showBase 10 n) = n"
proof (induction n rule: less_induct)
  case (less n)
  show ?case
  proof (cases "n < 10")
    case True
    then show ?thesis by (subst showBase10) (simp add: digitsVal_def digit_char)
  next
    case False
    then have "digitsVal (showBase 10 n) = digitsVal (showBase 10 (n div 10)) * 10 + n mod 10"
      by (subst showBase10) (simp add: digitsVal_snoc digit_char)
    then show ?thesis using less.IH [of "n div 10"] False by simp
  qed
qed

lemma arrayUnderscores_showBase: "arrayUnderscores (n div 10) = replicate (length (showBase 10 n) - 1) (CHR ''_'')"
proof (induction n rule: less_induct)
  case (less n)
  show ?case
  proof (cases "n < 10")
    case True
    then show ?thesis by (subst showBase10) (simp add: arrayUnderscores.simps)
  next
    case False
    then have "arrayUnderscores (n div 10) = CHR ''_'' # arrayUnderscores (n div 10 div 10)"
      by (subst arrayUnderscores.simps) (simp add: div_greater_zero_iff)
    also have "\<dots> = CHR ''_'' # replicate (length (showBase 10 (n div 10)) - 1) (CHR ''_'')"
      using less.IH [of "n div 10"] False by simp
    also have "\<dots> = replicate (length (showBase 10 n) - 1) (CHR ''_'')"
    proof -
      have "length (showBase 10 n) = Suc (length (showBase 10 (n div 10)))" using False by (subst showBase10) simp
      moreover have "0 < length (showBase 10 (n div 10))" by simp
      ultimately show ?thesis by (simp flip: replicate_Suc)
    qed
    finally show ?thesis .
  qed
qed

lemma arrayName_eq: "elektraWriteArrayNumber n = CHR ''#'' # replicate (length (showBase 10 n) - 1) (CHR ''_'') @ showBase 10 n"
  by (simp add: elektraWriteArrayNumber_def arrayUnderscores_showBase)

lemma length_showBase: "length (showBase 10 n) \<le> Suc k \<longleftrightarrow> n < 10 ^ Suc k"
proof (induction k arbitrary: n)
  case 0
  have "0 < length (showBase 10 (n div 10))" by simp
  then show ?case by (subst showBase10) auto
next
  case (Suc k)
  show ?case
  proof (cases "n < 10")
    case True
    moreover have "(10::nat) \<le> 10 ^ Suc (Suc k)" by simp
    ultimately show ?thesis by (subst showBase10) (simp del: power_Suc)
  next
    case False
    then have "length (showBase 10 n) \<le> Suc (Suc k) \<longleftrightarrow> length (showBase 10 (n div 10)) \<le> Suc k" by (subst showBase10) simp
    also have "\<dots> \<longleftrightarrow> n div 10 < 10 ^ Suc k" by (rule Suc.IH)
    also have "\<dots> \<longleftrightarrow> n < 10 ^ Suc (Suc k)" by (simp add: less_mult_imp_div_less div_less_iff_less_mult mult.commute)
    finally show ?thesis .
  qed
qed


text \<open>Words of equal length compare as their first letters, then as their rests.\<close>

lemma same_length_less:
  fixes u v :: "'a :: linorder list"
  shows "length u = length v \<Longrightarrow> u < v \<Longrightarrow> u @ x < v @ y"
  by (induction u v rule: list_induct2) auto

lemma same_prefix_less:
  fixes u :: "'a :: linorder list"
  shows "u @ x < u @ y \<longleftrightarrow> x < y"
  by (induction u) auto

lemma char_less: "(c :: char) < d \<longleftrightarrow> (of_char c :: nat) < of_char d"
  by (simp add: less_char_def)

lemma showBase_less: "n < m \<Longrightarrow> length (showBase 10 n) = length (showBase 10 m) \<Longrightarrow> showBase 10 n < showBase 10 m"
proof (induction m arbitrary: n rule: less_induct)
  case (less m)
  show ?case
  proof (cases "m < 10")
    case True
    then show ?thesis using less.prems by (subst (1 2) showBase10) (simp add: char_less digit_char)
  next
    case m: False
    have n: "\<not> n < 10"
    proof
      assume "n < 10"
      then have "length (showBase 10 n) = 1" by (subst showBase10) simp
      moreover have "length (showBase 10 m) = Suc (length (showBase 10 (m div 10)))" using m by (subst showBase10) simp
      ultimately show False using less.prems(2) by simp
    qed
    have len: "length (showBase 10 (n div 10)) = length (showBase 10 (m div 10))"
    proof -
      have "length (showBase 10 n) = Suc (length (showBase 10 (n div 10)))" using n by (subst showBase10) simp
      moreover have "length (showBase 10 m) = Suc (length (showBase 10 (m div 10)))" using m by (subst showBase10) simp
      ultimately show ?thesis using less.prems(2) by simp
    qed
    have u: "showBase 10 n = showBase 10 (n div 10) @ [char_of (48 + n mod 10)]" "showBase 10 m = showBase 10 (m div 10) @ [char_of (48 + m mod 10)]"
      using n m by (subst showBase10, simp)+
    show ?thesis
    proof (cases "n div 10 = m div 10")
      case True
      then have "n mod 10 < m mod 10" using less.prems(1) by (metis div_mult_mod_eq nat_add_left_cancel_less)
      then show ?thesis unfolding u True same_prefix_less by (simp add: char_less digit_char)
    next
      case False
      then have "n div 10 < m div 10" using div_le_mono [of n m 10] less.prems(1) by simp
      then have "showBase 10 (n div 10) < showBase 10 (m div 10)" using less.IH [of "m div 10" "n div 10"] m len by simp
      then show ?thesis unfolding u by (rule same_length_less [OF len])
    qed
  qed
qed

lemma showBase_length_mono: "n \<le> m \<Longrightarrow> length (showBase 10 n) \<le> length (showBase 10 m)"
proof -
  assume nm: "n \<le> m"
  obtain k where k: "length (showBase 10 m) = Suc k" by (cases "length (showBase 10 m)") auto
  then have "m < 10 ^ Suc k" using length_showBase [of m k] by simp
  then have "length (showBase 10 n) \<le> Suc k" using length_showBase [of n k] nm by simp
  then show ?thesis using k by simp
qed

lemma arrayName_less:
  assumes "n < m"
  shows "elektraWriteArrayNumber n @ x < elektraWriteArrayNumber m @ y"
proof -
  let ?ln = "length (showBase 10 n)" and ?lm = "length (showBase 10 m)" and ?us = "\<lambda>k. replicate k (CHR ''_'')"
  have le: "?ln \<le> ?lm" using assms by (intro showBase_length_mono) simp
  show ?thesis
  proof (cases "?ln = ?lm")
    case True
    have "showBase 10 n @ x < showBase 10 m @ y" by (rule same_length_less [OF True showBase_less [OF assms True]])
    then show ?thesis unfolding arrayName_eq using True same_prefix_less [of "?us (?lm - 1)"] by simp
  next
    case False
    have pos: "0 < ?ln" by (cases "showBase 10 n") simp_all
    define d where "d = ?lm - ?ln - 1"
    have d: "?lm - 1 = (?ln - 1) + Suc d" using False le pos unfolding d_def by linarith
    obtain c cs where c: "showBase 10 n = c # cs" by (cases "showBase 10 n") auto
    then have "isdigit c" using showBase_digits [of n] by simp
    then have "c < CHR ''_''" by (simp add: isdigit_def char_less)
    then have "showBase 10 n @ x < ?us (Suc d) @ showBase 10 m @ y" using c by simp
    then have "?us (?ln - 1) @ showBase 10 n @ x < ?us (?ln - 1) @ ?us (Suc d) @ showBase 10 m @ y" by (simp only: same_prefix_less)
    then show ?thesis unfolding arrayName_eq d replicate_add by simp
  qed
qed

lemma takeWhile_same: "takeWhile (\<lambda>c. c = a) (replicate k a @ xs) = replicate k a @ takeWhile (\<lambda>c. c = a) xs"
  by (induction k) auto

lemma dropWhile_same: "dropWhile (\<lambda>c. c = a) (replicate k a @ xs) = dropWhile (\<lambda>c. c = a) xs"
  by (induction k) auto

lemma showBase_first:
  obtains c cs where "showBase 10 n = c # cs" "isdigit c" "\<not> isspace c" "c \<noteq> CHR ''_''" "c \<noteq> CHR ''-''" "c \<noteq> CHR ''+''"
proof -
  obtain c cs where c: "showBase 10 n = c # cs" by (cases "showBase 10 n") auto
  then have d: "isdigit c" using showBase_digits [of n] by simp
  then have "\<not> isspace c" "c \<noteq> CHR ''_''" "c \<noteq> CHR ''-''" "c \<noteq> CHR ''+''" by (auto simp: isdigit_def isspace_def)
  then show ?thesis using that c d by blast
qed

lemma takeWhile_showBase [simp]: "takeWhile isdigit (showBase 10 n) = showBase 10 n"
  using showBase_digits [of n] by (subst takeWhile_eq_all_conv) blast

lemma arrayName_parts:
  "drop 1 (elektraWriteArrayNumber n) = replicate (length (showBase 10 n) - 1) (CHR ''_'') @ showBase 10 n"
  "takeWhile (\<lambda>c. c = CHR ''_'') (drop 1 (elektraWriteArrayNumber n)) = replicate (length (showBase 10 n) - 1) (CHR ''_'')"
  "dropWhile (\<lambda>c. c = CHR ''_'') (drop 1 (elektraWriteArrayNumber n)) = showBase 10 n"
proof -
  show e: "drop 1 (elektraWriteArrayNumber n) = replicate (length (showBase 10 n) - 1) (CHR ''_'') @ showBase 10 n"
    by (simp add: arrayName_eq)
  obtain c cs where c: "showBase 10 n = c # cs" "c \<noteq> CHR ''_''" by (rule showBase_first [of n])
  show "takeWhile (\<lambda>c. c = CHR ''_'') (drop 1 (elektraWriteArrayNumber n)) = replicate (length (showBase 10 n) - 1) (CHR ''_'')"
    "dropWhile (\<lambda>c. c = CHR ''_'') (drop 1 (elektraWriteArrayNumber n)) = showBase 10 n"
    unfolding e takeWhile_same dropWhile_same using c by simp_all
qed

lemma scanLL_showBase: "n < 2 ^ 63 \<Longrightarrow> scanLL (showBase 10 n) = Some (int n)"
proof -
  assume n: "n < 2 ^ 63"
  obtain c cs where c: "showBase 10 n = c # cs" "\<not> isspace c" "c \<noteq> CHR ''-''" "c \<noteq> CHR ''+''" by (rule showBase_first [of n])
  have d: "dropWhile isspace (showBase 10 n) = showBase 10 n" "(take 1 (showBase 10 n) = ''-'') = False" "(take 1 (showBase 10 n) = ''+'') = False"
    using c by simp_all
  show ?thesis
    unfolding scanLL_def Let_def d takeWhile_showBase if_False simp_thms digitsVal_showBase using n by simp
qed

lemma cstring_arrayName: "cstring (elektraWriteArrayNumber n)"
proof -
  have "NUL \<notin> set (showBase 10 n)" using showBase_digits [of n] by (auto simp: isdigit_def)
  then show ?thesis by (auto simp: cstring_def arrayName_eq)
qed

text \<open>The names of elements are valid as long as underscores and digits fit.\<close>

lemma validate_arrayName:
  assumes "keyBaseName (Some k) = Some (elektraWriteArrayNumber n)"
  shows "elektraArrayValidateName (Some k) = (if n < 10 ^ 10 then 1 else -1)"
proof -
  let ?l = "length (showBase 10 n)"
  obtain j where j: "?l = Suc j" by (cases ?l) auto
  have n: "(strcmp (elektraWriteArrayNumber n) ''#'' = 0) = False" "(take 1 (elektraWriteArrayNumber n) = ''#'') = True"
    using cstring_arrayName [of n] j by (auto simp: arrayName_eq strcmp_def)
  have d: "drop (length (replicate (?l - 1) (CHR ''_''))) (replicate (?l - 1) (CHR ''_'') @ showBase 10 n) = showBase 10 n" by simp
  have lim: "(?l - 1) + ?l > ELEKTRA_MAX_ARRAY_SIZE - 2 \<longleftrightarrow> \<not> n < 10 ^ 10"
    using length_showBase [of n 9] j by auto
  have "int (length (replicate (?l - 1) (CHR ''_''))) = int ?l - 1" using j by simp
  then show ?thesis
    unfolding elektraArrayValidateName_def assms option.case Let_def n if_False if_True arrayName_parts(1) takeWhile_same
    using lim d arrayName_parts(2) [of n] unfolding arrayName_parts(1) takeWhile_same by simp
qed

section \<open>The element after an element\<close>

lemma read_showBase: "n < 2 ^ 63 \<Longrightarrow> elektraReadArrayNumber (showBase 10 n) = (0, Some (int n))"
  by (simp add: elektraReadArrayNumber_def scanLL_showBase)

lemma length_arrayName: "length (elektraWriteArrayNumber n) + 1 > ELEKTRA_MAX_ARRAY_SIZE \<longleftrightarrow> \<not> n < 10 ^ 10"
proof -
  obtain j where j: "length (showBase 10 n) = Suc j" by (cases "showBase 10 n") auto
  then show ?thesis using length_showBase [of n 9] by (auto simp: arrayName_eq)
qed

lemma incName_valid:
  assumes "keyBaseName (Some k) = Some (elektraWriteArrayNumber n)" and "n < 10 ^ 10"
  shows "elektraArrayIncName k = (if Suc n < 10 ^ 10
    then (case snd (keySetBaseName (Some k) (Some (elektraWriteArrayNumber (Suc n)))) of None \<Rightarrow> None | Some k' \<Rightarrow> Some (0, k')) else None)"
proof -
  have r: "elektraReadArrayNumber (showBase 10 n) = (0, Some (int n))" using assms(2) by (intro read_showBase) simp
  have v: "elektraArrayValidateName (Some k) = 1" using validate_arrayName [OF assms(1)] assms(2) by simp
  have s: "nat (int n + 1) = Suc n" by simp
  show ?thesis
    unfolding elektraArrayIncName_def assms(1) v Let_def Option.bind_lunit arrayName_parts(3) r
    using length_arrayName [of "Suc n"] by (auto simp: s split: option.splits)
qed

lemma inc_named:
  assumes k: "named k root (ls @ [l])" and ro: "\<not> test_bit (flags k) KEY_FLAG_RO_NAME"
    and b: "keyBaseName (Some k) = Some (elektraWriteArrayNumber n)" and n: "Suc n < 10 ^ 10"
  obtains k' where "elektraArrayIncName k = Some (0, k')"
    "named k' root (ls @ [elektraEscapeKeyNamePart (elektraWriteArrayNumber (Suc n))])"
    "keyBaseName (Some k') = Some (elektraWriteArrayNumber (Suc n))" "uname k < uname k'"
proof -
  obtain k' where k': "keySetBaseName (Some k) (Some (elektraWriteArrayNumber (Suc n))) = (int (keySize k'), Some k')"
      "named k' root (ls @ [elektraEscapeKeyNamePart (elektraWriteArrayNumber (Suc n))])"
    by (rule keySetBaseName_named [OF k ro cstring_arrayName])
  have l: "unescPart l = elektraWriteArrayNumber n" using keyBaseName_named [OF k] b by simp
  have "uname k = mkuname root ls @ (elektraWriteArrayNumber n @ [NUL])" using k l by (simp add: named_def mkuname_snoc)
  moreover have "uname k' = mkuname root ls @ (elektraWriteArrayNumber (Suc n) @ [NUL])"
    using k'(2) by (simp add: named_def mkuname_snoc)
  ultimately have u: "uname k < uname k'" by (simp add: same_prefix_less arrayName_less)
  have "elektraArrayIncName k = Some (0, k')" using incName_valid [OF b] n k'(1) by simp
  moreover have "keyBaseName (Some k') = Some (elektraWriteArrayNumber (Suc n))" using keyBaseName_named [OF k'(2)] by simp
  ultimately show ?thesis using k'(2) u by (intro that)
qed

text \<open>C37: for a key whose base name is the number \<open>n\<close> of an array element, \<open>elektraArrayIncName\<close> gives it the base name of
  \<open>n + 1\<close>, behind the old one in the order of keysets; for \<open>n + 1 = 10 ^ 10\<close> the name does not fit into the local buffer
  (undefined behaviour), and names of larger numbers are refused with the key unchanged.
\<close>

theorem array_inc:
  assumes "named k root (ls @ [l])" and "\<not> test_bit (flags k) KEY_FLAG_RO_NAME"
    and "keyBaseName (Some k) = Some (elektraWriteArrayNumber n)"
  shows "(Suc n < 10 ^ 10 \<longrightarrow> (\<exists>k'. elektraArrayIncName k = Some (0, k')
      \<and> keyBaseName (Some k') = Some (elektraWriteArrayNumber (Suc n)) \<and> uname k < uname k'))
    \<and> (Suc n = 10 ^ 10 \<longrightarrow> elektraArrayIncName k = None)
    \<and> (10 ^ 10 < Suc n \<longrightarrow> elektraArrayIncName k = Some (-1, k))"
proof (intro conjI impI)
  assume "Suc n < 10 ^ 10"
  then show "\<exists>k'. elektraArrayIncName k = Some (0, k') \<and> keyBaseName (Some k') = Some (elektraWriteArrayNumber (Suc n)) \<and> uname k < uname k'"
    by (rule inc_named [OF assms]) blast
next
  assume "Suc n = 10 ^ 10"
  then show "elektraArrayIncName k = None" using incName_valid [OF assms(3)] by simp
next
  assume "10 ^ 10 < Suc n"
  then show "elektraArrayIncName k = Some (-1, k)"
    using validate_arrayName [OF assms(3)] assms(3) by (simp add: elektraArrayIncName_def)
qed

text \<open>C38: the names of array elements are in the order of their numbers, whatever follows them in a key name, and
  \<open>elektraReadArrayNumber\<close> reads back the number \<open>elektraWriteArrayNumber\<close> has written.
\<close>

theorem array_names_ordered:
  assumes "n < m" and "m < 2 ^ 63"
  shows "elektraWriteArrayNumber n @ x < elektraWriteArrayNumber m @ y
    \<and> elektraReadArrayNumber (dropWhile (\<lambda>c. c = CHR ''_'') (drop 1 (elektraWriteArrayNumber m))) = (0, Some (int m))"
  unfolding arrayName_parts(3) using arrayName_less [OF assms(1)] read_showBase [OF assms(2)] by blast

theorem array_names_ordered_witness:
  "elektraWriteArrayNumber 9 @ ''/b'' < elektraWriteArrayNumber 10 @ ''/a''
    \<and> elektraReadArrayNumber (dropWhile (\<lambda>c. c = CHR ''_'') (drop 1 (elektraWriteArrayNumber 10))) = (0, Some (int 10))"
  by (rule array_names_ordered) simp_all

definition arrayEx :: Key where
  "arrayEx = fst (snd (setNameCore keyInit (Some ''user/a/#9'') 0))"

lemma arrayEx_named: "named arrayEx (Some ''user'') ([''a''] @ [''#9''])"
  by code_simp

theorem array_inc_witness:
  "\<exists>k'. elektraArrayIncName arrayEx = Some (0, k') \<and> keyBaseName (Some k') = Some (elektraWriteArrayNumber (Suc 9)) \<and> uname arrayEx < uname k'"
proof -
  have ro: "\<not> test_bit (flags arrayEx) KEY_FLAG_RO_NAME" by code_simp
  have b: "keyBaseName (Some arrayEx) = Some (elektraWriteArrayNumber 9)"
    unfolding keyBaseName_named [OF arrayEx_named] by code_simp
  have "Suc 9 < (10::nat) ^ 10" by simp
  then show ?thesis using array_inc [OF arrayEx_named ro b] by blast
qed

end
