(* ===== verification/Vstack.thy ===== *)
theory Vstack
  imports Prelude
begin

text \<open>
  \<open>src/libs/elektra/opmphm_vstack.c\<close>: a stack of pointers in an array that is doubled when it is
  full and halved when it is a quarter full. A slot of the array is \<open>None\<close> until it is written;
  \<open>vs_head\<close> is \<open>head - data\<close>; where the code saves this difference in an \<open>int\<close> across a reallocation it is
  cut to 32 bits, and a negative one puts the head before the array. The size and the number of bytes to allocate
  wrap around at 64 bits. Whether \<open>elektraMalloc\<close> and \<open>elektraRealloc\<close> succeed is the argument
  \<open>memOk\<close> of the operations that call them; the outer \<open>None\<close> of a result is an access outside the array,
  and \<open>vs_ok\<close> excludes it.
\<close>

section \<open>The operations\<close>

record 'a Vstack =
  vs_minSize :: nat
  vs_size :: nat
  vs_data :: "'a option list"
  vs_head :: nat

definition reallocArr :: "'a option list \<Rightarrow> nat \<Rightarrow> 'a option list" where
  "reallocArr xs n = take n xs @ replicate (n - length xs) None"

text \<open>\<open>head - data\<close> in an \<open>int\<close>, and the slots of the array that \<open>size * sizeof (void *)\<close> bytes give.\<close>

definition headDiff :: "nat \<Rightarrow> int" where
  "headDiff n = toInt (int n)"

definition allocSlots :: "nat \<Rightarrow> nat" where
  "allocSlots n = (n * 8 mod 2 ^ 64) div 8"

text \<open>A reallocation for the given size; the result is \<open>None\<close> if the saved head is negative.\<close>

definition vsRealloc :: "nat \<Rightarrow> 'a Vstack \<Rightarrow> 'a Vstack option" where
  "vsRealloc n s = (let diff = headDiff (vs_head s) in
     if diff < 0 then None
     else Some (s\<lparr>vs_size := n, vs_data := reallocArr (vs_data s) (allocSlots n), vs_head := nat diff\<rparr>))"

definition elektraVstackInit :: "bool \<Rightarrow> nat \<Rightarrow> 'a Vstack option" where
  "elektraVstackInit memOk minSize =
     (if minSize < 1 then None
      else if \<not> memOk then None
      else Some \<lparr>vs_minSize = minSize, vs_size = minSize, vs_data = replicate (allocSlots minSize) None, vs_head = 0\<rparr>)"

definition elektraVstackPush :: "bool \<Rightarrow> 'a Vstack option \<Rightarrow> 'a \<Rightarrow> (int \<times> 'a Vstack option) option" where
  "elektraVstackPush memOk stack d = (case stack of None \<Rightarrow> Some (1, None)
     | Some s \<Rightarrow>
        let full = (vs_head s \<ge> vs_size s) in
        if full \<and> \<not> memOk then Some (1, Some s)
        else do {
          s1 \<leftarrow> (if full then vsRealloc (vs_size s * 2 mod 2 ^ 64) s else Some s);
          if vs_head s1 < length (vs_data s1)
          then Some (0, Some (s1\<lparr>vs_data := (vs_data s1)[vs_head s1 := Some d], vs_head := vs_head s1 + 1\<rparr>))
          else None })"

definition elektraVstackIsEmpty :: "'a Vstack option \<Rightarrow> int" where
  "elektraVstackIsEmpty stack = (case stack of None \<Rightarrow> -1 | Some s \<Rightarrow> if vs_head s = 0 then 1 else 0)"

text \<open>The inner result is the element, \<open>None\<close> for \<open>NULL\<close>.\<close>

definition elektraVstackPop :: "bool \<Rightarrow> 'a Vstack option \<Rightarrow> ('a option \<times> 'a Vstack option) option" where
  "elektraVstackPop memOk stack = (case stack of None \<Rightarrow> Some (None, None)
     | Some s \<Rightarrow>
        if elektraVstackIsEmpty (Some s) \<noteq> 0 then Some (None, Some s)
        else
          let s1 = s\<lparr>vs_head := vs_head s - 1\<rparr>;
              shrink = (vs_size s1 > vs_minSize s1 \<and> vs_head s1 \<le> vs_size s1 div 4)
          in if shrink \<and> \<not> memOk then Some (None, Some s)
             else do {
               s2 \<leftarrow> (if shrink then vsRealloc (vs_size s1 div 2) s1 else Some s1);
               if vs_head s2 < length (vs_data s2)
               then (case vs_data s2 ! vs_head s2 of None \<Rightarrow> None | Some d \<Rightarrow> Some (Some d, Some s2))
               else None })"

definition elektraVstackClear :: "'a Vstack option \<Rightarrow> int \<times> 'a Vstack option" where
  "elektraVstackClear stack = (case stack of None \<Rightarrow> (1, None) | Some s \<Rightarrow> (0, Some (s\<lparr>vs_head := 0\<rparr>)))"

section \<open>The invariant\<close>

text \<open>\<open>xs\<close> are the elements, the last pushed one at the end. At most \<open>2 ^ 31\<close> of them fit: the head of a full array is saved in an \<open>int\<close>.\<close>

definition vs_ok :: "'a Vstack \<Rightarrow> 'a list \<Rightarrow> bool" where
  "vs_ok s xs \<longleftrightarrow> length (vs_data s) = vs_size s \<and> vs_head s = length xs \<and> length xs \<le> vs_size s
     \<and> take (length xs) (vs_data s) = map Some xs
     \<and> length xs \<le> 2 ^ 31 \<and> vs_size s < 2 ^ 61
     \<and> 0 < vs_minSize s \<and> (\<exists>k. vs_size s = vs_minSize s * 2 ^ k)"

lemma length_reallocArr [simp]: "length (reallocArr xs n) = n"
  by (simp add: reallocArr_def)

lemma take_reallocArr: "k \<le> n \<Longrightarrow> k \<le> length xs \<Longrightarrow> take k (reallocArr xs n) = take k xs"
  by (simp add: reallocArr_def min_def)

lemma headDiff_small [simp]: "n < 2 ^ 31 \<Longrightarrow> headDiff n = int n"
  by (simp add: headDiff_def)

lemma allocSlots_small [simp]: "n < 2 ^ 61 \<Longrightarrow> allocSlots n = n"
  by (simp add: allocSlots_def)

lemma elektraVstackInit_ok:
  "0 < n \<Longrightarrow> n < 2 ^ 61 \<Longrightarrow> \<exists>s. elektraVstackInit True n = Some s \<and> vs_ok s []"
  by (simp add: elektraVstackInit_def vs_ok_def) (rule exI [of _ 0], simp)

lemma elektraVstackPush_ok:
  assumes "vs_ok s xs" "length xs < 2 ^ 31"
  shows "(\<exists>s'. elektraVstackPush memOk (Some s) x = Some (0, Some s') \<and> vs_ok s' (xs @ [x]))
    \<or> \<not> memOk \<and> elektraVstackPush memOk (Some s) x = Some (1, Some s)"
proof -
  let ?full = "vs_head s \<ge> vs_size s"
  define s1 where "s1 = (if ?full then s\<lparr>vs_size := vs_size s * 2, vs_data := reallocArr (vs_data s) (vs_size s * 2)\<rparr> else s)"
  from assms obtain k where a: "length (vs_data s) = vs_size s" "vs_head s = length xs" "length xs \<le> vs_size s"
    "take (length xs) (vs_data s) = map Some xs" "0 < vs_minSize s" "vs_size s = vs_minSize s * 2 ^ k" "vs_size s < 2 ^ 61" by (auto simp: vs_ok_def)
  have grow: "vs_size s * 2 < 2 ^ 61" if ?full using that assms(2) a(2,3) by simp
  have r: "(if ?full then vsRealloc (vs_size s * 2 mod 2 ^ 64) s else Some s) = Some s1"
    using grow a(2) assms(2) by (auto simp: s1_def vsRealloc_def Let_def)
  have pos: "0 < vs_size s" using a by simp
  have k': "\<exists>k. vs_size s1 = vs_minSize s1 * 2 ^ k" unfolding s1_def
    using a(6) by (cases ?full) (auto intro: exI [of _ "Suc k"])
  have b: "vs_head s1 = length xs" "length xs < vs_size s1" "length (vs_data s1) = vs_size s1" "vs_minSize s1 = vs_minSize s"
    "take (length xs) (vs_data s1) = map Some xs" "vs_size s1 < 2 ^ 61"
    using a pos grow by (auto simp: s1_def take_reallocArr)
  let ?s' = "s1\<lparr>vs_data := (vs_data s1)[vs_head s1 := Some x], vs_head := vs_head s1 + 1\<rparr>"
  have "vs_ok ?s' (xs @ [x])"
    using b a(5) k' assms(2) by (simp add: vs_ok_def take_Suc_conv_app_nth)
  moreover have "elektraVstackPush memOk (Some s) x = (if ?full \<and> \<not> memOk then Some (1, Some s) else Some (0, Some ?s'))"
    unfolding elektraVstackPush_def option.case Let_def r using b by simp
  ultimately show ?thesis by auto
qed

lemma elektraVstackPop_ok:
  assumes "vs_ok s (xs @ [x])"
  shows "(\<exists>s'. elektraVstackPop memOk (Some s) = Some (Some x, Some s') \<and> vs_ok s' xs)
    \<or> \<not> memOk \<and> elektraVstackPop memOk (Some s) = Some (None, Some s)"
proof -
  define s1 where "s1 = s\<lparr>vs_head := vs_head s - 1\<rparr>"
  let ?shrink = "vs_size s1 > vs_minSize s1 \<and> vs_head s1 \<le> vs_size s1 div 4"
  define s2 where "s2 = (if ?shrink then s1\<lparr>vs_size := vs_size s1 div 2, vs_data := reallocArr (vs_data s1) (vs_size s1 div 2)\<rparr> else s1)"
  from assms obtain k where a: "length (vs_data s) = vs_size s" "vs_head s = Suc (length xs)" "Suc (length xs) \<le> vs_size s"
    "take (Suc (length xs)) (vs_data s) = map Some xs @ [Some x]" "0 < vs_minSize s" "vs_size s = vs_minSize s * 2 ^ k"
    "vs_size s < 2 ^ 61" "length xs < 2 ^ 31"
    by (auto simp: vs_ok_def)
  have at: "vs_data s ! length xs = Some x" "take (length xs) (vs_data s) = map Some xs"
    using a(1,3,4) by (auto simp: take_Suc_conv_app_nth)
  have sz: "\<exists>k. vs_size s2 = vs_minSize s2 * 2 ^ k"
  proof (cases ?shrink)
    case True
    then obtain j where "k = Suc j" using a(6) by (cases k) (auto simp: s1_def)
    then show ?thesis using a(6) True by (auto simp: s2_def s1_def)
  next
    case False
    then show ?thesis using a(6) by (auto simp: s2_def s1_def)
  qed
  have h: "length xs < vs_size s div 2" if ?shrink
  proof -
    have "2 \<le> vs_size s" using that a(5) by (simp add: s1_def)
    then have "vs_size s div 4 < vs_size s div 2" by presburger
    then show ?thesis using that a(2) by (simp add: s1_def)
  qed
  have b: "vs_head s2 = length xs" "length xs < vs_size s2" "length (vs_data s2) = vs_size s2" "vs_minSize s2 = vs_minSize s"
    "take (length xs) (vs_data s2) = map Some xs" "vs_data s2 ! length xs = Some x"
    using a at h by (auto simp: s2_def s1_def take_reallocArr) (simp add: reallocArr_def nth_append)
  have r: "(if ?shrink then vsRealloc (vs_size s1 div 2) s1 else Some s1) = Some s2"
    using a(2,7,8) by (simp add: s2_def s1_def vsRealloc_def Let_def)
  have "vs_size s2 < 2 ^ 61" using le_less_trans [OF div_le_dividend a(7), of 2] a(7) by (simp add: s2_def s1_def)
  then have "vs_ok s2 xs" using b a(5,8) sz by (simp add: vs_ok_def)
  moreover have "elektraVstackPop memOk (Some s) = (if ?shrink \<and> \<not> memOk then Some (None, Some s) else Some (Some x, Some s2))"
    unfolding elektraVstackPop_def elektraVstackIsEmpty_def option.case Let_def s1_def [symmetric] r
    using b a(2) by simp
  ultimately show ?thesis by auto
qed

lemma elektraVstackPop_empty: "vs_ok s [] \<Longrightarrow> elektraVstackPop memOk (Some s) = Some (None, Some s)"
  by (simp add: elektraVstackPop_def elektraVstackIsEmpty_def vs_ok_def)

lemma elektraVstackClear_ok: "vs_ok s xs \<Longrightarrow> \<exists>s'. elektraVstackClear (Some s) = (0, Some s') \<and> vs_ok s' []"
  by (auto simp: elektraVstackClear_def vs_ok_def)

text \<open>A full stack of \<open>2 ^ 31\<close> elements cannot grow.\<close>

lemma push_overflows:
  assumes "vs_head s = 2 ^ 31" "vs_size s = 2 ^ 31"
  shows "elektraVstackPush True (Some s) x = None"
  using assms by (simp add: elektraVstackPush_def vsRealloc_def Let_def headDiff_def toInt_def)

section \<open>The contract of a stack\<close>

text \<open>What a client of a stack may rely on when memory does not run out and the stack does not grow beyond its capacity.\<close>

locale lifo =
  fixes capacity :: nat
    and holds :: "'s \<Rightarrow> 'a list \<Rightarrow> bool"
    and push :: "'s \<Rightarrow> 'a \<Rightarrow> 's option"
    and pop :: "'s \<Rightarrow> ('a option \<times> 's) option"
  assumes push_holds: "holds s xs \<Longrightarrow> length xs < capacity \<Longrightarrow> \<exists>s'. push s x = Some s' \<and> holds s' (xs @ [x])"
    and pop_holds: "holds s (xs @ [x]) \<Longrightarrow> \<exists>s'. pop s = Some (Some x, s') \<and> holds s' xs"
    and pop_empty: "holds s [] \<Longrightarrow> pop s = Some (None, s)"

text \<open>Pushing the elements of a list one after the other, and popping until the stack is empty.\<close>

fun pushAll :: "('s \<Rightarrow> 'a \<Rightarrow> 's option) \<Rightarrow> 's \<Rightarrow> 'a list \<Rightarrow> 's option" where
  "pushAll push s [] = Some s"
| "pushAll push s (x # xs) = (case push s x of None \<Rightarrow> None | Some s' \<Rightarrow> pushAll push s' xs)"

fun popAll :: "('s \<Rightarrow> ('a option \<times> 's) option) \<Rightarrow> nat \<Rightarrow> 's \<Rightarrow> ('a list \<times> 's) option" where
  "popAll pop 0 s = None"
| "popAll pop (Suc n) s = (case pop s of
     None \<Rightarrow> None
   | Some (None, s') \<Rightarrow> Some ([], s')
   | Some (Some x, s') \<Rightarrow> (case popAll pop n s' of None \<Rightarrow> None | Some (ys, s'') \<Rightarrow> Some (x # ys, s'')))"

context lifo
begin

lemma pushAll_holds: "holds s xs \<Longrightarrow> length (xs @ ys) \<le> capacity \<Longrightarrow> \<exists>s'. pushAll push s ys = Some s' \<and> holds s' (xs @ ys)"
proof (induction ys arbitrary: s xs)
  case (Cons y ys)
  have "length xs < capacity" using Cons.prems(2) by simp
  then obtain s1 where s1: "push s y = Some s1" "holds s1 (xs @ [y])" using push_holds [OF Cons.prems(1)] by blast
  then show ?case using Cons.IH [OF s1(2)] Cons.prems(2) by simp
qed simp

lemma popAll_holds: "holds s xs \<Longrightarrow> length xs < n \<Longrightarrow> \<exists>s'. popAll pop n s = Some (rev xs, s') \<and> holds s' []"
proof (induction xs arbitrary: s n rule: rev_induct)
  case Nil
  then show ?case using pop_empty by (cases n) auto
next
  case (snoc x xs)
  then obtain s1 where s1: "pop s = Some (Some x, s1)" "holds s1 xs" using pop_holds by blast
  obtain k where "n = Suc k" "length xs < k" using snoc.prems(2) by (cases n) auto
  moreover obtain s2 where "popAll pop k s1 = Some (rev xs, s2)" "holds s2 []" using snoc.IH [OF s1(2)] \<open>length xs < k\<close> by blast
  ultimately show ?case using s1(1) by simp
qed

lemma push_pop: "holds s [] \<Longrightarrow> length ys < n \<Longrightarrow> length ys \<le> capacity \<Longrightarrow>
  \<exists>s1 s2. pushAll push s ys = Some s1 \<and> popAll pop n s1 = Some (rev ys, s2) \<and> holds s2 []"
  using pushAll_holds [of s "[]" ys] popAll_holds by fastforce

end

text \<open>The vstack with memory to spare.\<close>

definition vsPush :: "'a Vstack \<Rightarrow> 'a \<Rightarrow> 'a Vstack option" where
  "vsPush s x = (case elektraVstackPush True (Some s) x of Some (_, s') \<Rightarrow> s' | None \<Rightarrow> None)"

definition vsPop :: "'a Vstack \<Rightarrow> ('a option \<times> 'a Vstack) option" where
  "vsPop s = (case elektraVstackPop True (Some s) of Some (x, Some s') \<Rightarrow> Some (x, s') | _ \<Rightarrow> None)"

interpretation vs: lifo "2 ^ 31" vs_ok vsPush vsPop
proof
  show "\<exists>s'. vsPush s x = Some s' \<and> vs_ok s' (xs @ [x])" if "vs_ok s xs" "length xs < 2 ^ 31" for s :: "'a Vstack" and xs x
    using elektraVstackPush_ok [OF that, of True x] by (auto simp: vsPush_def)
  show "\<exists>s'. vsPop s = Some (Some x, s') \<and> vs_ok s' xs" if "vs_ok s (xs @ [x])" for s :: "'a Vstack" and xs x
    using elektraVstackPop_ok [OF that, of True] by (auto simp: vsPop_def)
  show "vsPop s = Some (None, s)" if "vs_ok s []" for s :: "'a Vstack"
    using elektraVstackPop_empty [OF that, of True] by (simp add: vsPop_def)
qed

section \<open>Properties\<close>

text \<open>C23: pushing any list on a new stack and popping until it is empty gives the list in reverse, through
  every doubling and halving of the array, for up to \<open>2 ^ 31\<close> elements; beyond, the head that is saved in an \<open>int\<close> is lost (\<open>push_overflows\<close>).\<close>

theorem vstack_lifo:
  assumes "0 < minSize" "minSize < 2 ^ 61" "length ys < n" "length ys \<le> 2 ^ 31"
  shows "\<exists>s0 s1 s2. elektraVstackInit True minSize = Some s0 \<and> pushAll vsPush s0 ys = Some s1
     \<and> popAll vsPop n s1 = Some (rev ys, s2) \<and> elektraVstackIsEmpty (Some s2) = 1"
proof -
  obtain s0 :: "'a Vstack" where s0: "elektraVstackInit True minSize = Some s0" "vs_ok s0 []"
    using elektraVstackInit_ok [OF assms(1,2)] by blast
  obtain s1 s2 where "pushAll vsPush s0 ys = Some s1" "popAll vsPop n s1 = Some (rev ys, s2)" "vs_ok s2 []"
    using vs.push_pop [OF s0(2) assms(3,4)] by blast
  moreover from this have "elektraVstackIsEmpty (Some s2) = 1" by (simp add: elektraVstackIsEmpty_def vs_ok_def)
  ultimately show ?thesis using s0(1) by blast
qed

theorem vstack_lifo_witness:
  "\<exists>s0 s1 s2. elektraVstackInit True 1 = Some s0 \<and> pushAll vsPush s0 [3 :: nat, 1, 4, 1, 5] = Some s1
     \<and> popAll vsPop 6 s1 = Some (rev [3, 1, 4, 1, 5], s2) \<and> elektraVstackIsEmpty (Some s2) = 1"
  by (rule vstack_lifo) simp_all

text \<open>When the allocator fails, pushing and popping report the error and leave the stack as it was;
  no operation touches memory outside the array.\<close>

theorem vstack_no_memory:
  assumes "vs_ok s xs" "length xs < 2 ^ 31"
  shows "(elektraVstackPush False (Some s) x = Some (1, Some s)
       \<or> (\<exists>s'. elektraVstackPush False (Some s) x = Some (0, Some s') \<and> vs_ok s' (xs @ [x])))
    \<and> (elektraVstackPop False (Some s) = Some (None, Some s)
       \<or> (\<exists>ys y s'. xs = ys @ [y] \<and> elektraVstackPop False (Some s) = Some (Some y, Some s') \<and> vs_ok s' ys))"
  using elektraVstackPush_ok [OF assms, of False x] elektraVstackPop_ok [of s _ _ False]
    elektraVstackPop_empty [of s False] assms(1)
  by (cases xs rule: rev_cases) blast+

theorem vstack_no_memory_witness:
  "elektraVstackPush False (Some \<lparr>vs_minSize = 1, vs_size = 1, vs_data = [Some 7], vs_head = 1\<rparr>) (8 :: nat)
     = Some (1, Some \<lparr>vs_minSize = 1, vs_size = 1, vs_data = [Some 7], vs_head = 1\<rparr>)"
proof -
  have "vs_ok \<lparr>vs_minSize = 1, vs_size = 1, vs_data = [Some 7], vs_head = 1\<rparr> [7 :: nat]"
    by (simp add: vs_ok_def) (rule exI [of _ 0], simp)
  from vstack_no_memory [OF this, of 8] show ?thesis by (simp add: elektraVstackPush_def)
qed

end
