(* ===== verification/Vheap.thy ===== *)
theory Vheap
  imports Vstack "HOL-Library.Multiset"
begin

text \<open>
  \<open>src/libs/elektra/opmphm_vheap.c\<close>: a binary heap of pointers in an array, ordered by a comparison
  function of the caller. As for the vstack, a slot is \<open>None\<close> until it is written, an access to such a
  slot or outside the array makes the result \<open>None\<close>, and \<open>memOk\<close> says whether the allocator succeeds.
\<close>

section \<open>The operations\<close>

record 'a Vheap =
  vh_minSize :: nat
  vh_size :: nat
  vh_count :: nat
  vh_comp :: "'a \<Rightarrow> 'a \<Rightarrow> bool"
  vh_data :: "'a option list"

definition rdSlot :: "'a option list \<Rightarrow> nat \<Rightarrow> 'a option" where
  "rdSlot ds i = (if i < length ds then ds ! i else None)"

definition wrSlot :: "'a option list \<Rightarrow> nat \<Rightarrow> 'a \<Rightarrow> 'a option list option" where
  "wrSlot ds i x = (if i < length ds then Some (ds[i := Some x]) else None)"

definition elektraVheapInit :: "bool \<Rightarrow> ('a \<Rightarrow> 'a \<Rightarrow> bool) option \<Rightarrow> nat \<Rightarrow> 'a Vheap option" where
  "elektraVheapInit memOk cmp minSize =
     (if minSize < 1 then None
      else (case cmp of None \<Rightarrow> None
        | Some c \<Rightarrow> if \<not> memOk then None
            else Some \<lparr>vh_minSize = minSize, vh_size = minSize, vh_count = 0, vh_comp = c, vh_data = replicate minSize None\<rparr>))"

definition elektraVheapIsEmpty :: "'a Vheap option \<Rightarrow> int" where
  "elektraVheapIsEmpty vheap = (case vheap of None \<Rightarrow> -1 | Some h \<Rightarrow> if vh_count h = 0 then 1 else 0)"

definition elektraVheapClear :: "'a Vheap option \<Rightarrow> int \<times> 'a Vheap option" where
  "elektraVheapClear vheap = (case vheap of None \<Rightarrow> (1, None) | Some h \<Rightarrow> (0, Some (h\<lparr>vh_count := 0\<rparr>)))"

text \<open>The loop of the insertion moves the parents down until the place of the new element is found.\<close>

function siftUp :: "('a \<Rightarrow> 'a \<Rightarrow> bool) \<Rightarrow> 'a option list \<Rightarrow> 'a \<Rightarrow> nat \<Rightarrow> 'a option list option" where
  "siftUp cmp ds d pos =
     (if pos = 0 then wrSlot ds pos d
      else let parent = (pos - 1) div 2 in do {
        p \<leftarrow> rdSlot ds parent;
        if cmp p d then wrSlot ds pos d
        else do { ds' \<leftarrow> wrSlot ds pos p; siftUp cmp ds' d parent } })"
  by pat_completeness auto
termination by (relation "measure (\<lambda>(_, _, _, pos). pos)") auto

declare siftUp.simps [simp del]

definition elektraVheapInsert :: "bool \<Rightarrow> 'a Vheap option \<Rightarrow> 'a \<Rightarrow> (int \<times> 'a Vheap option) option" where
  "elektraVheapInsert memOk vheap d = (case vheap of None \<Rightarrow> Some (1, None)
     | Some h \<Rightarrow>
        let h1 = h\<lparr>vh_count := vh_count h + 1\<rparr>;
            full = (vh_count h1 > vh_size h1)
        in if full \<and> \<not> memOk then Some (1, Some h)
           else
             let h2 = (if full then h1\<lparr>vh_size := vh_size h1 * 2, vh_data := reallocArr (vh_data h1) (vh_size h1 * 2)\<rparr> else h1)
             in do { ds \<leftarrow> siftUp (vh_comp h2) (vh_data h2) d (vh_count h2 - 1);
                     Some (0, Some (h2\<lparr>vh_data := ds\<rparr>)) })"

text \<open>The loop of the removal exchanges the element with its smaller child, as long as there is one.\<close>

function siftDown :: "('a \<Rightarrow> 'a \<Rightarrow> bool) \<Rightarrow> nat \<Rightarrow> 'a option list \<Rightarrow> nat \<Rightarrow> nat \<Rightarrow> 'a option list option" where
  "siftDown cmp n ds elem child =
     (if child < n then do {
        child' \<leftarrow> (if child + 1 < n then do {
             r \<leftarrow> rdSlot ds (child + 1); l \<leftarrow> rdSlot ds child;
             Some (if cmp r l then child + 1 else child) } else Some child);
        c \<leftarrow> rdSlot ds child';
        e \<leftarrow> rdSlot ds elem;
        if cmp c e then do {
          ds1 \<leftarrow> wrSlot ds child' e;
          ds2 \<leftarrow> wrSlot ds1 elem c;
          siftDown cmp n ds2 child' (2 * child' + 1) }
        else Some ds }
      else Some ds)"
  by pat_completeness auto
termination
  by (relation "measure (\<lambda>(_, n, _, _, child). n - child)")
    (auto simp: bind_eq_Some_conv split: if_splits)

declare siftDown.simps [simp del]

definition elektraVheapRemove :: "bool \<Rightarrow> 'a Vheap option \<Rightarrow> ('a option \<times> 'a Vheap option) option" where
  "elektraVheapRemove memOk vheap = (case vheap of None \<Rightarrow> Some (None, None)
     | Some h \<Rightarrow>
        if elektraVheapIsEmpty (Some h) \<noteq> 0 then Some (None, Some h)
        else
          let h1 = h\<lparr>vh_count := vh_count h - 1\<rparr>;
              shrink = (vh_size h1 > vh_minSize h1 \<and> vh_count h1 \<le> vh_size h1 div 4)
          in if shrink \<and> \<not> memOk then Some (None, Some h)
             else
               let h2 = (if shrink then h1\<lparr>vh_size := vh_size h1 div 2, vh_data := reallocArr (vh_data h1) (vh_size h1 div 2)\<rparr> else h1)
               in do {
                 ret \<leftarrow> rdSlot (vh_data h2) 0;
                 l \<leftarrow> rdSlot (vh_data h2) (vh_count h2);
                 ds \<leftarrow> wrSlot (vh_data h2) 0 l;
                 ds' \<leftarrow> siftDown (vh_comp h2) (vh_count h2) ds 0 1;
                 Some (Some ret, Some (h2\<lparr>vh_data := ds'\<rparr>)) })"

section \<open>The loops on the list of elements\<close>

function siftUpL :: "('a \<Rightarrow> 'a \<Rightarrow> bool) \<Rightarrow> 'a list \<Rightarrow> 'a \<Rightarrow> nat \<Rightarrow> 'a list" where
  "siftUpL cmp ys d pos =
     (if pos = 0 then ys[pos := d]
      else if cmp (ys ! ((pos - 1) div 2)) d then ys[pos := d]
      else siftUpL cmp (ys[pos := ys ! ((pos - 1) div 2)]) d ((pos - 1) div 2))"
  by pat_completeness auto
termination by (relation "measure (\<lambda>(_, _, _, pos). pos)") auto

declare siftUpL.simps [simp del]

definition smallerChild :: "('a \<Rightarrow> 'a \<Rightarrow> bool) \<Rightarrow> 'a list \<Rightarrow> nat \<Rightarrow> nat" where
  "smallerChild cmp ys child =
     (if child + 1 < length ys \<and> cmp (ys ! (child + 1)) (ys ! child) then child + 1 else child)"

function siftDownL :: "('a \<Rightarrow> 'a \<Rightarrow> bool) \<Rightarrow> 'a list \<Rightarrow> nat \<Rightarrow> nat \<Rightarrow> 'a list" where
  "siftDownL cmp ys elem child =
     (if child < length ys \<and> cmp (ys ! smallerChild cmp ys child) (ys ! elem)
      then siftDownL cmp (ys[smallerChild cmp ys child := ys ! elem, elem := ys ! smallerChild cmp ys child])
             (smallerChild cmp ys child) (2 * smallerChild cmp ys child + 1)
      else ys)"
  by pat_completeness auto
termination
  by (relation "measure (\<lambda>(_, ys, _, child). length ys - child)") (auto simp: smallerChild_def)

declare siftDownL.simps [simp del]

lemma rdSlot_prefix [simp]: "i < length ys \<Longrightarrow> rdSlot (map Some ys @ r) i = Some (ys ! i)"
  by (simp add: rdSlot_def nth_append)

lemma wrSlot_prefix [simp]: "i < length ys \<Longrightarrow> wrSlot (map Some ys @ r) i x = Some (map Some (ys[i := x]) @ r)"
  by (simp add: wrSlot_def list_update_append map_update)

lemma siftUp_list: "pos < length ys \<Longrightarrow> siftUp cmp (map Some ys @ r) d pos = Some (map Some (siftUpL cmp ys d pos) @ r)"
proof (induction cmp ys d pos rule: siftUpL.induct)
  case (1 cmp ys d pos)
  have "(pos - 1) div 2 < length ys" using "1.prems" by simp
  then show ?case using 1 by (cases "pos = 0"; subst siftUp.simps, subst siftUpL.simps) (simp_all add: Let_def)
qed

lemma smallerChild_bounds: "child < length ys \<Longrightarrow> child \<le> smallerChild cmp ys child \<and> smallerChild cmp ys child < length ys \<and> smallerChild cmp ys child \<le> child + 1"
  by (simp add: smallerChild_def)

lemma siftDown_list:
  "elem < length ys \<Longrightarrow> siftDown cmp (length ys) (map Some ys @ r) elem child = Some (map Some (siftDownL cmp ys elem child) @ r)"
proof (induction cmp ys elem child rule: siftDownL.induct)
  case (1 cmp ys elem child)
  show ?case
  proof (cases "child < length ys")
    case True
    define c where "c = smallerChild cmp ys child"
    have c: "c < length ys" using smallerChild_bounds [OF True] by (simp add: c_def)
    have "(if child + 1 < length ys then do {
             x \<leftarrow> rdSlot (map Some ys @ r) (child + 1); y \<leftarrow> rdSlot (map Some ys @ r) child;
             Some (if cmp x y then child + 1 else child) } else Some child) = Some c"
      using True by (simp add: c_def smallerChild_def)
    then have "siftDown cmp (length ys) (map Some ys @ r) elem child =
      (if cmp (ys ! c) (ys ! elem) then siftDown cmp (length ys) (map Some (ys[c := ys ! elem, elem := ys ! c]) @ r) c (2 * c + 1)
       else Some (map Some ys @ r))"
      using True c "1.prems" by (subst siftDown.simps) simp
    moreover have "siftDownL cmp ys elem child =
      (if cmp (ys ! c) (ys ! elem) then siftDownL cmp (ys[c := ys ! elem, elem := ys ! c]) c (2 * c + 1) else ys)"
      using True by (subst siftDownL.simps) (simp add: c_def)
    ultimately show ?thesis using 1 True c unfolding c_def by simp
  next
    case False
    then show ?thesis by (subst siftDown.simps, subst siftDownL.simps) simp
  qed
qed

lemma length_siftUpL [simp]: "length (siftUpL cmp ys d pos) = length ys"
  by (induction cmp ys d pos rule: siftUpL.induct) (subst siftUpL.simps, simp)

lemma length_siftDownL [simp]: "length (siftDownL cmp ys e c) = length ys"
  by (induction cmp ys e c rule: siftDownL.induct) (subst siftDownL.simps, simp)

lemma mset_hole: "i < length ys \<Longrightarrow> p < length ys \<Longrightarrow> p \<noteq> i \<Longrightarrow> mset (ys[i := ys ! p, p := d]) = mset (ys[i := d])"
proof -
  assume a: "i < length ys" "p < length ys" "p \<noteq> i"
  have "mset ((ys[i := d])[p := (ys[i := d]) ! i, i := (ys[i := d]) ! p]) = mset (ys[i := d])"
    using a by (intro mset_swap) simp_all
  moreover have "(ys[i := d])[p := (ys[i := d]) ! i, i := (ys[i := d]) ! p] = ys[i := ys ! p, p := d]"
    using a by (intro nth_equalityI) (auto simp: nth_list_update)
  ultimately show ?thesis by simp
qed

lemma mset_siftUpL: "pos < length ys \<Longrightarrow> mset (siftUpL cmp ys d pos) = mset (ys[pos := d])"
proof (induction cmp ys d pos rule: siftUpL.induct)
  case (1 cmp ys d pos)
  show ?case
  proof (cases "pos = 0 \<or> cmp (ys ! ((pos - 1) div 2)) d")
    case True
    then show ?thesis by (subst siftUpL.simps) auto
  next
    case False
    then have "mset (siftUpL cmp ys d pos) = mset (ys[pos := ys ! ((pos - 1) div 2), (pos - 1) div 2 := d])"
      using 1 by (subst siftUpL.simps) simp
    also have "\<dots> = mset (ys[pos := d])" using False "1.prems" by (intro mset_hole) auto
    finally show ?thesis .
  qed
qed

lemma mset_siftDownL: "elem < length ys \<Longrightarrow> mset (siftDownL cmp ys elem child) = mset ys"
proof (induction cmp ys elem child rule: siftDownL.induct)
  case (1 cmp ys elem child)
  show ?case
  proof (cases "child < length ys \<and> cmp (ys ! smallerChild cmp ys child) (ys ! elem)")
    case True
    let ?c = "smallerChild cmp ys child"
    have c: "?c < length ys" using smallerChild_bounds True by blast
    have "mset (siftDownL cmp ys elem child) = mset (ys[?c := ys ! elem, elem := ys ! ?c])"
      using 1 True c by (subst siftDownL.simps) simp
    also have "\<dots> = mset ys" using "1.prems" c by (rule mset_swap)
    finally show ?thesis .
  next
    case False
    then show ?thesis by (subst siftDownL.simps) auto
  qed
qed

section \<open>Order\<close>

abbreviation parent :: "nat \<Rightarrow> nat" where "parent i \<equiv> (i - 1) div 2"

definition heap_ordered :: "('a \<Rightarrow> 'k :: linorder) \<Rightarrow> 'a list \<Rightarrow> bool" where
  "heap_ordered rank ys \<longleftrightarrow> (\<forall>i < length ys. 0 < i \<longrightarrow> rank (ys ! parent i) \<le> rank (ys ! i))"

definition up_hole :: "('a \<Rightarrow> 'k :: linorder) \<Rightarrow> 'a list \<Rightarrow> nat \<Rightarrow> 'a \<Rightarrow> bool" where
  "up_hole rank ys pos d \<longleftrightarrow>
     (\<forall>i < length ys. 0 < i \<longrightarrow> i \<noteq> pos \<longrightarrow> parent i \<noteq> pos \<longrightarrow> rank (ys ! parent i) \<le> rank (ys ! i))
     \<and> (\<forall>c < length ys. 0 < c \<longrightarrow> parent c = pos \<longrightarrow>
          rank d \<le> rank (ys ! c) \<and> (0 < pos \<longrightarrow> rank (ys ! parent pos) \<le> rank (ys ! c)))"

definition down_hole :: "('a \<Rightarrow> 'k :: linorder) \<Rightarrow> 'a list \<Rightarrow> nat \<Rightarrow> bool" where
  "down_hole rank ys elem \<longleftrightarrow>
     (\<forall>i < length ys. 0 < i \<longrightarrow> parent i \<noteq> elem \<longrightarrow> rank (ys ! parent i) \<le> rank (ys ! i))
     \<and> (\<forall>c < length ys. 0 < c \<longrightarrow> parent c = elem \<longrightarrow> 0 < elem \<longrightarrow> rank (ys ! parent elem) \<le> rank (ys ! c))"

abbreviation less_rank :: "('a \<Rightarrow> 'k :: linorder) \<Rightarrow> 'a \<Rightarrow> 'a \<Rightarrow> bool" where
  "less_rank rank \<equiv> (\<lambda>a b. rank a < rank b)"

lemma parent_less: "0 < i \<Longrightarrow> parent i < i"
  by (cases i) auto

lemma siftUpL_ordered:
  "pos < length ys \<Longrightarrow> up_hole rank ys pos d \<Longrightarrow> heap_ordered rank (siftUpL (less_rank rank) ys d pos)"
proof (induction "less_rank rank" ys d pos rule: siftUpL.induct)
  case (1 ys d pos)
  let ?p = "parent pos"
  have a: "\<And>i. i < length ys \<Longrightarrow> 0 < i \<Longrightarrow> i \<noteq> pos \<Longrightarrow> parent i \<noteq> pos \<Longrightarrow> rank (ys ! parent i) \<le> rank (ys ! i)"
    "\<And>c. c < length ys \<Longrightarrow> 0 < c \<Longrightarrow> parent c = pos \<Longrightarrow> rank d \<le> rank (ys ! c)"
    "\<And>c. c < length ys \<Longrightarrow> 0 < c \<Longrightarrow> parent c = pos \<Longrightarrow> 0 < pos \<Longrightarrow> rank (ys ! ?p) \<le> rank (ys ! c)"
    using "1.prems"(2) by (simp_all add: up_hole_def)
  show ?case
  proof (cases "pos = 0 \<or> rank (ys ! ?p) < rank d")
    case True
    have "rank (ys[pos := d] ! parent i) \<le> rank (ys[pos := d] ! i)" if i: "i < length ys" "0 < i" for i
    proof -
      consider "i = pos" | "parent i = pos" "i \<noteq> pos" | "i \<noteq> pos" "parent i \<noteq> pos" by blast
      then show ?thesis
      proof cases
        case 1
        then show ?thesis using True i parent_less [of i] by (auto simp: nth_list_update)
      next
        case 2
        then show ?thesis using a(2) [OF i] i by simp
      next
        case 3
        then show ?thesis using a(1) [OF i] by simp
      qed
    qed
    moreover have "siftUpL (less_rank rank) ys d pos = ys[pos := d]" using True by (subst siftUpL.simps) auto
    ultimately show ?thesis by (simp add: heap_ordered_def)
  next
    case False
    let ?ys = "ys[pos := ys ! ?p]"
    have p: "?p < pos" "?p < length ys" using False "1.prems"(1) parent_less [of pos] by auto
    have grand: "rank (ys ! parent ?p) \<le> rank (ys ! ?p)" if "0 < ?p"
      using a(1) [OF p(2) that] p(1) parent_less [OF that] by simp
    have "up_hole rank ?ys ?p d"
      unfolding up_hole_def
    proof (intro conjI allI impI)
      fix i assume i: "i < length ?ys" "0 < i" "i \<noteq> ?p" "parent i \<noteq> ?p"
      then have "i \<noteq> pos" by blast
      moreover have "rank (?ys ! parent i) \<le> rank (ys ! i)"
        using a(1,3) i False \<open>i \<noteq> pos\<close> by (cases "parent i = pos") (auto simp: nth_list_update)
      ultimately show "rank (?ys ! parent i) \<le> rank (?ys ! i)" by simp
    next
      fix c assume c: "c < length ?ys" "0 < c" "parent c = ?p"
      have "rank (ys ! ?p) \<le> rank (?ys ! c)"
        using a(1) [of c] c p by (cases "c = pos") auto
      then show "rank d \<le> rank (?ys ! c)" using False by auto
      show "rank (?ys ! parent ?p) \<le> rank (?ys ! c)" if "0 < ?p"
      proof -
        have "parent ?p \<noteq> pos" using parent_less [OF that] p(1) by simp
        then show ?thesis using grand [OF that] \<open>rank (ys ! ?p) \<le> rank (?ys ! c)\<close> by auto
      qed
    qed
    then show ?thesis using False 1 p by (subst siftUpL.simps) simp
  qed
qed

lemma children: "0 < c \<Longrightarrow> parent c = e \<longleftrightarrow> c = 2 * e + 1 \<or> c = 2 * e + 2"
  by (cases c) auto

lemma siftDownL_ordered:
  "elem < length ys \<Longrightarrow> child = 2 * elem + 1 \<Longrightarrow> down_hole rank ys elem \<Longrightarrow> heap_ordered rank (siftDownL (less_rank rank) ys elem child)"
proof (induction "less_rank rank" ys elem child rule: siftDownL.induct)
  case (1 ys elem child)
  let ?c = "smallerChild (less_rank rank) ys child"
  have a: "\<And>i. i < length ys \<Longrightarrow> 0 < i \<Longrightarrow> parent i \<noteq> elem \<Longrightarrow> rank (ys ! parent i) \<le> rank (ys ! i)"
    "\<And>c. c < length ys \<Longrightarrow> 0 < c \<Longrightarrow> parent c = elem \<Longrightarrow> 0 < elem \<Longrightarrow> rank (ys ! parent elem) \<le> rank (ys ! c)"
    using "1.prems"(3) by (simp_all add: down_hole_def)
  have small: "rank (ys ! ?c) \<le> rank (ys ! i)" if "i < length ys" "0 < i" "parent i = elem" for i
  proof -
    have "i = child \<or> i = child + 1" using that(2,3) children [of i elem] "1.prems"(2) by simp
    then show ?thesis using that(1) by (auto simp: smallerChild_def)
  qed
  show ?case
  proof (cases "child < length ys \<and> rank (ys ! ?c) < rank (ys ! elem)")
    case True
    let ?ys = "ys[?c := ys ! elem, elem := ys ! ?c]"
    have c: "?c < length ys" "elem < ?c" "parent ?c = elem"
      using smallerChild_bounds [of child ys "less_rank rank"] True "1.prems"(2) by auto
    have at: "?ys ! elem = ys ! ?c" "?ys ! ?c = ys ! elem" "\<And>i. i \<noteq> elem \<Longrightarrow> i \<noteq> ?c \<Longrightarrow> ?ys ! i = ys ! i"
      using c "1.prems"(1) by auto
    have "down_hole rank ?ys ?c"
      unfolding down_hole_def
    proof (intro conjI allI impI)
      fix i assume i: "i < length ?ys" "0 < i" "parent i \<noteq> ?c"
      consider "i = elem" | "i = ?c" | "parent i = elem" "i \<noteq> ?c" "i \<noteq> elem" | "i \<noteq> elem" "i \<noteq> ?c" "parent i \<noteq> elem" by blast
      then show "rank (?ys ! parent i) \<le> rank (?ys ! i)"
      proof cases
        case 1
        then have "parent elem < elem" using i parent_less by blast
        then have "?ys ! parent elem = ys ! parent elem" using c(2) at(3) [of "parent elem"] by simp
        then show ?thesis using a(2) [OF c(1) _ c(3)] c(2) at(1) 1 i by simp
      next
        case 2
        then show ?thesis using at c(3) less_imp_le [OF conjunct2 [OF True]] by simp
      next
        case 3
        then show ?thesis using at small [of i] i by simp
      next
        case 4
        then show ?thesis using at a(1) [of i] i by simp
      qed
    next
      fix x assume x: "x < length ?ys" "0 < x" "parent x = ?c" "0 < ?c"
      have "?c < x" using x parent_less by metis
      then have "?ys ! x = ys ! x" using at(3) c(2) by simp
      moreover have "rank (ys ! ?c) \<le> rank (ys ! x)" using a(1) [of x] x c(2) by simp
      ultimately show "rank (?ys ! parent ?c) \<le> rank (?ys ! x)" using at(1) c(3) by simp
    qed
    then have "heap_ordered rank (siftDownL (less_rank rank) ?ys ?c (2 * ?c + 1))"
      using "1.hyps" True c by simp
    then show ?thesis using True by (subst siftDownL.simps) simp
  next
    case False
    have "rank (ys ! parent i) \<le> rank (ys ! i)" if i: "i < length ys" "0 < i" for i
    proof (cases "parent i = elem")
      case True
      then have "child < length ys" using children [of i elem] i "1.prems"(2) by auto
      then show ?thesis using False small [OF i True] True by auto
    qed (use a(1) i in blast)
    moreover have "siftDownL (less_rank rank) ys elem child = ys" using False by (subst siftDownL.simps) auto
    ultimately show ?thesis by (simp add: heap_ordered_def)
  qed
qed

lemma heap_ordered_min: "heap_ordered rank ys \<Longrightarrow> i < length ys \<Longrightarrow> rank (ys ! 0) \<le> rank (ys ! i)"
proof (induction i rule: less_induct)
  case (less i)
  show ?case
  proof (cases "i = 0")
    case False
    then have p: "parent i < i" using parent_less by blast
    then have "rank (ys ! 0) \<le> rank (ys ! parent i)" using less.IH [OF p less.prems(1)] less.prems(2) by simp
    also have "\<dots> \<le> rank (ys ! i)" using less.prems False by (simp add: heap_ordered_def)
    finally show ?thesis .
  qed simp
qed

section \<open>The operations on heaps\<close>

definition vh_ok :: "('a \<Rightarrow> 'k :: linorder) \<Rightarrow> 'a Vheap \<Rightarrow> 'a list \<Rightarrow> bool" where
  "vh_ok rank h ys \<longleftrightarrow> vh_comp h = less_rank rank \<and> vh_count h = length ys \<and> length ys \<le> vh_size h
     \<and> length (vh_data h) = vh_size h \<and> take (length ys) (vh_data h) = map Some ys \<and> heap_ordered rank ys
     \<and> 0 < vh_minSize h \<and> (\<exists>k. vh_size h = vh_minSize h * 2 ^ k)"

lemma take_split: "take n ds = map Some ys \<Longrightarrow> length ys = n \<Longrightarrow> ds = map Some ys @ drop n ds"
  by (metis append_take_drop_id)

lemma elektraVheapInit_ok:
  "0 < n \<Longrightarrow> \<exists>h. elektraVheapInit True (Some (less_rank rank)) n = Some h \<and> vh_ok rank h []"
  by (simp add: elektraVheapInit_def vh_ok_def heap_ordered_def) (rule exI [of _ 0], simp)

lemma elektraVheapInsert_ok:
  assumes h: "vh_ok rank h ys"
  shows "(\<exists>h' ys'. elektraVheapInsert memOk (Some h) d = Some (0, Some h') \<and> vh_ok rank h' ys' \<and> mset ys' = add_mset d (mset ys))
    \<or> \<not> memOk \<and> elektraVheapInsert memOk (Some h) d = Some (1, Some h)"
proof -
  define h1 where "h1 = h\<lparr>vh_count := vh_count h + 1\<rparr>"
  let ?full = "vh_count h1 > vh_size h1"
  define h2 where "h2 = (if ?full then h1\<lparr>vh_size := vh_size h1 * 2, vh_data := reallocArr (vh_data h1) (vh_size h1 * 2)\<rparr> else h1)"
  from h obtain k where a: "vh_comp h = less_rank rank" "vh_count h = length ys" "length ys \<le> vh_size h"
    "length (vh_data h) = vh_size h" "take (length ys) (vh_data h) = map Some ys" "heap_ordered rank ys"
    "0 < vh_minSize h" "vh_size h = vh_minSize h * 2 ^ k" by (auto simp: vh_ok_def)
  have k': "\<exists>k. vh_size h2 = vh_minSize h2 * 2 ^ k" unfolding h2_def h1_def
    using a(8) by (cases ?full) (auto simp: h1_def intro: exI [of _ "Suc k"])
  have pos: "0 < vh_size h" using a by simp
  have b: "vh_comp h2 = less_rank rank" "vh_count h2 = Suc (length ys)" "Suc (length ys) \<le> vh_size h2" "vh_minSize h2 = vh_minSize h"
    "length (vh_data h2) = vh_size h2" "take (length ys) (vh_data h2) = map Some ys"
    using a(1-7) pos by (auto simp: h2_def h1_def take_reallocArr)
  let ?r = "drop (Suc (length ys)) (vh_data h2)"
  let ?up = "\<lambda>ds. siftUp (less_rank rank) ds d (length ys)"
  have "?up (vh_data h2) = ?up (map Some (ys @ [d]) @ ?r)"
  proof -
    have e: "vh_data h2 = map Some ys @ vh_data h2 ! length ys # ?r"
      using b(3,5,6) id_take_nth_drop [of "length ys" "vh_data h2"] by simp
    have "siftUp cmp (map Some ys @ x # r) d (length ys) = siftUp cmp (map Some ys @ y # r) d (length ys)" for cmp x y r
    proof (cases "length ys = 0")
      case False
      have pl: "(length ys - Suc 0) div 2 < length ys" using False parent_less [of "length ys"] by simp
      show ?thesis using False by (subst (1 2) siftUp.simps) (simp add: wrSlot_def list_update_append Let_def pl)
    qed (subst (1 2) siftUp.simps, simp add: wrSlot_def)
    then show ?thesis by (subst e) simp
  qed
  then have up: "?up (vh_data h2) = Some (map Some (siftUpL (less_rank rank) (ys @ [d]) d (length ys)) @ ?r)"
    using siftUp_list [of "length ys" "ys @ [d]"] by simp
  let ?ys = "siftUpL (less_rank rank) (ys @ [d]) d (length ys)"
  have "rank ((ys @ [d]) ! parent i) \<le> rank ((ys @ [d]) ! i)" if "i < length ys" "0 < i" for i
    using a(6) that parent_less [of i] by (auto simp: heap_ordered_def nth_append)
  moreover have "parent c \<noteq> length ys" if "c < Suc (length ys)" "0 < c" for c using parent_less [OF that(2)] that(1) by simp
  ultimately have "up_hole rank (ys @ [d]) (length ys) d" by (auto simp: up_hole_def less_Suc_eq)
  then have "heap_ordered rank ?ys" by (intro siftUpL_ordered) simp_all
  then have ok: "vh_ok rank (h2\<lparr>vh_data := map Some ?ys @ ?r\<rparr>) ?ys"
    using b a(7) k' by (simp add: vh_ok_def)
  have ms: "mset ?ys = add_mset d (mset ys)" by (subst mset_siftUpL) simp_all
  have "elektraVheapInsert memOk (Some h) d = (if ?full \<and> \<not> memOk then Some (1, Some h) else Some (0, Some (h2\<lparr>vh_data := map Some ?ys @ ?r\<rparr>)))"
    unfolding elektraVheapInsert_def option.case Let_def h1_def [symmetric] h2_def [symmetric]
    using up b(1,2) by simp
  then show ?thesis using ok ms by auto
qed

lemma elektraVheapRemove_ok:
  assumes h: "vh_ok rank h ys" and ne: "ys \<noteq> []"
  shows "(\<exists>h' ys'. elektraVheapRemove memOk (Some h) = Some (Some (ys ! 0), Some h') \<and> vh_ok rank h' ys' \<and> mset ys = add_mset (ys ! 0) (mset ys'))
    \<or> \<not> memOk \<and> elektraVheapRemove memOk (Some h) = Some (None, Some h)"
proof -
  define h1 where "h1 = h\<lparr>vh_count := vh_count h - 1\<rparr>"
  let ?shrink = "vh_size h1 > vh_minSize h1 \<and> vh_count h1 \<le> vh_size h1 div 4"
  define h2 where "h2 = (if ?shrink then h1\<lparr>vh_size := vh_size h1 div 2, vh_data := reallocArr (vh_data h1) (vh_size h1 div 2)\<rparr> else h1)"
  from h obtain k where a: "vh_comp h = less_rank rank" "vh_count h = length ys" "length ys \<le> vh_size h"
    "length (vh_data h) = vh_size h" "take (length ys) (vh_data h) = map Some ys" "heap_ordered rank ys"
    "0 < vh_minSize h" "vh_size h = vh_minSize h * 2 ^ k" by (auto simp: vh_ok_def)
  have k': "\<exists>k. vh_size h2 = vh_minSize h2 * 2 ^ k"
  proof (cases ?shrink)
    case True
    then obtain j where "k = Suc j" using a(8) by (cases k) (auto simp: h1_def)
    then show ?thesis using a(8) True by (auto simp: h2_def h1_def)
  next
    case False
    then show ?thesis using a(8) by (auto simp: h2_def h1_def)
  qed
  have fit: "length ys \<le> vh_size h div 2" if ?shrink
  proof -
    have "2 \<le> vh_size h" using that a(7) by (simp add: h1_def)
    then have "vh_size h div 4 < vh_size h div 2" by presburger
    moreover have "length ys - 1 \<le> vh_size h div 4" using that a(2) by (simp add: h1_def)
    ultimately show ?thesis by linarith
  qed
  have b: "vh_comp h2 = less_rank rank" "vh_count h2 = length ys - 1" "length ys \<le> vh_size h2" "vh_minSize h2 = vh_minSize h"
    "length (vh_data h2) = vh_size h2" "take (length ys) (vh_data h2) = map Some ys"
    using a fit by (auto simp: h2_def h1_def take_reallocArr)
  let ?zs = "butlast ys" and ?r = "drop (length ys) (vh_data h2)"
  have e: "vh_data h2 = map Some ys @ ?r" using take_split [OF b(6)] by simp
  have l: "rdSlot (vh_data h2) 0 = Some (ys ! 0)" "rdSlot (vh_data h2) (length ys - 1) = Some (last ys)"
    using ne by (subst e, subst rdSlot_prefix, simp_all add: last_conv_nth)+
  have w: "wrSlot (vh_data h2) 0 (last ys) = Some (map Some (ys[0 := last ys]) @ ?r)"
    using ne by (subst e) simp
  show ?thesis
  proof (cases "?zs = []")
    case True
    then have y: "ys = [ys ! 0]" using ne by (cases ys rule: rev_cases) auto
    then have "last ys = ys ! 0" "length ys = 1" by (metis last.simps, metis length_Cons list.size(3) One_nat_def)
    then have rm: "elektraVheapRemove memOk (Some h) = (if ?shrink \<and> \<not> memOk then Some (None, Some h)
        else Some (Some (ys ! 0), Some (h2\<lparr>vh_data := map Some (ys[0 := last ys]) @ ?r\<rparr>)))"
      unfolding elektraVheapRemove_def elektraVheapIsEmpty_def option.case Let_def h1_def [symmetric] h2_def [symmetric]
      using a(2) ne b(1,2) l w by (subst siftDown.simps) simp
    moreover have "vh_ok rank (h2\<lparr>vh_data := map Some (ys[0 := last ys]) @ ?r\<rparr>) []"
      using b a(7) k' \<open>length ys = 1\<close> by (simp add: vh_ok_def heap_ordered_def)
    moreover have "mset ys = add_mset (ys ! 0) (mset [])" by (subst y) simp
    ultimately show ?thesis by auto
  next
    case False
    then have l1: "1 < length ys" by (cases ys rule: rev_cases) auto
    let ?ws = "?zs[0 := last ys]"
    have upd: "ys[0 := last ys] = ?ws @ [last ys]"
      using l1 ne by (cases ys rule: rev_cases) (auto simp: list_update_append)
    let ?r' = "Some (last ys) # ?r"
    have "siftDown (less_rank rank) (length ys - 1) (map Some (ys[0 := last ys]) @ ?r) 0 1
        = Some (map Some (siftDownL (less_rank rank) ?ws 0 1) @ ?r')"
      using siftDown_list [of 0 ?ws "less_rank rank" ?r' 1] l1 unfolding upd by simp
    then have rm: "elektraVheapRemove memOk (Some h) = (if ?shrink \<and> \<not> memOk then Some (None, Some h)
        else Some (Some (ys ! 0), Some (h2\<lparr>vh_data := map Some (siftDownL (less_rank rank) ?ws 0 1) @ ?r'\<rparr>)))"
      unfolding elektraVheapRemove_def elektraVheapIsEmpty_def option.case Let_def h1_def [symmetric] h2_def [symmetric]
      using a(2) ne b(1,2) l w by simp
    let ?ys = "siftDownL (less_rank rank) ?ws 0 1"
    have "rank (?ws ! parent i) \<le> rank (?ws ! i)" if "i < length ys - 1" "0 < i" "parent i \<noteq> 0" for i
    proof -
      have "parent i < length ys - 1" using that parent_less [of i] by simp
      then show ?thesis using a(6) that by (simp add: heap_ordered_def nth_butlast)
    qed
    then have "down_hole rank ?ws 0" by (simp add: down_hole_def)
    then have "heap_ordered rank ?ys" using l1 by (intro siftDownL_ordered) simp_all
    then have "vh_ok rank (h2\<lparr>vh_data := map Some ?ys @ ?r'\<rparr>) ?ys"
      using b a(7) k' l1 by (auto simp: vh_ok_def)
    moreover have "mset ys = add_mset (ys ! 0) (mset ?ys)"
    proof -
      have "mset ?ys = mset ?ws" using l1 by (intro mset_siftDownL) simp
      also have "\<dots> = add_mset (last ys) (mset ?zs - {#?zs ! 0#})" using l1 by (simp add: mset_update)
      also have "add_mset (ys ! 0) \<dots> = add_mset (last ys) (mset ?zs)"
        using l1 False nth_mem_mset [of 0 ?zs] by (simp add: nth_butlast add_mset_commute)
      also have "\<dots> = mset ys" using ne by (metis append_butlast_last_id mset_append mset_single_iff_right add_mset_add_single mset.simps)
      finally show ?thesis by simp
    qed
    ultimately show ?thesis using rm by auto
  qed
qed

lemma elektraVheapRemove_empty: "vh_ok rank h [] \<Longrightarrow> elektraVheapRemove memOk (Some h) = Some (None, Some h)"
  by (simp add: elektraVheapRemove_def elektraVheapIsEmpty_def vh_ok_def)

section \<open>The contract of a priority queue\<close>

locale priority_queue =
  fixes holds :: "'s \<Rightarrow> 'a multiset \<Rightarrow> bool"
    and rank :: "'a \<Rightarrow> 'k :: linorder"
    and enqueue :: "'s \<Rightarrow> 'a \<Rightarrow> 's option"
    and dequeue :: "'s \<Rightarrow> ('a option \<times> 's) option"
  assumes enqueue_holds: "holds s M \<Longrightarrow> \<exists>s'. enqueue s x = Some s' \<and> holds s' (add_mset x M)"
    and dequeue_holds: "holds s M \<Longrightarrow> M \<noteq> {#} \<Longrightarrow> \<exists>x s' M'. dequeue s = Some (Some x, s') \<and> M = add_mset x M'
      \<and> (\<forall>y \<in># M. rank x \<le> rank y) \<and> holds s' M'"
    and dequeue_empty: "holds s {#} \<Longrightarrow> dequeue s = Some (None, s)"

context priority_queue
begin

lemma enqueueAll: "holds s M \<Longrightarrow> \<exists>s'. pushAll enqueue s ys = Some s' \<and> holds s' (M + mset ys)"
proof (induction ys arbitrary: s M)
  case (Cons y ys)
  then obtain s1 where s1: "enqueue s y = Some s1" "holds s1 (add_mset y M)" using enqueue_holds by blast
  then show ?case using Cons.IH [OF s1(2)] by simp
qed simp

lemma dequeueAll:
  "holds s M \<Longrightarrow> size M < n \<Longrightarrow>
   \<exists>zs s'. popAll dequeue n s = Some (zs, s') \<and> mset zs = M \<and> sorted (map rank zs) \<and> holds s' {#}"
proof (induction n arbitrary: s M)
  case (Suc n)
  show ?case
  proof (cases "M = {#}")
    case True
    then show ?thesis using dequeue_empty Suc.prems(1) by auto
  next
    case False
    obtain x s1 M' where x: "dequeue s = Some (Some x, s1)" "M = add_mset x M'" "\<forall>y \<in># M. rank x \<le> rank y" "holds s1 M'"
      using dequeue_holds [OF Suc.prems(1) False] by blast
    have "size M' < n" using Suc.prems(2) x(2) by simp
    then obtain zs s2 where z: "popAll dequeue n s1 = Some (zs, s2)" "mset zs = M'" "sorted (map rank zs)" "holds s2 {#}"
      using Suc.IH [OF x(4)] by blast
    have "\<forall>z \<in> set zs. rank x \<le> rank z" using x(2,3) z(2) by auto
    then show ?thesis using x(1,2) z by simp
  qed
qed simp

lemma queue_sorts:
  assumes "holds s {#}" "length ys < n"
  shows "\<exists>s1 zs s2. pushAll enqueue s ys = Some s1 \<and> popAll dequeue n s1 = Some (zs, s2)
    \<and> mset zs = mset ys \<and> sorted (map rank zs) \<and> holds s2 {#}"
proof -
  obtain s1 where s1: "pushAll enqueue s ys = Some s1" "holds s1 (mset ys)" using enqueueAll [OF assms(1), of ys] by auto
  have "size (mset ys) < n" using assms(2) by simp
  then show ?thesis using dequeueAll [OF s1(2)] s1(1) by blast
qed

end

text \<open>The vheap with memory to spare.\<close>

definition vhInsert :: "'a Vheap \<Rightarrow> 'a \<Rightarrow> 'a Vheap option" where
  "vhInsert h x = (case elektraVheapInsert True (Some h) x of Some (_, h') \<Rightarrow> h' | None \<Rightarrow> None)"

definition vhRemove :: "'a Vheap \<Rightarrow> ('a option \<times> 'a Vheap) option" where
  "vhRemove h = (case elektraVheapRemove True (Some h) of Some (x, Some h') \<Rightarrow> Some (x, h') | _ \<Rightarrow> None)"

definition vh_holds :: "('a \<Rightarrow> 'k :: linorder) \<Rightarrow> 'a Vheap \<Rightarrow> 'a multiset \<Rightarrow> bool" where
  "vh_holds rank h M \<longleftrightarrow> (\<exists>ys. vh_ok rank h ys \<and> mset ys = M)"

interpretation vh: priority_queue "vh_holds rank" rank vhInsert vhRemove for rank :: "'a \<Rightarrow> 'k :: linorder"
proof
  fix h :: "'a Vheap" and M x
  assume "vh_holds rank h M"
  then obtain ys where ys: "vh_ok rank h ys" "mset ys = M" by (auto simp: vh_holds_def)
  then show "\<exists>h'. vhInsert h x = Some h' \<and> vh_holds rank h' (add_mset x M)"
    using elektraVheapInsert_ok [OF ys(1), of True x] by (auto simp: vhInsert_def vh_holds_def)
next
  fix h :: "'a Vheap" and M
  assume "vh_holds rank h M" and ne: "M \<noteq> {#}"
  then obtain ys where ys: "vh_ok rank h ys" "mset ys = M" by (auto simp: vh_holds_def)
  then have y: "ys \<noteq> []" using ne by auto
  have "\<forall>z \<in># M. rank (ys ! 0) \<le> rank z"
    using heap_ordered_min [of rank ys] ys by (auto simp: vh_ok_def in_set_conv_nth simp flip: ys(2))
  then show "\<exists>x h' M'. vhRemove h = Some (Some x, h') \<and> M = add_mset x M' \<and> (\<forall>z \<in># M. rank x \<le> rank z) \<and> vh_holds rank h' M'"
    using elektraVheapRemove_ok [OF ys(1) y, of True] ys(2) by (auto simp: vhRemove_def vh_holds_def)
next
  fix h :: "'a Vheap"
  assume "vh_holds rank h {#}"
  then show "vhRemove h = Some (None, h)"
    using elektraVheapRemove_empty [of rank h True] by (auto simp: vhRemove_def vh_holds_def)
qed

section \<open>Properties\<close>

text \<open>C24: a heap made for an order gives back the elements that were inserted, each exactly once and in
  that order, through every growth and shrinking of its array: inserting and removing everything
  sorts.\<close>

theorem vheap_sorts:
  assumes "0 < minSize" "length ys < n"
  shows "\<exists>h0 h1 zs h2. elektraVheapInit True (Some (\<lambda>a b. rank a < rank b)) minSize = Some h0
     \<and> pushAll vhInsert h0 ys = Some h1 \<and> popAll vhRemove n h1 = Some (zs, h2)
     \<and> mset zs = mset ys \<and> sorted (map rank zs) \<and> elektraVheapIsEmpty (Some h2) = 1"
proof -
  obtain h0 where h0: "elektraVheapInit True (Some (\<lambda>a b. rank a < rank b)) minSize = Some h0" "vh_ok rank h0 []"
    using elektraVheapInit_ok [OF assms(1), of rank] by blast
  then have "vh_holds rank h0 {#}" by (simp add: vh_holds_def)
  then obtain h1 zs h2 where z: "pushAll vhInsert h0 ys = Some h1" "popAll vhRemove n h1 = Some (zs, h2)"
    "mset zs = mset ys" "sorted (map rank zs)" "vh_holds rank h2 {#}"
    using vh.queue_sorts [OF _ assms(2), of rank h0] by blast
  then have "elektraVheapIsEmpty (Some h2) = 1" by (auto simp: vh_holds_def vh_ok_def elektraVheapIsEmpty_def)
  then show ?thesis using h0(1) z by blast
qed

theorem vheap_sorts_witness:
  "\<exists>h0 h1 zs h2. elektraVheapInit True (Some (\<lambda>a b. id a < id b)) 1 = Some h0
     \<and> pushAll vhInsert h0 [3 :: nat, 1, 2] = Some h1 \<and> popAll vhRemove 4 h1 = Some (zs, h2)
     \<and> mset zs = mset [3, 1, 2] \<and> sorted (map id zs) \<and> elektraVheapIsEmpty (Some h2) = 1"
  by (rule vheap_sorts) simp_all

text \<open>Inserting into a heap whose array is full fails without memory and leaves the heap as it was, and
  so does a removal that would shrink the array; otherwise they work as with memory.\<close>

theorem vheap_no_memory:
  assumes "vh_ok rank h ys" "ys \<noteq> []"
  shows "(elektraVheapInsert False (Some h) d = Some (1, Some h)
       \<or> (\<exists>h' ys'. elektraVheapInsert False (Some h) d = Some (0, Some h') \<and> vh_ok rank h' ys' \<and> mset ys' = add_mset d (mset ys)))
    \<and> (elektraVheapRemove False (Some h) = Some (None, Some h)
       \<or> (\<exists>h' ys'. elektraVheapRemove False (Some h) = Some (Some (ys ! 0), Some h') \<and> vh_ok rank h' ys' \<and> mset ys = add_mset (ys ! 0) (mset ys')))"
  using elektraVheapInsert_ok [OF assms(1), of False d] elektraVheapRemove_ok [OF assms, of False] by blast

theorem vheap_no_memory_witness:
  "elektraVheapInsert False (Some \<lparr>vh_minSize = 1, vh_size = 1, vh_count = 1, vh_comp = (\<lambda>a b. id a < id b), vh_data = [Some 7]\<rparr>) (8 :: nat)
     = Some (1, Some \<lparr>vh_minSize = 1, vh_size = 1, vh_count = 1, vh_comp = (\<lambda>a b. id a < id b), vh_data = [Some 7]\<rparr>)"
proof -
  have "vh_ok id \<lparr>vh_minSize = 1, vh_size = 1, vh_count = 1, vh_comp = (\<lambda>a b. id a < id b), vh_data = [Some 7]\<rparr> [7 :: nat]"
    by (simp add: vh_ok_def heap_ordered_def) (rule exI [of _ 0], simp)
  from vheap_no_memory [OF this, of 8] show ?thesis by (simp add: elektraVheapInsert_def)
qed

end
