(* ===== verification/Opmphm.thy ===== *)
theory Opmphm
  imports Prelude
begin

text \<open>
  \<open>src/libs/elektra/opmphm.c\<close> and the macros of \<open>include/kdbopmphm.h\<close>: the hash function and the mapping
  phase of the order preserving minimal perfect hash map. The phase hashes every name to an edge of
  a bipartite graph, chains the edges of every vertex, and checks that all triples of hashes
  are distinct.

  Memory is a function from offsets to bytes, so that the hash function, which reads words, may read
  behind the name. \<open>rand_r\<close> of the C library is a parameter. The ratio \<open>opmphmRatio\<close> has its initial
  value of three quarters. \<open>None\<close> is undefined behaviour.
\<close>

section \<open>The hash function\<close>

definition k32 :: "(nat \<Rightarrow> 8 word) \<Rightarrow> nat \<Rightarrow> 32 word" where
  "k32 mem off = ucast (mem off) OR push_bit 8 (ucast (mem (off + 1)))
     OR push_bit 16 (ucast (mem (off + 2))) OR push_bit 24 (ucast (mem (off + 3)))"

definition hashRot :: "32 word \<Rightarrow> nat \<Rightarrow> 32 word" where
  "hashRot x k = push_bit k x OR drop_bit (32 - k) x"

definition hashFinal :: "32 word \<times> 32 word \<times> 32 word \<Rightarrow> 32 word \<times> 32 word \<times> 32 word" where
  "hashFinal = (\<lambda>(a, b, c).
     let c = c XOR b; c = c - hashRot b 14;
         a = a XOR c; a = a - hashRot c 11;
         b = b XOR a; b = b - hashRot a 25;
         c = c XOR b; c = c - hashRot b 16;
         a = a XOR c; a = a - hashRot c 4;
         b = b XOR a; b = b - hashRot a 14;
         c = c XOR b; c = c - hashRot b 24
     in (a, b, c))"

definition hashMix :: "32 word \<times> 32 word \<times> 32 word \<Rightarrow> 32 word \<times> 32 word \<times> 32 word" where
  "hashMix = (\<lambda>(a, b, c).
     let a = a - c; a = a XOR hashRot c 4; c = c + b;
         b = b - a; b = b XOR hashRot a 6; a = a + c;
         c = c - b; c = c XOR hashRot b 8; b = b + a;
         a = a - c; a = a XOR hashRot c 16; c = c + b;
         b = b - a; b = b XOR hashRot a 19; a = a + c;
         c = c - b; c = c XOR hashRot b 4; b = b + a
     in (a, b, c))"

text \<open>The loop over blocks of twelve bytes; the result is the offset and the length that are left.\<close>

function hashLoop :: "(nat \<Rightarrow> 8 word) \<Rightarrow> nat \<Rightarrow> nat \<Rightarrow> 32 word \<times> 32 word \<times> 32 word
    \<Rightarrow> nat \<times> nat \<times> 32 word \<times> 32 word \<times> 32 word" where
  "hashLoop mem off len s =
     (if len > 12
      then (case s of (a, b, c) \<Rightarrow>
        hashLoop mem (off + 12) (len - 12) (hashMix (a + k32 mem off, b + k32 mem (off + 4), c + k32 mem (off + 8))))
      else (off, len, s))"
  by pat_completeness auto
termination by (relation "measure (\<lambda>(_, _, len, _). len)") auto

declare hashLoop.simps [simp del]

definition hashTail :: "(nat \<Rightarrow> 8 word) \<Rightarrow> nat \<Rightarrow> nat \<Rightarrow> 32 word \<times> 32 word \<times> 32 word \<Rightarrow> 32 word \<times> 32 word \<times> 32 word" where
  "hashTail mem off len s = (case s of (a, b, c) \<Rightarrow>
     let k0 = k32 mem off; k1 = k32 mem (off + 4); k2 = k32 mem (off + 8)
     in if len = 12 then (a + k0, b + k1, c + k2)
        else if len = 11 then (a + k0, b + k1, c + (k2 AND 0xffffff))
        else if len = 10 then (a + k0, b + k1, c + (k2 AND 0xffff))
        else if len = 9 then (a + k0, b + k1, c + (k2 AND 0xff))
        else if len = 8 then (a + k0, b + k1, c)
        else if len = 7 then (a + k0, b + (k1 AND 0xffffff), c)
        else if len = 6 then (a + k0, b + (k1 AND 0xffff), c)
        else if len = 5 then (a + k0, b + (k1 AND 0xff), c)
        else if len = 4 then (a + k0, b, c)
        else if len = 3 then (a + (k0 AND 0xffffff), b, c)
        else if len = 2 then (a + (k0 AND 0xffff), b, c)
        else if len = 1 then (a + (k0 AND 0xff), b, c)
        else (a, b, c))"

definition opmphmHashfunction :: "(nat \<Rightarrow> 8 word) \<Rightarrow> nat \<Rightarrow> 32 word \<Rightarrow> 32 word" where
  "opmphmHashfunction mem len initval =
     (let i = 0xdeadbeef + of_nat len + initval
      in case hashLoop mem 0 len (i, i, i) of (off, len', s) \<Rightarrow>
           if len' = 0 then snd (snd s)
           else snd (snd (hashFinal (hashTail mem off len' s))))"

text \<open>\<open>opmphmRandom\<close>: the returned number and the new seed.\<close>

definition opmphmRandom :: "(32 word \<Rightarrow> 32 word \<times> 32 word) \<Rightarrow> 32 word \<Rightarrow> 32 word \<times> 32 word" where
  "opmphmRandom rand_r seed = rand_r ((16807 * seed) mod 2147483647)"

section \<open>The hash depends on the bytes of the name only\<close>

lemma k32_masks:
  "k32 mem off AND 0xff = ucast (mem off)"
  "k32 mem off AND 0xffff = ucast (mem off) OR push_bit 8 (ucast (mem (off + 1)))"
  "k32 mem off AND 0xffffff = ucast (mem off) OR push_bit 8 (ucast (mem (off + 1))) OR push_bit 16 (ucast (mem (off + 2)))"
proof -
  have m: "(0xff :: 32 word) = mask 8" "(0xffff :: 32 word) = mask 16" "(0xffffff :: 32 word) = mask 24"
    by (simp_all add: mask_eq_exp_minus_1)
  show "k32 mem off AND 0xff = ucast (mem off)"
    unfolding k32_def m by (rule bit_word_eqI) (auto simp: bit_simps dest: bit_imp_le_length)
  show "k32 mem off AND 0xffff = ucast (mem off) OR push_bit 8 (ucast (mem (off + 1)))"
    unfolding k32_def m by (rule bit_word_eqI) (auto simp: bit_simps dest: bit_imp_le_length)
  show "k32 mem off AND 0xffffff = ucast (mem off) OR push_bit 8 (ucast (mem (off + 1))) OR push_bit 16 (ucast (mem (off + 2)))"
    unfolding k32_def m by (rule bit_word_eqI) (auto simp: bit_simps dest: bit_imp_le_length)
qed

lemma k32_cong: "(\<And>i. i < off + 4 \<Longrightarrow> mem i = mem' i) \<Longrightarrow> k32 mem off = k32 mem' off"
  by (simp add: k32_def)

lemma hashLoop_cong:
  "(\<And>i. i < off + len \<Longrightarrow> mem i = mem' i) \<Longrightarrow> hashLoop mem off len s = hashLoop mem' off len s"
proof (induction mem off len s rule: hashLoop.induct)
  case (1 mem off len s)
  show ?case
  proof (cases "len > 12")
    case True
    have "k32 mem off = k32 mem' off" "k32 mem (off + 4) = k32 mem' (off + 4)" "k32 mem (off + 8) = k32 mem' (off + 8)"
      using True "1.prems" by (auto intro!: k32_cong)
    then show ?thesis using 1 True by (subst (1 2) hashLoop.simps) (simp split: prod.split)
  qed (subst (1 2) hashLoop.simps, simp)
qed

lemma hashLoop_rest:
  "hashLoop mem off len s = (off', len', s') \<Longrightarrow> off' + len' = off + len \<and> len' \<le> 12 \<and> (len' = 0 \<longrightarrow> len = 0)"
proof (induction mem off len s rule: hashLoop.induct)
  case (1 mem off len s)
  show ?case
  proof (cases "len > 12")
    case True
    obtain a b c where s: "s = (a, b, c)" by (cases s)
    then show ?thesis using 1 True by (subst (asm) (2) hashLoop.simps) (auto simp: s)
  next
    case False
    then show ?thesis using "1.prems" by (subst (asm) hashLoop.simps) auto
  qed
qed

lemma hashTail_cong:
  assumes "\<And>i. i < off + len \<Longrightarrow> mem i = mem' i"
  shows "hashTail mem off len s = hashTail mem' off len s"
proof -
  have m: "mem (off + i) = mem' (off + i)" if "i < len" for i using assms that by simp
  have f: "4 \<le> len \<Longrightarrow> k32 mem off = k32 mem' off" "8 \<le> len \<Longrightarrow> k32 mem (off + 4) = k32 mem' (off + 4)"
    "12 \<le> len \<Longrightarrow> k32 mem (off + 8) = k32 mem' (off + 8)"
    by (rule k32_cong, rule assms, simp)+
  have g: "j < len \<Longrightarrow> k32 mem (off + j) AND 255 = k32 mem' (off + j) AND 255"
    "j + 1 < len \<Longrightarrow> k32 mem (off + j) AND 65535 = k32 mem' (off + j) AND 65535"
    "j + 2 < len \<Longrightarrow> k32 mem (off + j) AND 16777215 = k32 mem' (off + j) AND 16777215" for j
    using m [of j] m [of "j + 1"] m [of "j + 2"] by (simp_all add: k32_masks add.assoc)
  obtain a b c where s: "s = (a, b, c)" by (cases s)
  show ?thesis
    unfolding hashTail_def s prod.case Let_def
    using f g [of 0] g [of 4] g [of 8] by (simp cong: if_cong)
qed

section \<open>The mapping phase\<close>

record Vertex =
  firstEdge :: int
  degree :: nat

record Edge =
  h0 :: nat
  h1 :: nat
  h2 :: nat
  next0 :: int
  next1 :: int
  order :: nat

text \<open>The memory at a name: its bytes, the null byte, and \<open>behind\<close> it anything.\<close>

definition nameMem :: "(string \<Rightarrow> nat \<Rightarrow> 8 word) \<Rightarrow> string \<Rightarrow> nat \<Rightarrow> 8 word" where
  "nameMem behind s i = (if i < length s then of_char (s ! i) else if i = length s then 0 else behind s i)"

text \<open>The three hashes of a name; the last one is stored in 32 bits.\<close>

definition edgeHashes :: "(string \<Rightarrow> nat \<Rightarrow> 8 word) \<Rightarrow> 32 word \<times> 32 word \<times> 32 word \<Rightarrow> nat \<Rightarrow> nat \<Rightarrow> string \<Rightarrow> nat \<times> nat \<times> nat" where
  "edgeHashes behind seeds n r s = (case seeds of (s0, s1, s2) \<Rightarrow>
     let hash = (\<lambda>seed. unat (opmphmHashfunction (nameMem behind s) (length s) seed))
     in (hash s0 mod n, hash s1 mod r, (hash s2 mod r + r) mod 2 ^ 32))"

definition addEdge :: "nat \<Rightarrow> nat \<times> nat \<times> nat \<Rightarrow> Vertex list \<times> Edge list \<Rightarrow> (Vertex list \<times> Edge list) option" where
  "addEdge i h s = (case (h, s) of ((a, b, c), (vertices, edges)) \<Rightarrow>
     if i < length edges \<and> b < length vertices \<and> c < length vertices then
       let e = (edges ! i)\<lparr>h0 := a, h1 := b, h2 := c, next0 := firstEdge (vertices ! b)\<rparr>;
           vertices = vertices[b := \<lparr>firstEdge = int i, degree = degree (vertices ! b) + 1\<rparr>];
           e = e\<lparr>next1 := firstEdge (vertices ! c)\<rparr>;
           vertices = vertices[c := \<lparr>firstEdge = int i, degree = degree (vertices ! c) + 1\<rparr>]
       in Some (vertices, edges[i := e])
     else None)"

fun addEdges :: "nat \<Rightarrow> (nat \<times> nat \<times> nat) list \<Rightarrow> Vertex list \<times> Edge list \<Rightarrow> (Vertex list \<times> Edge list) option" where
  "addEdges i [] s = Some s"
| "addEdges i (h # hs) s = (case addEdge i h s of None \<Rightarrow> None | Some s' \<Rightarrow> addEdges (Suc i) hs s')"

text \<open>
  The loops of the check follow a chain of edges; the fuel bounds the length of the chain. The
  result of the inner loop is whether an edge with the same triple was found.
\<close>

definition edgeAt :: "Edge list \<Rightarrow> int \<Rightarrow> Edge option" where
  "edgeAt edges i = (if 0 \<le> i \<and> i < int (length edges) then Some (edges ! nat i) else None)"

fun checkInner :: "nat \<Rightarrow> Edge list \<Rightarrow> int \<Rightarrow> int \<Rightarrow> bool option" where
  "checkInner 0 edges e0 e1 = None"
| "checkInner (Suc fuel) edges e0 e1 =
     (if e1 = -1 then Some False
      else (case (edgeAt edges e0, edgeAt edges e1) of
          (Some a, Some b) \<Rightarrow> if h0 a = h0 b \<and> h2 a = h2 b then Some True else checkInner fuel edges e0 (next0 b)
        | _ \<Rightarrow> None))"

fun checkOuter :: "nat \<Rightarrow> Edge list \<Rightarrow> int \<Rightarrow> bool option" where
  "checkOuter 0 edges e0 = None"
| "checkOuter (Suc fuel) edges e0 =
     (if e0 = -1 then Some False
      else (case edgeAt edges e0 of None \<Rightarrow> None
        | Some a \<Rightarrow> (case checkInner (Suc fuel) edges e0 (next0 a) of
             None \<Rightarrow> None
           | Some True \<Rightarrow> Some True
           | Some False \<Rightarrow> checkOuter fuel edges (next0 a))))"

fun checkVertices :: "nat \<Rightarrow> Edge list \<Rightarrow> Vertex list \<Rightarrow> bool option" where
  "checkVertices fuel edges [] = Some False"
| "checkVertices fuel edges (v # vs) = (case checkOuter fuel edges (firstEdge v) of
     None \<Rightarrow> None
   | Some True \<Rightarrow> Some True
   | Some False \<Rightarrow> checkVertices fuel edges vs)"

text \<open>
  \<open>opmphmMapping\<close> for the names \<open>init->getString (init->data[i])\<close>: the result, the seeds, the vertices and
  edges, and the new seed of \<open>init\<close>. With one name \<open>r\<close> is zero and the code divides by it.
\<close>

definition opmphmR :: "nat \<Rightarrow> nat" where
  "opmphmR n = 3 * n div 4"

definition opmphmMapping :: "(32 word \<Rightarrow> 32 word \<times> 32 word) \<Rightarrow> (string \<Rightarrow> nat \<Rightarrow> 8 word) \<Rightarrow> string list
    \<Rightarrow> Vertex list \<Rightarrow> Edge list \<Rightarrow> 32 word
    \<Rightarrow> (int \<times> (32 word \<times> 32 word \<times> 32 word) \<times> Vertex list \<times> Edge list \<times> 32 word) option" where
  "opmphmMapping rand_r behind names vertices edges seed =
     (let n = length names;
          (s0, seed1) = opmphmRandom rand_r seed;
          (s1, seed2) = opmphmRandom rand_r seed1;
          (s2, seed3) = opmphmRandom rand_r seed2;
          r = opmphmR n
      in if 2 * r > length vertices then None
         else if 0 < n \<and> r = 0 then None
         else
           let vertices0 = replicate (2 * r) \<lparr>firstEdge = -1, degree = 0\<rparr> @ drop (2 * r) vertices
           in (case addEdges 0 (map (edgeHashes behind (s0, s1, s2) n r) names) (vertices0, edges) of
                 None \<Rightarrow> None
               | Some (vs, es) \<Rightarrow> (case checkVertices (Suc n) es (take r vs) of
                     None \<Rightarrow> None
                   | Some b \<Rightarrow> Some (if b then 1 else 0, (s0, s1, s2), vs, es, seed3))))"

section \<open>Chains of edges\<close>

fun chain :: "(nat \<Rightarrow> int) \<Rightarrow> int \<Rightarrow> nat list \<Rightarrow> bool" where
  "chain nx s [] \<longleftrightarrow> s = -1"
| "chain nx s (x # xs) \<longleftrightarrow> s = int x \<and> chain nx (nx x) xs"

lemma chain_cong: "(\<And>x. x \<in> set xs \<Longrightarrow> nx' x = nx x) \<Longrightarrow> chain nx s xs \<Longrightarrow> chain nx' s xs"
  by (induction xs arbitrary: s) auto

lemma edgeAt_nat [simp]: "x < length es \<Longrightarrow> edgeAt es (int x) = Some (es ! x)"
  by (simp add: edgeAt_def)

abbreviation pairOf :: "Edge list \<Rightarrow> nat \<Rightarrow> nat \<times> nat" where
  "pairOf es i \<equiv> (h0 (es ! i), h2 (es ! i))"

lemma checkInner_chain:
  "chain (\<lambda>i. next0 (es ! i)) s xs \<Longrightarrow> \<forall>x \<in> set xs. x < length es \<Longrightarrow> e0 < length es \<Longrightarrow> length xs < fuel \<Longrightarrow>
   checkInner fuel es (int e0) s = Some (pairOf es e0 \<in> pairOf es ` set xs)"
proof (induction xs arbitrary: s fuel)
  case Nil
  then show ?case by (cases fuel) auto
next
  case (Cons x xs)
  then obtain f where "fuel = Suc f" "length xs < f" by (cases fuel) auto
  then show ?case using Cons.IH [of "next0 (es ! x)" f] Cons.prems by auto
qed

lemma checkOuter_chain:
  "chain (\<lambda>i. next0 (es ! i)) s xs \<Longrightarrow> \<forall>x \<in> set xs. x < length es \<Longrightarrow> length xs < fuel \<Longrightarrow>
   checkOuter fuel es s = Some (\<not> distinct (map (pairOf es) xs))"
proof (induction xs arbitrary: s fuel)
  case Nil
  then show ?case by (cases fuel) auto
next
  case (Cons x xs)
  then obtain f where f: "fuel = Suc f" "length xs < f" by (cases fuel) auto
  have "checkInner (Suc f) es (int x) (next0 (es ! x)) = Some (pairOf es x \<in> pairOf es ` set xs)"
    using Cons.prems f by (intro checkInner_chain) auto
  moreover have "checkOuter f es (next0 (es ! x)) = Some (\<not> distinct (map (pairOf es) xs))"
    using Cons f by auto
  ultimately show ?case using Cons.prems f(1) by (auto split: bool.split)
qed

lemma checkVertices_chain:
  assumes "\<And>v. v < length vs \<Longrightarrow> chain (\<lambda>i. next0 (es ! i)) (firstEdge (vs ! v)) (xss v) \<and> (\<forall>x \<in> set (xss v). x < length es) \<and> length (xss v) < fuel"
  shows "checkVertices fuel es vs = Some (\<exists>v < length vs. \<not> distinct (map (pairOf es) (xss v)))"
  using assms
proof (induction vs arbitrary: xss)
  case (Cons v vs)
  have "checkOuter fuel es (firstEdge v) = Some (\<not> distinct (map (pairOf es) (xss 0)))"
    using Cons.prems [of 0] by (intro checkOuter_chain) auto
  moreover have "checkVertices fuel es vs = Some (\<exists>w < length vs. \<not> distinct (map (pairOf es) (xss (Suc w))))"
    using Cons.prems [of "Suc _"] by (intro Cons.IH) auto
  moreover have "(\<exists>w < length (v # vs). P w) \<longleftrightarrow> P 0 \<or> (\<exists>w < length vs. P (Suc w))" for P
    by (auto simp: less_Suc_eq_0_disj)
  ultimately show ?case by (simp split: bool.split)
qed simp

section \<open>Every vertex chains its edges\<close>

definition bucket :: "(nat \<Rightarrow> nat) \<Rightarrow> nat \<Rightarrow> nat \<Rightarrow> nat list" where
  "bucket f k v = rev (filter (\<lambda>i. f i = v) [0..<k])"

lemma bucket_simps [simp]: "bucket f 0 v = []" "bucket f (Suc k) v = (if f k = v then k # bucket f k v else bucket f k v)"
  by (simp_all add: bucket_def)

lemma set_bucket [simp]: "set (bucket f k v) = {i. i < k \<and> f i = v}"
  by (auto simp: bucket_def)

lemma length_bucket: "length (bucket f k v) \<le> k"
  using length_filter_le [of "\<lambda>i. f i = v" "[0..<k]"] by (simp add: bucket_def)

lemma distinct_bucket [simp]: "distinct (bucket f k v)"
  by (simp add: bucket_def)

definition edges_ok :: "(nat \<times> nat \<times> nat) list \<Rightarrow> nat \<Rightarrow> nat \<Rightarrow> Vertex list \<Rightarrow> Edge list \<Rightarrow> bool" where
  "edges_ok hs r k vs es \<longleftrightarrow> length hs \<le> length es \<and> 2 * r \<le> length vs
     \<and> (\<forall>i < k. (h0 (es ! i), h1 (es ! i), h2 (es ! i)) = hs ! i)
     \<and> (\<forall>v < r. chain (\<lambda>i. next0 (es ! i)) (firstEdge (vs ! v)) (bucket (\<lambda>i. fst (snd (hs ! i))) k v)
          \<and> degree (vs ! v) = length (bucket (\<lambda>i. fst (snd (hs ! i))) k v))
     \<and> (\<forall>v. r \<le> v \<longrightarrow> v < 2 * r \<longrightarrow> chain (\<lambda>i. next1 (es ! i)) (firstEdge (vs ! v)) (bucket (\<lambda>i. snd (snd (hs ! i))) k v)
          \<and> degree (vs ! v) = length (bucket (\<lambda>i. snd (snd (hs ! i))) k v))"

definition hashes_ok :: "nat \<Rightarrow> (nat \<times> nat \<times> nat) list \<Rightarrow> bool" where
  "hashes_ok r hs \<longleftrightarrow> (\<forall>(a, b, c) \<in> set hs. b < r \<and> r \<le> c \<and> c < 2 * r)"

lemma addEdge_ok:
  assumes ok: "edges_ok hs r k vs es" and k: "k < length hs" and hs: "hashes_ok r hs"
  obtains vs' es' where "addEdge k (hs ! k) (vs, es) = Some (vs', es')" "edges_ok hs r (Suc k) vs' es'"
    "length vs' = length vs" "length es' = length es"
proof -
  obtain a b c where h: "hs ! k = (a, b, c)" by (cases "hs ! k")
  then have "(a, b, c) \<in> set hs" using k by (metis nth_mem)
  then have bc: "b < r" "r \<le> c" "c < 2 * r" using hs by (auto simp: hashes_ok_def)
  from ok have o: "length hs \<le> length es" "2 * r \<le> length vs" "\<And>i. i < k \<Longrightarrow> (h0 (es ! i), h1 (es ! i), h2 (es ! i)) = hs ! i"
    "\<And>v. v < r \<Longrightarrow> chain (\<lambda>i. next0 (es ! i)) (firstEdge (vs ! v)) (bucket (\<lambda>i. fst (snd (hs ! i))) k v)
          \<and> degree (vs ! v) = length (bucket (\<lambda>i. fst (snd (hs ! i))) k v)"
    "\<And>v. r \<le> v \<Longrightarrow> v < 2 * r \<Longrightarrow> chain (\<lambda>i. next1 (es ! i)) (firstEdge (vs ! v)) (bucket (\<lambda>i. snd (snd (hs ! i))) k v)
          \<and> degree (vs ! v) = length (bucket (\<lambda>i. snd (snd (hs ! i))) k v)"
    by (simp_all add: edges_ok_def)
  let ?e = "(es ! k)\<lparr>h0 := a, h1 := b, h2 := c, next0 := firstEdge (vs ! b), next1 := firstEdge (vs ! c)\<rparr>"
  let ?vs = "vs[b := \<lparr>firstEdge = int k, degree = degree (vs ! b) + 1\<rparr>, c := \<lparr>firstEdge = int k, degree = degree (vs ! c) + 1\<rparr>]"
  let ?es = "es[k := ?e]"
  have ne: "b \<noteq> c" using bc by simp
  have kl: "k < length es" "b < length vs" "c < length vs" using k o(1,2) bc by simp_all
  have add: "addEdge k (hs ! k) (vs, es) = Some (?vs, ?es)"
    using kl ne by (simp add: addEdge_def h Let_def)
  have keep: "chain (\<lambda>i. next0 (es[k := e] ! i)) s (bucket f k v) = chain (\<lambda>i. next0 (es ! i)) s (bucket f k v)"
    "chain (\<lambda>i. next1 (es[k := e] ! i)) s (bucket f k v) = chain (\<lambda>i. next1 (es ! i)) s (bucket f k v)" for s f v e
    by (auto intro!: chain_cong iffI elim!: chain_cong [rotated])
  have "chain (\<lambda>i. next0 (?es ! i)) (firstEdge (?vs ! v)) (bucket (\<lambda>i. fst (snd (hs ! i))) (Suc k) v)
      \<and> degree (?vs ! v) = length (bucket (\<lambda>i. fst (snd (hs ! i))) (Suc k) v)" if v: "v < r" for v
  proof -
    have "c \<noteq> v" using v bc by simp
    then show ?thesis using o(4) [OF v] kl ne by (cases "b = v") (auto simp: h keep)
  qed
  moreover have "chain (\<lambda>i. next1 (?es ! i)) (firstEdge (?vs ! v)) (bucket (\<lambda>i. snd (snd (hs ! i))) (Suc k) v)
      \<and> degree (?vs ! v) = length (bucket (\<lambda>i. snd (snd (hs ! i))) (Suc k) v)" if v: "r \<le> v" "v < 2 * r" for v
  proof -
    have "b \<noteq> v" using v bc by simp
    then show ?thesis using o(5) [OF v] kl ne by (cases "c = v") (auto simp: h keep)
  qed
  moreover have "(h0 (?es ! i), h1 (?es ! i), h2 (?es ! i)) = hs ! i" if "i < Suc k" for i
    using o(3) that kl h by (cases "i = k") auto
  ultimately have "edges_ok hs r (Suc k) ?vs ?es" using o(1,2) by (simp add: edges_ok_def)
  then show thesis using that add by simp
qed

lemma addEdges_ok:
  assumes "edges_ok hs r k vs es" "k \<le> length hs" "hashes_ok r hs"
  shows "\<exists>vs' es'. addEdges k (drop k hs) (vs, es) = Some (vs', es') \<and> edges_ok hs r (length hs) vs' es'
    \<and> length vs' = length vs \<and> length es' = length es"
  using assms
proof (induction "length hs - k" arbitrary: k vs es)
  case (Suc n)
  then have k: "k < length hs" by simp
  obtain vs1 es1 where 1: "addEdge k (hs ! k) (vs, es) = Some (vs1, es1)" "edges_ok hs r (Suc k) vs1 es1"
    "length vs1 = length vs" "length es1 = length es" by (rule addEdge_ok [OF Suc.prems(1) k Suc.prems(3)])
  have "n = length hs - Suc k" using Suc.hyps(2) by simp
  from Suc.hyps(1) [OF this 1(2) _ Suc.prems(3)] k show ?case
    using 1 by (subst Cons_nth_drop_Suc [OF k, symmetric]) simp
qed simp

lemma distinct_buckets:
  "(\<forall>v < r. distinct (map g (bucket f k v))) \<longleftrightarrow> distinct (map (\<lambda>i. (f i, g i)) [0..<k])"
  if "\<And>i. i < k \<Longrightarrow> f i < r"
proof -
  have 1: "distinct (map g (bucket f k v)) \<longleftrightarrow> inj_on g {i. i < k \<and> f i = v}" for v
    by (simp add: distinct_map)
  have 2: "distinct (map (\<lambda>i. (f i, g i)) [0..<k]) \<longleftrightarrow> inj_on (\<lambda>i. (f i, g i)) {0..<k}"
    by (simp add: distinct_map)
  show ?thesis unfolding 1 2 using that by (simp add: inj_on_def Ball_def) blast
qed

lemma edgeHashes_ok: "0 < r \<Longrightarrow> 2 * r \<le> 2 ^ 32 \<Longrightarrow> hashes_ok r (map (edgeHashes behind seeds n r) names)"
proof -
  assume r: "0 < r" "2 * r \<le> 2 ^ 32"
  have "(x mod r + r) mod 2 ^ 32 = x mod r + r" for x
  proof -
    have "x mod r < r" using r(1) by simp
    then have "x mod r + r < 2 ^ 32" using r(2) by linarith
    then show ?thesis by (rule mod_less)
  qed
  moreover have "x mod r + r < 2 * r" for x using r(1) by simp
  ultimately show ?thesis using r(1) by (cases seeds) (auto simp: hashes_ok_def edgeHashes_def Let_def)
qed

lemma opmphmMapping_ok:
  assumes n: "2 \<le> length names" "length names \<le> 2 ^ 31" and sz: "2 * opmphmR (length names) \<le> length vertices" "length names \<le> length edges"
  obtains rc seeds vs es seed' where "opmphmMapping rand_r behind names vertices edges seed = Some (rc, seeds, vs, es, seed')"
    "edges_ok (map (edgeHashes behind seeds (length names) (opmphmR (length names))) names) (opmphmR (length names)) (length names) vs es"
    "rc = (if distinct (map (edgeHashes behind seeds (length names) (opmphmR (length names))) names) then 0 else 1)"
proof -
  let ?n = "length names" and ?r = "opmphmR (length names)"
  obtain s0 x1 where r0: "opmphmRandom rand_r seed = (s0, x1)" by fastforce
  obtain s1 x2 where r1: "opmphmRandom rand_r x1 = (s1, x2)" by fastforce
  obtain s2 x3 where r2: "opmphmRandom rand_r x2 = (s2, x3)" by fastforce
  define hs where "hs = map (edgeHashes behind (s0, s1, s2) ?n ?r) names"
  have r: "0 < ?r" "2 * ?r \<le> 2 ^ 32" "?r \<noteq> 0" using n by (auto simp: opmphmR_def)
  have hok: "hashes_ok ?r hs" unfolding hs_def by (rule edgeHashes_ok [OF r(1,2)])
  let ?vs0 = "replicate (2 * ?r) \<lparr>firstEdge = -1, degree = 0\<rparr> @ drop (2 * ?r) vertices"
  have "edges_ok hs ?r 0 ?vs0 edges" using sz by (simp add: edges_ok_def hs_def nth_append)
  from addEdges_ok [OF this _ hok] obtain vs es where a: "addEdges 0 hs (?vs0, edges) = Some (vs, es)" "edges_ok hs ?r ?n vs es"
    "length vs = length vertices" "length es = length edges" using sz by (auto simp: hs_def)
  let ?f = "\<lambda>i. fst (snd (hs ! i))"
  have "checkVertices (Suc ?n) es (take ?r vs) = Some (\<exists>v < length (take ?r vs). \<not> distinct (map (pairOf es) (bucket ?f ?n v)))"
    using a(2,4) sz by (intro checkVertices_chain) (auto simp: edges_ok_def less_Suc_eq_le length_bucket)
  also have "(\<exists>v < length (take ?r vs). \<not> distinct (map (pairOf es) (bucket ?f ?n v))) \<longleftrightarrow> \<not> distinct hs"
  proof -
    have l: "length (take ?r vs) = ?r" using a(3) sz by simp
    have lh: "length hs = ?n" by (simp add: hs_def)
    have f: "?f i < ?r" if "i < ?n" for i
    proof -
      have "hs ! i \<in> set hs" using that by (simp add: hs_def)
      then show ?thesis using hok by (auto simp: hashes_ok_def)
    qed
    have H: "hs ! i = (h0 (es ! i), ?f i, h2 (es ! i))" if "i < ?n" for i
    proof -
      have "(h0 (es ! i), h1 (es ! i), h2 (es ! i)) = hs ! i" using a(2) that unfolding edges_ok_def by blast
      then show ?thesis by (metis fst_conv snd_conv)
    qed
    have "(?f x, pairOf es x) = (?f y, pairOf es y) \<longleftrightarrow> hs ! x = hs ! y" if "x < ?n" "y < ?n" for x y
      using H [OF that(1)] H [OF that(2)] by (metis prod.inject)
    then have "inj_on (\<lambda>i. (?f i, pairOf es i)) {0..<?n} \<longleftrightarrow> inj_on (\<lambda>i. hs ! i) {0..<?n}"
      unfolding inj_on_def by (metis atLeastLessThan_iff)
    moreover have "distinct hs \<longleftrightarrow> inj_on (\<lambda>i. hs ! i) {0..<?n}"
      using distinct_map [of "(!) hs" "[0..<length hs]", unfolded map_nth] lh by simp
    ultimately have "distinct (map (\<lambda>i. (?f i, pairOf es i)) [0..<?n]) \<longleftrightarrow> distinct hs" by (simp add: distinct_map)
    then show ?thesis using distinct_buckets [of ?n ?f ?r "pairOf es", OF f] l by auto
  qed
  finally have "opmphmMapping rand_r behind names vertices edges seed = Some (if distinct hs then 0 else 1, (s0, s1, s2), vs, es, x3)"
    unfolding opmphmMapping_def Let_def r0 r1 r2 prod.case hs_def [symmetric] using sz r(3) a(1) by simp
  then show thesis using that a(2) unfolding hs_def by blast
qed

section \<open>Properties\<close>

text \<open>C25: the hash of a name depends on its bytes and its length only, although the function reads whole words
  and so up to three bytes behind the name.\<close>

theorem hash_local:
  assumes "\<forall>i < len. mem i = mem' i"
  shows "opmphmHashfunction mem len initval = opmphmHashfunction mem' len initval"
proof -
  let ?i = "0xdeadbeef + of_nat len + initval"
  obtain off len' s where l: "hashLoop mem 0 len (?i, ?i, ?i) = (off, len', s)" by (cases "hashLoop mem 0 len (?i, ?i, ?i)")
  have "hashLoop mem' 0 len (?i, ?i, ?i) = (off, len', s)" using hashLoop_cong [of 0 len mem mem'] assms l by simp
  moreover have "hashTail mem off len' s = hashTail mem' off len' s"
    using hashLoop_rest [OF l] assms by (intro hashTail_cong) simp
  ultimately show ?thesis using l by (simp add: opmphmHashfunction_def Let_def)
qed

theorem hash_local_witness:
  "opmphmHashfunction (\<lambda>i. [1, 2, 3, 4, 5, 6, 7, 8] ! i) 6 9 = opmphmHashfunction (\<lambda>i. [1, 2, 3, 4, 5, 6, 0, 1] ! i) 6 9"
proof (rule hash_local, intro allI impI)
  fix i :: nat
  assume "i < 6"
  then have "i = 0 \<or> i = 1 \<or> i = 2 \<or> i = 3 \<or> i = 4 \<or> i = 5" by linarith
  then show "[1, 2, 3, 4, 5, 6, 7, 8] ! i = ([1, 2, 3, 4, 5, 6, 0, 1] ! i :: 8 word)" by (elim disjE) simp_all
qed

text \<open>C26: with two names or more and arrays of the documented sizes the mapping phase always returns: 0 if and
  only if the triples of hashes of all names are distinct, and 1 otherwise; the edges of every vertex are
  chained, all of them, once, and its degree is their number.\<close>

theorem mapping_phase:
  assumes "2 \<le> length names" "length names \<le> 2 ^ 31"
    "2 * opmphmR (length names) \<le> length vertices" "length names \<le> length edges"
  shows "\<exists>rc seeds vs es seed' hs. opmphmMapping rand_r behind names vertices edges seed = Some (rc, seeds, vs, es, seed')
     \<and> hs = map (edgeHashes behind seeds (length names) (opmphmR (length names))) names
     \<and> rc = (if distinct hs then 0 else 1)
     \<and> (\<forall>v < opmphmR (length names).
          chain (\<lambda>i. next0 (es ! i)) (firstEdge (vs ! v)) (rev (filter (\<lambda>i. fst (snd (hs ! i)) = v) [0..<length names]))
          \<and> degree (vs ! v) = length (filter (\<lambda>i. fst (snd (hs ! i)) = v) [0..<length names]))"
proof -
  obtain rc seeds vs es seed' where m: "opmphmMapping rand_r behind names vertices edges seed = Some (rc, seeds, vs, es, seed')"
    "edges_ok (map (edgeHashes behind seeds (length names) (opmphmR (length names))) names) (opmphmR (length names)) (length names) vs es"
    "rc = (if distinct (map (edgeHashes behind seeds (length names) (opmphmR (length names))) names) then 0 else 1)"
    by (rule opmphmMapping_ok [OF assms])
  show ?thesis
    by (rule exI [of _ rc], rule exI [of _ seeds], rule exI [of _ vs], rule exI [of _ es], rule exI [of _ seed'], rule exI,
        intro conjI, rule m(1), rule refl, rule m(3))
      (use m(2) in \<open>simp add: edges_ok_def bucket_def\<close>)
qed

theorem mapping_phase_witness:
  "\<exists>rc seeds vs es seed' hs. opmphmMapping (\<lambda>s. (s, s + 1)) (\<lambda>_ _. 0) [''a'', ''b''] (replicate 2 \<lparr>firstEdge = 0, degree = 0\<rparr>)
       (replicate 2 \<lparr>h0 = 0, h1 = 0, h2 = 0, next0 = 0, next1 = 0, order = 0\<rparr>) 7 = Some (rc, seeds, vs, es, seed')
     \<and> hs = map (edgeHashes (\<lambda>_ _. 0) seeds (length [''a'', ''b'']) (opmphmR (length [''a'', ''b'']))) [''a'', ''b'']
     \<and> rc = (if distinct hs then 0 else 1)
     \<and> (\<forall>v < opmphmR (length [''a'', ''b'']).
          chain (\<lambda>i. next0 (es ! i)) (firstEdge (vs ! v)) (rev (filter (\<lambda>i. fst (snd (hs ! i)) = v) [0..<length [''a'', ''b'']]))
          \<and> degree (vs ! v) = length (filter (\<lambda>i. fst (snd (hs ! i)) = v) [0..<length [''a'', ''b'']]))"
  by (rule mapping_phase) (simp_all add: opmphmR_def)

end
