(* ===== verification/Spec2Isabelle.thy ===== *)
theory Spec2Isabelle
  imports KdbFacts SplitRoute Arrays SplitFacts KeySetCut Vheap Opmphm
begin

text \<open>
  Libelektra: the data structures of the core library, \<open>src/src/libs/elektra\<close>.
\<close>

end
